(* ===== verification/Prelude.thy ===== *)
theory Prelude
  imports Main "HOL-Library.Word"
begin

unbundle bit_operations_syntax

text \<open>
  Shared vocabulary of the development: failing operations as sums, checked access to a
  vector, linked lists threaded through a next function, and the lemma collections the
  component theories use.

  A C++ operation that can abort (glog's \<open>CHECK\<close>, and \<open>DCHECK\<close> in a debug build), read
  outside a vector or touch storage that holds no object returns \<open>Inl\<close> of the reason.
  The model is the debug build: a release build drops the \<open>DCHECK\<close>s and so agrees with
  it wherever the model returns \<open>Inr\<close>.
\<close>

subsection \<open>Failing operations\<close>

datatype error =
    Check_failed \<comment> \<open>a \<open>CHECK\<close>: aborts in every build\<close>
  | Dcheck_failed \<comment> \<open>a \<open>DCHECK\<close>: aborts in a debug build\<close>
  | Out_of_bounds \<comment> \<open>a vector or array accessed outside its range\<close>
  | Dead_object \<comment> \<open>raw storage used as if it held an object\<close>

type_synonym 'a res = "error + 'a"

definition bind_res :: "'a res \<Rightarrow> ('a \<Rightarrow> 'b res) \<Rightarrow> 'b res" where
  "bind_res m f = (case m of Inl e \<Rightarrow> Inl e | Inr x \<Rightarrow> f x)"

definition require :: "bool \<Rightarrow> error \<Rightarrow> 'b res \<Rightarrow> 'b res" where
  "require b e k = (if b then k else Inl e)"

definition fetch :: "'a list \<Rightarrow> nat \<Rightarrow> ('a \<Rightarrow> 'b res) \<Rightarrow> 'b res" where
  "fetch xs i k = (if i < length xs then k (xs ! i) else Inl Out_of_bounds)"

named_theorems res_simps \<open>evaluation of the failing operations\<close>

lemma bind_res_Inl [simp, res_simps]: "bind_res (Inl e) f = Inl e"
  by (simp add: bind_res_def)

lemma bind_res_Inr [simp, res_simps]: "bind_res (Inr x) f = f x"
  by (simp add: bind_res_def)

lemma require_True [simp, res_simps]: "require True e k = k"
  by (simp add: require_def)

lemma require_False [simp, res_simps]: "require False e k = Inl e"
  by (simp add: require_def)

lemma fetch_in [simp, res_simps]: "i < length xs \<Longrightarrow> fetch xs i k = k (xs ! i)"
  by (simp add: fetch_def)

lemma fetch_out [simp, res_simps]: "\<not> i < length xs \<Longrightarrow> fetch xs i k = Inl Out_of_bounds"
  by (simp add: fetch_def)

lemma bind_res_assoc: "bind_res (bind_res m f) g = bind_res m (\<lambda>x. bind_res (f x) g)"
  by (simp add: bind_res_def split: sum.split)

lemma bind_res_eq_Inr: "bind_res m f = Inr y \<longleftrightarrow> (\<exists>x. m = Inr x \<and> f x = Inr y)"
  by (cases m) auto

lemma require_eq_Inr: "require b e k = Inr y \<longleftrightarrow> b \<and> k = Inr y"
  by (simp add: require_def)

lemma fetch_eq_Inr: "fetch xs i k = Inr y \<longleftrightarrow> i < length xs \<and> k (xs ! i) = Inr y"
  by (simp add: fetch_def)

lemmas res_Inr_iff = bind_res_eq_Inr require_eq_Inr fetch_eq_Inr

lemma option_ext: "(\<And>y. a = Some y \<longleftrightarrow> b = Some y) \<Longrightarrow> a = b"
  by (cases a; cases b) auto

subsection \<open>Lists threaded through a next function\<close>

fun linked :: "('n \<Rightarrow> 'n) \<Rightarrow> 'n \<Rightarrow> 'n list \<Rightarrow> 'n \<Rightarrow> bool" where
  "linked nxt p [] e \<longleftrightarrow> p = e"
| "linked nxt p (x # xs) e \<longleftrightarrow> p = x \<and> linked nxt (nxt x) xs e"

lemma linked_cong:
  "(\<And>x. x \<in> set xs \<Longrightarrow> f x = g x) \<Longrightarrow> linked f p xs e = linked g p xs e"
  by (induction xs arbitrary: p) auto

lemma linked_append:
  "linked f p (xs @ ys) e \<longleftrightarrow> (\<exists>q. linked f p xs q \<and> linked f q ys e)"
  by (induction xs arbitrary: p) auto

lemma linked_upd_other [simp]:
  "x \<notin> set xs \<Longrightarrow> linked (f(x := y)) p xs e = linked f p xs e"
  by (rule linked_cong) auto

lemma linked_snoc:
  "linked f p (xs @ [x]) e \<longleftrightarrow> linked f p xs x \<and> f x = e"
  by (auto simp: linked_append)

lemma linked_relink_last:
  assumes "distinct xs" "xs \<noteq> []" "linked f p xs e"
    and "\<And>x. x \<in> set xs \<Longrightarrow> x \<noteq> last xs \<Longrightarrow> g x = f x" and "g (last xs) = e'"
  shows "linked g p xs e'"
proof -
  from assms(2) obtain ys y where xs: "xs = ys @ [y]" by (cases xs rule: rev_cases) auto
  with assms(3) have "linked f p ys y" by (simp add: linked_snoc)
  moreover have "linked g p ys y = linked f p ys y"
    using assms(1,4) xs by (intro linked_cong) auto
  ultimately show ?thesis using assms(5) xs by (simp add: linked_snoc)
qed

lemma linked_start: "linked f p xs e \<Longrightarrow> p = (if xs = [] then e else hd xs)"
  by (cases xs) auto

lemma linked_no_loop:
  assumes "linked f p xs e" "distinct xs" "e \<notin> set xs" "x \<in> set xs"
  shows "f x \<noteq> x"
proof -
  from assms(4) obtain ys zs where xs: "xs = ys @ x # zs" by (auto dest: split_list)
  with assms(1) have "linked f (f x) zs e" by (auto simp: linked_append)
  then have "f x = (if zs = [] then e else hd zs)" by (rule linked_start)
  then show ?thesis using assms(2,3) xs by (cases zs) auto
qed

lemma linked_upt:
  assumes "a \<le> b" "\<And>i. a \<le> i \<Longrightarrow> i < b \<Longrightarrow> f i = (if Suc i = b then e else Suc i)"
  shows "linked f (if a = b then e else a) [a..<b] e"
  using assms
proof (induction "b - a" arbitrary: a)
  case 0
  then show ?case by simp
next
  case (Suc n)
  then have "linked f (if Suc a = b then e else Suc a) [Suc a..<b] e" "a < b" by auto
  with Suc.prems show ?case by (simp add: upt_conv_Cons)
qed

lemma linked_unique:
  assumes "linked f p xs e" "linked f p ys e" "e \<notin> set xs" "e \<notin> set ys"
  shows "xs = ys"
  using assms
proof (induction xs arbitrary: p ys)
  case Nil
  then show ?case by (cases ys) auto
next
  case (Cons x xs)
  then show ?case by (cases ys) auto
qed

end
