(* ===== verification/Id_Layout.thy ===== *)
theory Id_Layout
  imports Prelude
begin

text \<open>
  The layout of an id, shared by every id vector: the low \<open>OUTER_BITS\<close> bits are the
  \emph{outer id}, an index into the table of slots, and the remaining high bits are the
  \emph{inner id}, a tag that changes each time the slot is freed
  (\<open>core/id_vector_fwd.hpp\<close>, \<open>core/stable_id_vector_fwd.hpp\<close>, and under other names
  \<open>proto/id_vector.hpp\<close>).

  \<open>OUTER_BITS\<close> is the argument \<open>k\<close>; the unsigned id type of \<open>w\<close> bits is \<open>'w word\<close>.
  The code's \<open>1 << OUTER_BITS\<close> is an \<open>int\<close> shift, so the model is the code's for
  \<open>k < 31\<close>; every instance in the repository uses at most 24.
\<close>

definition outer_mask :: "nat \<Rightarrow> 'w::len word" where
  "outer_mask k = push_bit k 1 - 1"

definition inner_mask :: "nat \<Rightarrow> 'w::len word" where
  "inner_mask k = NOT (outer_mask k)"

definition max_index :: "nat \<Rightarrow> 'w::len word" where
  "max_index k = outer_mask k - 1"

definition invalid_index :: "nat \<Rightarrow> 'w::len word" where
  "invalid_index k = outer_mask k"

definition max_size :: "nat \<Rightarrow> 'w::len word" where
  "max_size k = max_index k + 1"

definition outer_of :: "nat \<Rightarrow> 'w::len word \<Rightarrow> 'w word" where
  "outer_of k i = i AND outer_mask k"

definition inner_of :: "nat \<Rightarrow> 'w::len word \<Rightarrow> 'w word" where
  "inner_of k i = i AND inner_mask k"

text \<open>The tag increment both \<open>erase\<close> functions write out, without the new outer part.\<close>

definition next_inner :: "nat \<Rightarrow> 'w::len word \<Rightarrow> 'w word" where
  "next_inner k i = (inner_of k i + push_bit k 1) AND inner_mask k"

text \<open>The slot index of an id, and its tag as a number.\<close>

definition slot_of :: "nat \<Rightarrow> 'w::len word \<Rightarrow> nat" where
  "slot_of k i = unat (outer_of k i)"

definition tag_of :: "nat \<Rightarrow> 'w::len word \<Rightarrow> nat" where
  "tag_of k i = unat (drop_bit k i)"

subsection \<open>Bit facts\<close>

named_theorems id_simps \<open>splitting and joining the two parts of an id\<close>

lemma outer_mask_mask: "outer_mask k = mask k"
  by (simp add: outer_mask_def mask_eq_exp_minus_1)

lemma max_size_mask [simp]: "max_size k = mask k"
  by (simp add: max_size_def max_index_def outer_mask_mask)

lemma invalid_index_mask: "invalid_index k = mask k"
  by (simp add: invalid_index_def outer_mask_mask)

lemma outer_of_take_bit: "outer_of k i = take_bit k i"
  by (simp add: outer_of_def outer_mask_mask take_bit_eq_mask)

lemma inner_of_not_mask: "inner_of k i = i AND NOT (mask k)"
  by (simp add: inner_of_def inner_mask_def outer_mask_mask)

lemmas layout_bits = outer_of_take_bit inner_of_not_mask inner_mask_def outer_mask_mask
  invalid_index_mask

lemma outer_of_or [id_simps]: "outer_of k (a OR b) = outer_of k a OR outer_of k b"
  by (rule bit_word_eqI) (auto simp: layout_bits bit_simps)

lemma inner_of_or [id_simps]: "inner_of k (a OR b) = inner_of k a OR inner_of k b"
  by (rule bit_word_eqI) (auto simp: layout_bits bit_simps)

lemma outer_of_inner_of [simp, id_simps]: "outer_of k (inner_of k i) = 0"
  by (rule bit_word_eqI) (auto simp: layout_bits bit_simps)

lemma inner_of_outer_of [simp, id_simps]: "inner_of k (outer_of k i) = 0"
  by (rule bit_word_eqI) (auto simp: layout_bits bit_simps)

lemma outer_of_idem [simp, id_simps]: "outer_of k (outer_of k i) = outer_of k i"
  by (rule bit_word_eqI) (auto simp: layout_bits bit_simps)

lemma inner_of_idem [simp, id_simps]: "inner_of k (inner_of k i) = inner_of k i"
  by (rule bit_word_eqI) (auto simp: layout_bits bit_simps)

lemma outer_of_invalid [simp, id_simps]: "outer_of k (invalid_index k) = invalid_index k"
  by (rule bit_word_eqI) (auto simp: layout_bits bit_simps)

lemma inner_of_invalid [simp, id_simps]: "inner_of k (invalid_index k) = 0"
  by (rule bit_word_eqI) (auto simp: layout_bits bit_simps)

lemma outer_of_mask [simp, id_simps]: "outer_of k (mask k) = mask k"
  by (rule bit_word_eqI) (auto simp: layout_bits bit_simps)

lemma inner_of_mask [simp, id_simps]: "inner_of k (mask k) = 0"
  by (rule bit_word_eqI) (auto simp: layout_bits bit_simps)

lemma inner_of_next_inner [simp, id_simps]: "inner_of k (next_inner k i) = next_inner k i"
  by (rule bit_word_eqI) (auto simp: next_inner_def layout_bits bit_simps)

lemma outer_of_next_inner [simp, id_simps]: "outer_of k (next_inner k i) = 0"
  by (rule bit_word_eqI) (auto simp: next_inner_def layout_bits bit_simps)

lemma id_split: "i = inner_of k i OR outer_of k i"
  by (rule bit_word_eqI) (auto simp: layout_bits bit_simps)

lemma id_eqI: "inner_of k i = inner_of k j \<Longrightarrow> outer_of k i = outer_of k j \<Longrightarrow> i = j"
  by (metis id_split)

text \<open>The free list is extended by \<open>id &= INNER_MASK | outer\<close>: on an entry whose outer part is
  all ones this replaces the outer part and keeps the tag.\<close>

lemma inner_of_relink [simp, id_simps]:
  "inner_of k (i AND (inner_mask k OR o')) = inner_of k i"
  by (rule bit_word_eqI) (auto simp: layout_bits bit_simps)

lemma outer_of_relink:
  "outer_of k i = invalid_index k \<Longrightarrow> outer_of k (i AND (inner_mask k OR o')) = outer_of k o'"
proof -
  assume i: "outer_of k i = invalid_index k"
  have "outer_of k (i AND (inner_mask k OR o')) = outer_of k i AND outer_of k o'"
    by (rule bit_word_eqI) (auto simp: layout_bits bit_simps)
  also have "\<dots> = outer_of k o'"
    unfolding i by (rule bit_word_eqI) (auto simp: layout_bits bit_simps)
  finally show ?thesis .
qed

subsection \<open>Slots and tags as numbers\<close>

lemma of_nat_small:
  "n < 2 ^ k \<Longrightarrow> k < LENGTH('w) \<Longrightarrow> unat (of_nat n :: 'w::len word) = n"
proof -
  assume "n < 2 ^ k" "k < LENGTH('w)"
  then have "n < 2 ^ LENGTH('w)"
    by (meson less_imp_le_nat one_le_numeral order_less_le_trans power_increasing)
  then show ?thesis by (simp add: unat_of_nat)
qed

lemma unat_exp_lt: "k < LENGTH('w) \<Longrightarrow> unat (2 ^ k :: 'w::len word) = 2 ^ k"
  using unat_of_nat [of "2 ^ k", where 'a = 'w] by simp

lemma unat_mask_lt: "k < LENGTH('w) \<Longrightarrow> unat (mask k :: 'w::len word) = 2 ^ k - 1"
  using of_nat_small [of "mask k" k, where 'w = 'w]
  by (simp add: of_nat_mask_eq mask_eq_exp_minus_1)

lemma unat_invalid: "k < LENGTH('w) \<Longrightarrow> unat (invalid_index k :: 'w::len word) = 2 ^ k - 1"
  by (simp add: invalid_index_mask unat_mask_lt)

lemma slot_of_mod: "slot_of k i = unat i mod 2 ^ k"
  unfolding slot_of_def outer_of_take_bit unsigned_take_bit_eq by (rule take_bit_eq_mod)

lemma tag_of_div: "tag_of k i = unat i div 2 ^ k"
  unfolding tag_of_def unat_drop_bit_eq by (rule drop_bit_eq_div)

lemma slot_of_lt [simp]: "slot_of k i < 2 ^ k"
  by (simp add: slot_of_mod)

lemma outer_of_eq_of_nat: "outer_of k i = of_nat (slot_of k i)"
  by (simp add: slot_of_def)

lemma slot_of_eq_iff: "slot_of k i = slot_of k j \<longleftrightarrow> outer_of k i = outer_of k j"
  by (simp add: slot_of_def word_unat_eq_iff)

lemma id_eq_iff: "i = j \<longleftrightarrow> slot_of k i = slot_of k j \<and> inner_of k i = inner_of k j"
  by (metis id_eqI slot_of_eq_iff)

lemma slot_of_inner_or [simp, id_simps]: "slot_of k (inner_of k i OR j) = slot_of k j"
  by (simp add: slot_of_def id_simps)

lemma slot_of_next_or [simp, id_simps]: "slot_of k (next_inner k i OR j) = slot_of k j"
  by (simp add: slot_of_def id_simps)

lemma slot_of_outer_of [simp, id_simps]: "slot_of k (outer_of k i) = slot_of k i"
  by (simp add: slot_of_def)

lemma slot_of_of_nat [simp]:
  "n < 2 ^ k \<Longrightarrow> k < LENGTH('w) \<Longrightarrow> slot_of k (of_nat n :: 'w::len word) = n"
  by (simp add: slot_of_mod of_nat_small)

lemma slot_of_invalid: "k < LENGTH('w) \<Longrightarrow> slot_of k (invalid_index k :: 'w::len word) = 2 ^ k - 1"
  by (simp add: slot_of_def unat_invalid)

lemma of_nat_invalid: "of_nat (2 ^ k - 1) = (invalid_index k :: 'w::len word)"
proof -
  have "of_nat (mask k) = (mask k :: 'w word)" by (rule of_nat_mask_eq)
  then show ?thesis by (simp only: invalid_index_mask mask_eq_exp_minus_1 [where 'a = nat])
qed

lemma slot_lt_invalid:
  "n < 2 ^ k - 1 \<Longrightarrow> k < LENGTH('w) \<Longrightarrow> (of_nat n :: 'w::len word) \<noteq> invalid_index k"
proof
  assume n: "n < 2 ^ k - 1" and k: "k < LENGTH('w)"
    and eq: "(of_nat n :: 'w word) = invalid_index k"
  from n have "n < 2 ^ k" by simp
  then have "unat (of_nat n :: 'w word) = n" using k by (rule of_nat_small)
  with eq n k show False by (simp add: unat_invalid)
qed

lemma inner_of_of_nat [simp]:
  "n < 2 ^ k \<Longrightarrow> k < LENGTH('w) \<Longrightarrow> inner_of k (of_nat n :: 'w::len word) = 0"
  by (metis inner_of_outer_of outer_of_eq_of_nat slot_of_of_nat)

lemma outer_of_of_nat [simp]:
  "n < 2 ^ k \<Longrightarrow> k < LENGTH('w) \<Longrightarrow> outer_of k (of_nat n :: 'w::len word) = of_nat n"
  by (simp add: outer_of_eq_of_nat)

lemma tag_of_inner: "tag_of k i = tag_of k (inner_of k i)"
  unfolding tag_of_def
  by (rule arg_cong [where f = unat], rule bit_word_eqI)
    (auto simp: layout_bits bit_simps dest: bit_imp_le_length)

lemma unat_inner_of: "unat (inner_of k i) = 2 ^ k * tag_of k i"
proof -
  have "unat i = unat (inner_of k i) + unat (outer_of k i)"
  proof -
    have "i = inner_of k i + outer_of k i"
      by (subst disjunctive_add_eq_or) (auto simp: layout_bits bit_simps intro!: bit_word_eqI)
    moreover have "outer_of k i \<le> i"
      by (simp add: outer_of_def word_and_le2)
    ultimately show ?thesis
      by (metis add_diff_cancel_right' diff_add_inverse2 le_add_diff_inverse2 unat_sub word_le_nat_alt)
  qed
  then show ?thesis
    by (metis add_right_cancel minus_mod_eq_mult_div slot_of_def slot_of_mod tag_of_div
        add_diff_cancel_right')
qed

lemma inner_of_eq_iff_tag: "inner_of k i = inner_of k j \<longleftrightarrow> tag_of k i = tag_of k j"
  by (metis tag_of_inner unat_inner_of word_unat_eq_iff)

lemma tag_of_next_inner:
  fixes i :: "'w::len word"
  assumes "k < LENGTH('w)"
  shows "tag_of k (next_inner k i) = (tag_of k i + 1) mod 2 ^ (LENGTH('w) - k)"
proof -
  have L: "(2::nat) ^ LENGTH('w) = 2 ^ k * 2 ^ (LENGTH('w) - k)"
    using assms by (simp flip: power_add)
  have "tag_of k (next_inner k i) = unat (inner_of k i + 2 ^ k) div 2 ^ k"
    by (metis next_inner_def inner_of_def push_bit_of_1 tag_of_div tag_of_inner)
  also have "unat (inner_of k i + 2 ^ k) = (2 ^ k * tag_of k i + 2 ^ k) mod 2 ^ LENGTH('w)"
    using assms by (simp add: unat_word_ariths(1) unat_inner_of unat_exp_lt)
  also have "\<dots> = 2 ^ k * ((tag_of k i + 1) mod 2 ^ (LENGTH('w) - k))"
    unfolding L by (metis add.commute mult_mod_right mult_Suc_right Suc_eq_plus1)
  finally show ?thesis by simp
qed

end
