(* ===== verification/Id_Map.thy ===== *)
theory Id_Map
  imports Prelude
begin

text \<open>
  What the clients of an id vector rely on, as a contract: a container hands out an id for
  each object it stores, the id finds that object and no other until it is erased, and then
  it finds nothing. \<open>lookup\<close> is the abstraction function: the finite map from ids in use to
  stored objects. The two id vectors of \<open>core/\<close> provide it: \<open>Stable_Id_Vector\<close> and
  \<open>Packed_Id_Vector\<close> interpret the locale on their own definitions, and the executor uses it
  through the first. The lock-free vector of \<open>proto/\<close> provides it when calls do not overlap
  (\<open>Lockfree_Quiet\<close>); \<open>Lockfree_Id_Vector\<close> states the same promises of interleaved steps.
\<close>

locale id_map =
  fixes inv :: "'s \<Rightarrow> bool"
    and lookup :: "'s \<Rightarrow> 'i \<Rightarrow> 'a option"
    and null :: 'i
    and cap :: nat
    and emplace :: "'s \<Rightarrow> 'a \<Rightarrow> ('i \<times> 's) res"
    and erase :: "'s \<Rightarrow> 'i \<Rightarrow> 's res"
    and get :: "'s \<Rightarrow> 'i \<Rightarrow> 'a res"
    and valid :: "'s \<Rightarrow> 'i \<Rightarrow> bool"
  assumes finite_lookup: "inv s \<Longrightarrow> finite (dom (lookup s))"
    and lookup_null: "inv s \<Longrightarrow> lookup s null = None"
    and emplace_ok: "inv s \<Longrightarrow> card (dom (lookup s)) < cap \<Longrightarrow>
      \<exists>i s'. emplace s x = Inr (i, s') \<and> inv s' \<and> lookup s i = None \<and>
        lookup s' = (lookup s)(i \<mapsto> x)"
    and erase_ok: "inv s \<Longrightarrow> lookup s i = Some x \<Longrightarrow>
      \<exists>s'. erase s i = Inr s' \<and> inv s' \<and> lookup s' = (lookup s)(i := None)"
    and get_ok: "inv s \<Longrightarrow> lookup s i = Some x \<Longrightarrow> get s i = Inr x"
    and get_none: "inv s \<Longrightarrow> lookup s i = None \<Longrightarrow> \<exists>e. get s i = Inl e"
begin

lemma get_iff: "inv s \<Longrightarrow> get s i = Inr x \<longleftrightarrow> lookup s i = Some x"
  by (cases "lookup s i") (auto dest: get_ok get_none [of s i])

lemma emplaceE:
  assumes "inv s" "card (dom (lookup s)) < cap"
  obtains i s' where "emplace s x = Inr (i, s')" "inv s'" "lookup s i = None"
    "lookup s' = (lookup s)(i \<mapsto> x)" "i \<noteq> null"
proof -
  from emplace_ok [OF assms, of x] obtain i s'
    where *: "emplace s x = Inr (i, s')" "inv s'" "lookup s i = None"
      "lookup s' = (lookup s)(i \<mapsto> x)" by blast
  moreover have "i \<noteq> null"
    using lookup_null [OF *(2)] *(4) by auto
  ultimately show ?thesis using that by blast
qed

lemma eraseE:
  assumes "inv s" "lookup s i = Some x"
  obtains s' where "erase s i = Inr s'" "inv s'" "lookup s' = (lookup s)(i := None)"
  using erase_ok [OF assms] by blast

text \<open>Storing and erasing again leaves every other object where it was.\<close>

lemma emplace_erase:
  assumes "inv s" "card (dom (lookup s)) < cap" "emplace s x = Inr (i, s')"
  shows "\<exists>s''. erase s' i = Inr s'' \<and> inv s'' \<and> lookup s'' = lookup s"
proof -
  from emplace_ok [OF assms(1,2), of x] assms(3)
  have s': "inv s'" "lookup s i = None" "lookup s' = (lookup s)(i \<mapsto> x)" by auto
  from erase_ok [OF s'(1), of i x] s' show ?thesis by (auto simp: fun_upd_idem)
qed

text \<open>A run of stores finds room as long as the capacity is not reached.\<close>

fun emplaces :: "'s \<Rightarrow> 'a list \<Rightarrow> ('i list \<times> 's) res" where
  "emplaces s [] = Inr ([], s)"
| "emplaces s (x # xs) =
     bind_res (emplace s x) (\<lambda>(i, s'). bind_res (emplaces s' xs) (\<lambda>(is, s''). Inr (i # is, s'')))"

lemma emplaces_ok:
  assumes "inv s" "card (dom (lookup s)) + length xs \<le> cap"
  shows "\<exists>is s'. emplaces s xs = Inr (is, s') \<and> inv s' \<and> length is = length xs \<and>
    distinct is \<and> set is \<inter> dom (lookup s) = {} \<and> lookup s' = (lookup s)(is [\<mapsto>] xs)"
  using assms
proof (induction xs arbitrary: s)
  case Nil
  then show ?case by simp
next
  case (Cons x xs)
  from Cons.prems have "card (dom (lookup s)) < cap" by simp
  then obtain i s' where e: "emplace s x = Inr (i, s')" "inv s'" "lookup s i = None"
    "lookup s' = (lookup s)(i \<mapsto> x)" using emplaceE [OF Cons.prems(1)] by metis
  have "card (dom (lookup s')) = Suc (card (dom (lookup s)))"
    using e(3,4) finite_lookup [OF Cons.prems(1)] by (simp add: domIff)
  with Cons.prems have "card (dom (lookup s')) + length xs \<le> cap" by simp
  from Cons.IH [OF e(2) this] obtain "is" s'' where
    r: "emplaces s' xs = Inr (is, s'')" "inv s''" "length is = length xs" "distinct is"
      "set is \<inter> dom (lookup s') = {}" "lookup s'' = (lookup s')(is [\<mapsto>] xs)" by blast
  then show ?case using e by (auto simp: domIff)
qed

end

text \<open>\<open>is_valid_id\<close> of a vector whose ids are valid exactly while they are in use.\<close>

locale checked_id_map = id_map +
  assumes valid_iff: "inv s \<Longrightarrow> valid s i \<longleftrightarrow> lookup s i \<noteq> None"
begin

lemma valid_get: "inv s \<Longrightarrow> valid s i \<longleftrightarrow> (\<exists>x. get s i = Inr x)"
  using get_iff by (auto simp: valid_iff)

lemma valid_emplaced: "inv s \<Longrightarrow> card (dom (lookup s)) < cap \<Longrightarrow> emplace s x = Inr (i, s') \<Longrightarrow>
    valid s' i \<and> get s' i = Inr x"
  using emplace_ok [of s x] by (auto simp: valid_iff intro: get_ok)

lemma valid_erased: "inv s \<Longrightarrow> valid s i \<Longrightarrow> erase s i = Inr s' \<Longrightarrow> \<not> valid s' i"
  using erase_ok [of s i] by (auto simp: valid_iff)

end

text \<open>The two ways of treating an id that is not in use: \<open>core/\<close> aborts, \<open>proto/\<close> ignores it,
  as long as its index is not that of \<open>INVALID_ID\<close>.\<close>

locale strict_id_map = checked_id_map +
  assumes erase_none: "inv s \<Longrightarrow> lookup s i = None \<Longrightarrow> \<exists>e. erase s i = Inl e"
begin

lemma erase_twice:
  assumes "inv s" "erase s i = Inr s'"
  shows "\<exists>e. erase s' i = Inl e"
proof -
  from assms erase_none [of s i] obtain x where "lookup s i = Some x" by fastforce
  with assms obtain "inv s'" "lookup s' = (lookup s)(i := None)" by (auto elim: eraseE)
  then show ?thesis by (intro erase_none) auto
qed

end

locale lenient_id_map = checked_id_map +
  fixes proper :: "'b \<Rightarrow> bool"
  assumes erase_ignored: "inv s \<Longrightarrow> lookup s i = None \<Longrightarrow> proper i \<Longrightarrow> erase s i = Inr s"
    and erase_improper: "inv s \<Longrightarrow> \<not> proper i \<Longrightarrow> \<exists>e. erase s i = Inl e"
begin

lemma erase_again: "inv s \<Longrightarrow> erase s i = Inr s' \<Longrightarrow> erase s' i = Inr s'"
  using erase_improper [of s i] erase_ignored [of s i] erase_ignored [of s' i] erase_ok [of s i]
  by (cases "lookup s i"; cases "proper i") auto

lemma erases_ignored: "inv s \<Longrightarrow> (\<forall>i \<in> set is. lookup s i = None \<and> proper i) \<Longrightarrow>
    foldr (\<lambda>i m. bind_res m (\<lambda>s. erase s i)) is (Inr s) = Inr s"
  by (induction "is") (auto simp: erase_ignored)

end

text \<open>Containers whose stored objects clients also update in place, through the reference that
  \<open>operator[]\<close> returns.\<close>

locale mutable_id_map = strict_id_map +
  fixes put :: "'a \<Rightarrow> 'b \<Rightarrow> 'c \<Rightarrow> 'a res"
  assumes put_ok: "inv s \<Longrightarrow> lookup s i = Some x \<Longrightarrow>
    \<exists>s'. put s i y = Inr s' \<and> inv s' \<and> lookup s' = (lookup s)(i \<mapsto> y)"
begin

lemma putE:
  assumes "inv s" "lookup s i = Some x"
  obtains s' where "put s i y = Inr s'" "inv s'" "lookup s' = (lookup s)(i \<mapsto> y)"
  using put_ok [OF assms] by blast

end

end
