(* ===== verification/Stable_Id_Vector.thy ===== *)
theory Stable_Id_Vector
  imports Id_Layout Id_Map "HOL-Library.Multiset"
begin

text \<open>
  \<open>BasicStableIdVector\<close> of \<open>core/stable_id_vector.hpp\<close>: a table of slots, each holding raw
  storage for one object and an id word. A slot in use carries its own index in the outer
  part of its id; a free slot carries the index of the next free slot there, and the free
  slots form a list from \<open>first_free_\<close> to \<open>last_free_\<close> used first in, first out.

  The class declaration itself is not in the repository (\<open>core/stable_id_vector_fwd.hpp\<close>
  declares another class, \<open>BasicSharedIdVector\<close>, that cannot be instantiated); its members are
  those the member functions use: \<open>entries_\<close>, \<open>first_free_\<close>, \<open>last_free_\<close> and \<open>size_\<close>. A new
  \<open>Entry\<close> is value-initialised by the standard containers, so its id is 0.
\<close>

subsection \<open>State and operations\<close>

record ('a, 'i) entry =
  data :: "'a option" \<comment> \<open>the storage: an object, or raw bytes\<close>
  eid :: "'i"

record ('a, 'i) stable_vec =
  entries :: "('a, 'i) entry list"
  first_free :: "'i"
  last_free :: "'i"
  vsize :: "'i"

abbreviation new_entry :: "('a, 'w::len word) entry" where
  "new_entry \<equiv> \<lparr>data = None, eid = 0\<rparr>"

definition set_eid :: "('a, 'w::len word) entry list \<Rightarrow> nat \<Rightarrow> 'w word \<Rightarrow> ('a, 'w word) entry list" where
  "set_eid es i x = es[i := (es ! i)\<lparr>eid := x\<rparr>]"

definition set_data :: "('a, 'w::len word) entry list \<Rightarrow> nat \<Rightarrow> 'a option \<Rightarrow> ('a, 'w word) entry list" where
  "set_data es i x = es[i := (es ! i)\<lparr>data := x\<rparr>]"

definition sv_empty :: "nat \<Rightarrow> ('a, 'w::len word) stable_vec" where
  "sv_empty k = \<lparr>entries = [], first_free = invalid_index k, last_free = invalid_index k, vsize = 0\<rparr>"

definition sv_reserve :: "nat \<Rightarrow> ('a, 'w::len word) stable_vec \<Rightarrow> 'w word \<Rightarrow> ('a, 'w word) stable_vec res" where
  "sv_reserve k v new_capacity =
     require (new_capacity \<le> max_size k) Dcheck_failed (
     let old_capacity = length (entries v); n = unat new_capacity in
     if n > old_capacity then
       let es = entries v @ replicate (n - old_capacity) new_entry;
           es = foldl (\<lambda>es i. set_eid es i (of_nat (i + 1))) es [old_capacity..<n - 1];
           es = set_eid es (n - 1) (first_free v)
       in Inr (v\<lparr>entries := es, first_free := of_nat old_capacity,
                last_free := (if last_free v = invalid_index k then new_capacity - 1
                              else last_free v)\<rparr>)
     else Inr v)"

definition sv_new :: "nat \<Rightarrow> 'w::len word \<Rightarrow> ('a, 'w word) stable_vec res" where
  "sv_new k capacity = sv_reserve k (sv_empty k) capacity"

definition sv_is_valid_id :: "nat \<Rightarrow> ('a, 'w::len word) stable_vec \<Rightarrow> 'w word \<Rightarrow> bool" where
  "sv_is_valid_id k v i =
     (let outer_id = slot_of k i in
      outer_id < length (entries v) \<and> i = eid (entries v ! outer_id))"

definition sv_emplace :: "nat \<Rightarrow> ('a, 'w::len word) stable_vec \<Rightarrow> 'a \<Rightarrow> ('w word \<times> ('a, 'w word) stable_vec) res" where
  "sv_emplace k v x =
     bind_res
       (if last_free v = invalid_index k then
          require (first_free v = invalid_index k) Dcheck_failed (
          let outer_id = of_nat (length (entries v)); es = entries v @ [new_entry] in
          require (unat outer_id \<le> length es) Dcheck_failed (
          Inr (outer_id, v\<lparr>entries := es\<rparr>)))
        else
          require (first_free v \<noteq> invalid_index k) Dcheck_failed (
          let outer_id = first_free v in
          require (unat outer_id \<le> length (entries v)) Dcheck_failed (
          fetch (entries v) (unat outer_id) (\<lambda>e.
          let first = outer_of k (eid e) in
          Inr (outer_id, v\<lparr>first_free := first,
                 last_free := (if first = invalid_index k then invalid_index k
                               else last_free v)\<rparr>)))))
       (\<lambda>(outer_id, v).
          fetch (entries v) (unat outer_id) (\<lambda>e.
          let i = inner_of k (eid e) OR outer_id;
              es = set_eid (set_data (entries v) (unat outer_id) (Some x)) (unat outer_id) i
          in Inr (i, v\<lparr>entries := es, vsize := vsize v + 1\<rparr>)))"

definition sv_get :: "nat \<Rightarrow> ('a, 'w::len word) stable_vec \<Rightarrow> 'w word \<Rightarrow> 'a res" where
  "sv_get k v i =
     (let outer_id = slot_of k i in
      require (outer_id < length (entries v)) Dcheck_failed (
      fetch (entries v) outer_id (\<lambda>e.
      require (eid e = i) Check_failed (
      case data e of None \<Rightarrow> Inl Dead_object | Some x \<Rightarrow> Inr x))))"

text \<open>Assignment through the reference that \<open>operator[]\<close> returns.\<close>

definition sv_put :: "nat \<Rightarrow> ('a, 'w::len word) stable_vec \<Rightarrow> 'w word \<Rightarrow> 'a \<Rightarrow> ('a, 'w word) stable_vec res" where
  "sv_put k v i x =
     bind_res (sv_get k v i) (\<lambda>_. Inr (v\<lparr>entries := set_data (entries v) (slot_of k i) (Some x)\<rparr>))"

definition sv_erase :: "nat \<Rightarrow> ('a, 'w::len word) stable_vec \<Rightarrow> 'w word \<Rightarrow> ('a, 'w word) stable_vec res" where
  "sv_erase k v freed_id =
     (let outer_freed_id = outer_of k freed_id; f = unat outer_freed_id in
      require (f \<le> length (entries v)) Dcheck_failed (
      fetch (entries v) f (\<lambda>freed_entry.
      require (freed_id = eid freed_entry) Dcheck_failed (
      require (data freed_entry \<noteq> None) Dead_object (
      let es = set_eid (set_data (entries v) f None) f
                 (next_inner k (eid freed_entry) OR outer_mask k) in
      bind_res
        (if last_free v = invalid_index k then
           require (first_free v = invalid_index k) Dcheck_failed (
           Inr (v\<lparr>entries := es, first_free := outer_freed_id, last_free := outer_freed_id\<rparr>))
         else
           fetch es (unat (last_free v)) (\<lambda>l.
           Inr (v\<lparr>entries := set_eid es (unat (last_free v))
                    (eid l AND (inner_mask k OR outer_freed_id)),
                  last_free := outer_freed_id\<rparr>)))
        (\<lambda>v. Inr (v\<lparr>vsize := vsize v - 1\<rparr>)))))))"

text \<open>The destructor: it returns the objects it destroys, in order.\<close>

fun sv_destroy_from :: "nat \<Rightarrow> ('a, 'w::len word) entry list \<Rightarrow> nat \<Rightarrow> 'w word \<Rightarrow> ('a list \<times> 'w word) res" where
  "sv_destroy_from k [] i remaining = Inr ([], remaining)"
| "sv_destroy_from k (e # es) i remaining =
     (if slot_of k (eid e) = i then
        (case data e of
           None \<Rightarrow> Inl Dead_object
         | Some x \<Rightarrow> bind_res (sv_destroy_from k es (Suc i) (remaining - 1)) (\<lambda>(xs, r). Inr (x # xs, r)))
      else sv_destroy_from k es (Suc i) remaining)"

definition sv_destroy :: "nat \<Rightarrow> ('a, 'w::len word) stable_vec \<Rightarrow> 'a list res" where
  "sv_destroy k v =
     bind_res (sv_destroy_from k (entries v) 0 (vsize v)) (\<lambda>(xs, remaining).
     require (remaining = 0) Dcheck_failed (Inr xs))"


subsection \<open>Well-formedness\<close>

text \<open>
  \<open>sv_repr k v fs\<close>: the free slots of \<open>v\<close> are \<open>fs\<close>, in the order in which they will be
  used again. At most \<open>MAX_SIZE = 2 ^ k - 1\<close> slots exist, so \<open>INVALID_INDEX\<close> is never the
  index of a slot.
\<close>

definition next_free :: "nat \<Rightarrow> ('a, 'w::len word) entry list \<Rightarrow> nat \<Rightarrow> nat" where
  "next_free k es i = slot_of k (eid (es ! i))"

definition sv_repr :: "nat \<Rightarrow> ('a, 'w::len word) stable_vec \<Rightarrow> nat list \<Rightarrow> bool" where
  "sv_repr k v fs \<longleftrightarrow>
     k < LENGTH('w) \<and> length (entries v) \<le> 2 ^ k - 1 \<and>
     distinct fs \<and> (\<forall>i. i \<in> set fs \<longleftrightarrow> i < length (entries v) \<and> data (entries v ! i) = None) \<and>
     (\<forall>i < length (entries v). data (entries v ! i) \<noteq> None \<longrightarrow> slot_of k (eid (entries v ! i)) = i) \<and>
     linked (next_free k (entries v)) (slot_of k (first_free v)) fs (2 ^ k - 1) \<and>
     inner_of k (first_free v) = 0 \<and>
     last_free v = (if fs = [] then invalid_index k else of_nat (last fs)) \<and>
     vsize v = of_nat (length (entries v) - length fs)"

definition sv_inv :: "nat \<Rightarrow> ('a, 'w::len word) stable_vec \<Rightarrow> bool" where
  "sv_inv k v \<longleftrightarrow> (\<exists>fs. sv_repr k v fs)"

definition sv_lookup :: "nat \<Rightarrow> ('a, 'w::len word) stable_vec \<Rightarrow> 'w word \<Rightarrow> 'a option" where
  "sv_lookup k v i = (if sv_is_valid_id k v i then data (entries v ! slot_of k i) else None)"

lemma sv_reprD:
  assumes "sv_repr k (v :: ('a, 'w::len word) stable_vec) fs"
  shows "k < LENGTH('w)" "length (entries v) \<le> 2 ^ k - 1" "length (entries v) < 2 ^ k" "distinct fs"
    "\<And>i. i \<in> set fs \<longleftrightarrow> i < length (entries v) \<and> data (entries v ! i) = None"
    "\<And>i. i < length (entries v) \<Longrightarrow> data (entries v ! i) \<noteq> None \<Longrightarrow> slot_of k (eid (entries v ! i)) = i"
    "linked (next_free k (entries v)) (slot_of k (first_free v)) fs (2 ^ k - 1)"
    "inner_of k (first_free v) = 0"
    "last_free v = (if fs = [] then invalid_index k else of_nat (last fs))"
    "vsize v = of_nat (length (entries v) - length fs)"
proof -
  show "length (entries v) < 2 ^ k"
    using assms by (auto simp: sv_repr_def intro: order_le_less_trans [of _ "2 ^ k - 1"])
qed (use assms in \<open>auto simp: sv_repr_def\<close>)

lemma sv_repr_free_lt:
  assumes "sv_repr k v fs" "i \<in> set fs"
  shows "i < length (entries v)" "i < 2 ^ k - 1" "i < 2 ^ k"
  using assms sv_reprD [OF assms(1)] by (auto intro: order_less_le_trans)

lemma sv_repr_free_no_loop:
  assumes "sv_repr k v fs" "i < length (entries v)" "data (entries v ! i) = None"
  shows "slot_of k (eid (entries v ! i)) \<noteq> i"
proof -
  note r = sv_reprD [OF assms(1)]
  have "2 ^ k - 1 \<notin> set fs" using sv_repr_free_lt [OF assms(1)] by blast
  moreover have "i \<in> set fs" using assms r by simp
  ultimately show ?thesis using linked_no_loop [OF r(7) r(4)] by (simp add: next_free_def)
qed

lemma sv_repr_last_eq:
  assumes "sv_repr k v fs"
  shows "last_free v = invalid_index k \<longleftrightarrow> fs = []"
proof -
  note r = sv_reprD [OF assms]
  have "last_free v \<noteq> invalid_index k" if "fs \<noteq> []"
    using that r slot_lt_invalid [OF _ r(1)] sv_repr_free_lt(2) [OF assms last_in_set]
    by simp
  then show ?thesis using r(9) by auto
qed

lemma sv_repr_last:
  fixes v :: "('a, 'w::len word) stable_vec"
  assumes "sv_repr k v fs" "fs \<noteq> []"
  shows "last_free v = of_nat (last fs)" "unat (last_free v) = last fs"
    "last fs < length (entries v)" "data (entries v ! last fs) = None"
    "last_free v \<noteq> invalid_index k"
proof -
  note r = sv_reprD [OF assms(1)]
  have l: "last fs \<in> set fs" using assms(2) by simp
  note lt = sv_repr_free_lt [OF assms(1) l]
  show *: "last_free v = of_nat (last fs)" using r(9) assms(2) by simp
  show "unat (last_free v) = last fs" unfolding * by (rule of_nat_small [OF lt(3) r(1)])
  show "last fs < length (entries v)" by (rule lt)
  show "data (entries v ! last fs) = None" using l r(5) by blast
  show "last_free v \<noteq> invalid_index k" using assms sv_repr_last_eq by blast
qed

lemma sv_repr_first:
  assumes "sv_repr k v fs"
  shows "slot_of k (first_free v) = (if fs = [] then 2 ^ k - 1 else hd fs)"
    "first_free v = (if fs = [] then invalid_index k else of_nat (hd fs))"
proof -
  note r = sv_reprD [OF assms]
  show *: "slot_of k (first_free v) = (if fs = [] then 2 ^ k - 1 else hd fs)"
    using linked_start [OF r(7)] .
  have "first_free v = outer_of k (first_free v)" using r(8) id_split [of "first_free v" k] by simp
  then have "first_free v = of_nat (slot_of k (first_free v))" by (simp add: outer_of_eq_of_nat)
  then show "first_free v = (if fs = [] then invalid_index k else of_nat (hd fs))"
    by (simp only: * of_nat_invalid if_distrib [of of_nat] split: if_split)
qed

lemma sv_valid_live:
  assumes "sv_repr k v fs"
  shows "sv_is_valid_id k v i \<longleftrightarrow>
    slot_of k i < length (entries v) \<and> data (entries v ! slot_of k i) \<noteq> None \<and>
    eid (entries v ! slot_of k i) = i"
  unfolding sv_is_valid_id_def Let_def by (metis sv_repr_free_no_loop [OF assms])

lemma sv_lookup_eq_Some:
  assumes "sv_repr k v fs"
  shows "sv_lookup k v i = Some x \<longleftrightarrow>
    slot_of k i < length (entries v) \<and> entries v ! slot_of k i = \<lparr>data = Some x, eid = i\<rparr>"
  using sv_valid_live [OF assms, of i] by (auto simp: sv_lookup_def)

lemma sv_lookup_eq_None:
  assumes "sv_repr k v fs"
  shows "sv_lookup k v i = None \<longleftrightarrow> \<not> sv_is_valid_id k v i"
  using sv_valid_live [OF assms, of i] by (auto simp: sv_lookup_def)

lemma sv_lookup_invalid:
  assumes "sv_repr k (v :: ('a, 'w::len word) stable_vec) fs"
  shows "sv_lookup k v (invalid_index k) = None"
  using sv_reprD(1,2) [OF assms]
  by (simp add: sv_lookup_def sv_is_valid_id_def slot_of_invalid)


subsection \<open>The operations on a well-formed vector\<close>

lemma set_eid_simps [simp]:
  "length (set_eid es i x) = length es"
  "i < length es \<Longrightarrow> set_eid es i x ! j = (if j = i then (es ! i)\<lparr>eid := x\<rparr> else es ! j)"
  by (auto simp: set_eid_def nth_list_update)

lemma set_data_simps [simp]:
  "length (set_data es i x) = length es"
  "i < length es \<Longrightarrow> set_data es i x ! j = (if j = i then (es ! i)\<lparr>data := x\<rparr> else es ! j)"
  by (auto simp: set_data_def nth_list_update)

lemma entry_upd [simp]: "(e :: ('a, 'w::len word) entry)\<lparr>data := a, eid := b\<rparr> = \<lparr>data = a, eid = b\<rparr>"
  by (cases e) simp

text \<open>One slot going from free to in use (or coming into being in use) adds one id to the map.\<close>

lemma sv_lookup_store:
  assumes v: "sv_repr k v fs" and v': "sv_repr k v' fs'"
    and f: "f < length (entries v')" "f < length (entries v) \<Longrightarrow> data (entries v ! f) = None"
      "entries v' ! f = \<lparr>data = Some x, eid = i\<rparr>"
    and others: "\<And>j. j \<noteq> f \<Longrightarrow> j < length (entries v') \<longleftrightarrow> j < length (entries v)"
      "\<And>j. j \<noteq> f \<Longrightarrow> j < length (entries v) \<Longrightarrow> entries v' ! j = entries v ! j"
  shows "sv_lookup k v i = None" "sv_lookup k v' = (sv_lookup k v)(i \<mapsto> x)"
proof -
  have si: "slot_of k i = f"
    using sv_reprD(6) [OF v' f(1)] f(3) by simp
  have old: "sv_lookup k v j = None" if "slot_of k j = f" for j
  proof (rule ccontr)
    assume "sv_lookup k v j \<noteq> None"
    then obtain y where "sv_lookup k v j = Some y" by auto
    then show False using that f(2) by (auto simp: sv_lookup_eq_Some [OF v])
  qed
  then show "sv_lookup k v i = None" using si by blast
  show "sv_lookup k v' = (sv_lookup k v)(i \<mapsto> x)"
  proof
    fix j
    show "sv_lookup k v' j = ((sv_lookup k v)(i \<mapsto> x)) j"
    proof (cases "slot_of k j = f")
      case True
      have "sv_lookup k v' j = (if j = i then Some x else None)"
        using True f by (auto simp: sv_lookup_def sv_is_valid_id_def)
      then show ?thesis using old [OF True] by simp
    next
      case False
      then have "sv_lookup k v' j = sv_lookup k v j"
        using others [of "slot_of k j"] by (auto simp: sv_lookup_def sv_is_valid_id_def Let_def)
      then show ?thesis using False si by auto
    qed
  qed
qed

text \<open>Creating a slot: the free list is empty.\<close>

lemma sv_emplace_fresh:
  fixes v :: "('a, 'w::len word) stable_vec" and x :: 'a
  assumes "sv_repr k v []" "length (entries v) < 2 ^ k - 1"
  defines "v' \<equiv> v\<lparr>entries := entries v @ [\<lparr>data = Some x, eid = of_nat (length (entries v))\<rparr>],
                 vsize := vsize v + 1\<rparr>"
  shows "sv_emplace k v x = Inr (of_nat (length (entries v)), v')" "sv_repr k v' []"
proof -
  let ?n = "length (entries v)"
  note r = sv_reprD [OF assms(1)]
  have n: "unat (of_nat ?n :: 'w word) = ?n" "slot_of k (of_nat ?n :: 'w word) = ?n"
    using r by (simp_all add: of_nat_small)
  have inner0: "inner_of k (0 :: 'w word) = 0" by (simp add: inner_of_def)
  have first: "first_free v = invalid_index k" using sv_repr_first [OF assms(1)] by simp
  show "sv_emplace k v x = Inr (of_nat ?n, v')"
    using r(9) first
    by (simp add: sv_emplace_def n inner0 v'_def set_eid_def set_data_def Let_def)
  have dead: "data (entries v ! i) \<noteq> None" if "i < ?n" for i using r(5) [of i] that by simp
  show "sv_repr k v' []"
    unfolding sv_repr_def
    using r assms(2) dead n by (auto simp: v'_def nth_append less_Suc_eq)
qed

text \<open>Using a free slot again: the front of the free list.\<close>

lemma sv_emplace_reuse:
  fixes v :: "('a, 'w::len word) stable_vec" and x :: 'a
  assumes "sv_repr k v (f # fs)"
  defines "i \<equiv> inner_of k (eid (entries v ! f)) OR of_nat f"
  defines "v' \<equiv> v\<lparr>entries := (entries v)[f := \<lparr>data = Some x, eid = i\<rparr>],
                 first_free := outer_of k (eid (entries v ! f)),
                 last_free := (if fs = [] then invalid_index k else last_free v),
                 vsize := vsize v + 1\<rparr>"
  shows "sv_emplace k v x = Inr (i, v')" "sv_repr k v' fs"
proof -
  note r = sv_reprD [OF assms(1)]
  have f: "f < length (entries v)" "f < 2 ^ k" "f \<notin> set fs" "data (entries v ! f) = None"
    using sv_repr_free_lt [OF assms(1), of f] r(4,5) by auto
  have uf: "unat (of_nat f :: 'w word) = f" "slot_of k (of_nat f :: 'w word) = f"
    using r(1) f by (simp_all add: of_nat_small)
  have si: "slot_of k i = f" using uf by (simp add: i_def)
  have link: "linked (next_free k (entries v)) (slot_of k (eid (entries v ! f))) fs (2 ^ k - 1)"
    using r(7) by (simp add: next_free_def)
  have nxt: "outer_of k (eid (entries v ! f)) = invalid_index k \<longleftrightarrow> fs = []"
  proof -
    have "slot_of k (eid (entries v ! f)) = 2 ^ k - 1 \<longleftrightarrow> fs = []"
      using linked_start [OF link] sv_repr_free_lt(2) [OF assms(1), of "hd fs"] by (cases fs) auto
    moreover have "slot_of k (invalid_index k :: 'w word) = 2 ^ k - 1"
      using r(1) by (rule slot_of_invalid)
    ultimately show ?thesis
      by (metis outer_of_invalid slot_of_eq_iff)
  qed
  have ne: "last_free v \<noteq> invalid_index k" "first_free v \<noteq> invalid_index k"
    using sv_repr_last_eq [OF assms(1)] sv_repr_first(2) [OF assms(1)] r(1)
      slot_lt_invalid [OF sv_repr_free_lt(2) [OF assms(1)]] by auto
  have first: "first_free v = of_nat f" using sv_repr_first(2) [OF assms(1)] by simp
  show "sv_emplace k v x = Inr (i, v')"
    using ne f uf nxt
    by (auto simp: sv_emplace_def first set_eid_def set_data_def v'_def i_def Let_def)
  have "linked (next_free k (entries v')) (slot_of k (first_free v')) fs (2 ^ k - 1)"
  proof -
    have "linked (next_free k (entries v')) (slot_of k (eid (entries v ! f))) fs (2 ^ k - 1) =
        linked (next_free k (entries v)) (slot_of k (eid (entries v ! f))) fs (2 ^ k - 1)"
      using f by (intro linked_cong) (auto simp: v'_def next_free_def nth_list_update)
    then show ?thesis using link by (simp add: v'_def)
  qed
  moreover have "vsize v' = of_nat (length (entries v) - length fs)"
  proof -
    have "length (f # fs) \<le> length (entries v)"
      using r(4,5) card_mono [of "{..<length (entries v)}" "set (f # fs)"]
      by (auto simp: distinct_card subset_eq)
    then show ?thesis using r(10)
      by (simp add: v'_def of_nat_diff flip: of_nat_Suc) (simp add: Suc_diff_le)
  qed
  moreover have "j \<in> set fs \<longleftrightarrow> j < length (entries v') \<and> data (entries v' ! j) = None" for j
    using r(5) [of j] f by (cases "j = f") (auto simp: v'_def)
  moreover have "slot_of k (eid (entries v' ! j)) = j"
    if "j < length (entries v')" "data (entries v' ! j) \<noteq> None" for j
    using that r(6) [of j] si f by (cases "j = f") (auto simp: v'_def)
  ultimately show "sv_repr k v' fs"
    unfolding sv_repr_def using r(1,2,4,9) by (auto simp: v'_def)
qed


text \<open>Erasing: the slot goes to the end of the free list with the next tag.\<close>

definition sv_erased :: "nat \<Rightarrow> ('a, 'w::len word) stable_vec \<Rightarrow> nat list \<Rightarrow> 'w word \<Rightarrow> ('a, 'w word) stable_vec" where
  "sv_erased k v fs i =
     (let f = slot_of k i; es = (entries v)[f := \<lparr>data = None, eid = next_inner k i OR outer_mask k\<rparr>] in
      v\<lparr>entries := (if fs = [] then es else
          set_eid es (last fs) (eid (es ! last fs) AND (inner_mask k OR of_nat f))),
        first_free := (if fs = [] then of_nat f else first_free v),
        last_free := of_nat f, vsize := vsize v - 1\<rparr>)"

lemma sv_live_slot:
  fixes v :: "('a, 'w::len word) stable_vec"
  assumes v: "sv_repr k v fs" and i: "sv_lookup k v i = Some x"
  shows "slot_of k i < length (entries v)" "entries v ! slot_of k i = \<lparr>data = Some x, eid = i\<rparr>" "slot_of k i \<notin> set fs"
    "outer_of k i = of_nat (slot_of k i)" "unat (of_nat (slot_of k i) :: 'w word) = slot_of k i"
    "slot_of k (of_nat (slot_of k i) :: 'w word) = slot_of k i" "inner_of k (of_nat (slot_of k i) :: 'w word) = 0"
proof -
  note r = sv_reprD [OF v]
  show f: "slot_of k i < length (entries v)" "entries v ! slot_of k i = \<lparr>data = Some x, eid = i\<rparr>" "slot_of k i \<notin> set fs"
    using i sv_lookup_eq_Some [OF v] r(5) [of "slot_of k i"] by auto
  have "slot_of k i < 2 ^ k" using r(3) f(1) by simp
  then show "unat (of_nat (slot_of k i) :: 'w word) = slot_of k i" "slot_of k (of_nat (slot_of k i) :: 'w word) = slot_of k i"
    "inner_of k (of_nat (slot_of k i) :: 'w word) = 0" using r(1) of_nat_small [of "slot_of k i" k, where 'w = 'w] by auto
  show "outer_of k i = of_nat (slot_of k i)" by (rule outer_of_eq_of_nat)
qed

lemma sv_live_last:
  fixes v :: "('a, 'w::len word) stable_vec"
  assumes v: "sv_repr k v fs" and i: "sv_lookup k v i = Some x"
  shows "fs \<noteq> [] \<Longrightarrow> last_free v = of_nat (last fs)" "fs \<noteq> [] \<Longrightarrow> unat (last_free v) = last fs"
    "fs \<noteq> [] \<Longrightarrow> last fs < length (entries v)" "fs \<noteq> [] \<Longrightarrow> last fs \<noteq> slot_of k i"
    "fs \<noteq> [] \<Longrightarrow> last_free v \<noteq> invalid_index k" "fs \<noteq> [] \<Longrightarrow> data (entries v ! last fs) = None"
  using sv_repr_last [OF v] sv_live_slot(2) [OF v i] by auto

lemma sv_erase_eq:
  fixes v :: "('a, 'w::len word) stable_vec"
  assumes v: "sv_repr k v fs" and i: "sv_lookup k v i = Some x"
  shows "sv_erase k v i = Inr (sv_erased k v fs i)"
proof -
  note f = sv_live_slot(1,2) [OF v i] and out = sv_live_slot(4) [OF v i]
  let ?f = "slot_of k i" and ?es = "(entries v)[slot_of k i := \<lparr>data = None, eid = next_inner k i OR outer_mask k\<rparr>]"
  have uf: "unat (outer_of k i) = ?f" by (simp add: slot_of_def)
  have upd: "set_eid (set_data (entries v) ?f None) ?f (next_inner k i OR outer_mask k) = ?es"
    using f(1) by (simp add: set_eid_def set_data_def)
  show ?thesis
  proof (cases "fs = []")
    case True
    have "first_free v = invalid_index k" "last_free v = invalid_index k"
      using True sv_repr_first(2) [OF v] sv_reprD(9) [OF v] by auto
    then show ?thesis
      unfolding sv_erase_def Let_def uf
      by (simp add: f f(1) [THEN less_imp_le] upd out) (simp add: sv_erased_def Let_def True)
  next
    case False
    note l = sv_live_last [OF v i False]
    have "unat (last_free v) < length ?es" using l by simp
    then show ?thesis
      unfolding sv_erase_def Let_def uf
      by (simp add: f f(1) [THEN less_imp_le] upd l(2,5) out) (simp add: sv_erased_def Let_def False)
  qed
qed

lemma sv_erased_at:
  fixes v :: "('a, 'w::len word) stable_vec"
  assumes v: "sv_repr k v fs" and i: "sv_lookup k v i = Some x"
  shows "length (entries (sv_erased k v fs i)) = length (entries v)"
    "j < length (entries v) \<Longrightarrow> entries (sv_erased k v fs i) ! j =
      (if j = slot_of k i then \<lparr>data = None, eid = next_inner k i OR outer_mask k\<rparr>
       else if fs \<noteq> [] \<and> j = last fs then (entries v ! j)\<lparr>eid := eid (entries v ! j) AND (inner_mask k OR of_nat (slot_of k i))\<rparr>
       else entries v ! j)"
  using sv_live_slot(1) [OF v i] sv_live_last [OF v i] by (auto simp: sv_erased_def Let_def nth_list_update)

lemma sv_erased_linked:
  fixes v :: "('a, 'w::len word) stable_vec"
  assumes v: "sv_repr k v fs" and i: "sv_lookup k v i = Some x"
  shows "linked (next_free k (entries (sv_erased k v fs i))) (slot_of k (first_free (sv_erased k v fs i)))
    (fs @ [slot_of k i]) (2 ^ k - 1)"
proof -
  let ?v = "sv_erased k v fs i" and ?f = "slot_of k i"
  note r = sv_reprD [OF v] and at = sv_erased_at(2) [OF v i] and f = sv_live_slot [OF v i] and last = sv_live_last [OF v i]
  have slot_f: "next_free k (entries ?v) ?f = 2 ^ k - 1"
    using r(1) by (simp add: next_free_def at f(1) id_simps outer_mask_mask slot_of_invalid flip: invalid_index_mask)
  show ?thesis
  proof (cases "fs = []")
    case True
    then show ?thesis using slot_f f(6) by (simp add: sv_erased_def Let_def)
  next
    case False
    from r(7) False have "next_free k (entries v) (last fs) = 2 ^ k - 1"
      by (metis append_butlast_last_id linked_snoc)
    then have "outer_of k (eid (entries v ! last fs)) = invalid_index k"
      using r(1) by (metis next_free_def outer_of_eq_of_nat of_nat_invalid)
    then have "next_free k (entries ?v) (last fs) = ?f"
      using False last f(5,6) by (simp add: next_free_def at slot_of_def outer_of_relink)
    moreover have "next_free k (entries ?v) j = next_free k (entries v) j" if "j \<in> set fs" "j \<noteq> last fs" for j
      using that f(3) sv_repr_free_lt [OF v that(1)] by (auto simp: next_free_def at)
    ultimately have "linked (next_free k (entries ?v)) (slot_of k (first_free v)) fs ?f"
      using linked_relink_last [OF r(4) False r(7)] by blast
    moreover have "first_free ?v = first_free v" using False by (simp add: sv_erased_def Let_def)
    ultimately show ?thesis using slot_f by (simp add: linked_snoc)
  qed
qed

lemma sv_erase_live:
  fixes v :: "('a, 'w::len word) stable_vec"
  assumes v: "sv_repr k v fs" and i: "sv_lookup k v i = Some x"
  shows "sv_erase k v i = Inr (sv_erased k v fs i)" "sv_repr k (sv_erased k v fs i) (fs @ [slot_of k i])"
    "length (entries (sv_erased k v fs i)) = length (entries v)"
    "\<And>s. s < length (entries v) \<Longrightarrow> data (entries (sv_erased k v fs i) ! s) = (if s = slot_of k i then None else data (entries v ! s))"
    "\<And>s. s < length (entries v) \<Longrightarrow> s \<noteq> slot_of k i \<Longrightarrow> data (entries v ! s) \<noteq> None \<Longrightarrow>
      entries (sv_erased k v fs i) ! s = entries v ! s"
proof -
  let ?v = "sv_erased k v fs i" and ?f = "slot_of k i"
  note r = sv_reprD [OF v] and at = sv_erased_at(2) [OF v i] and f = sv_live_slot [OF v i]
  show "sv_erase k v i = Inr ?v" by (rule sv_erase_eq [OF v i])
  show len: "length (entries ?v) = length (entries v)" by (rule sv_erased_at [OF v i])
  show data': "data (entries ?v ! s) = (if s = ?f then None else data (entries v ! s))" if "s < length (entries v)" for s
    using that by (simp add: at)
  show keep: "entries ?v ! s = entries v ! s" if "s < length (entries v)" "s \<noteq> ?f" "data (entries v ! s) \<noteq> None" for s
    using that sv_live_last(6) [OF v i] by (auto simp: at)
  have "length (?f # fs) \<le> length (entries v)"
    using r(4,5) f(1-3) card_mono [of "{..<length (entries v)}" "set (?f # fs)"] by (auto simp: distinct_card subset_eq)
  then have "vsize ?v = of_nat (length (entries v) - length (fs @ [?f]))"
    using r(10) by (simp add: sv_erased_def Let_def of_nat_diff algebra_simps)
  moreover have "j \<in> set (fs @ [?f]) \<longleftrightarrow> j < length (entries ?v) \<and> data (entries ?v ! j) = None" for j
    using r(5) [of j] f(1) data' [of j] len by auto
  moreover have "slot_of k (eid (entries ?v ! j)) = j" if "j < length (entries ?v)" "data (entries ?v ! j) \<noteq> None" for j
  proof -
    have "j < length (entries v)" "j \<noteq> ?f" "data (entries v ! j) \<noteq> None"
      using that data' [of j] len by (auto split: if_splits)
    then show ?thesis using keep r(6) by metis
  qed
  moreover have "inner_of k (first_free ?v) = 0" using r(8) f(7) by (simp add: sv_erased_def Let_def)
  moreover have "last_free ?v = of_nat (last (fs @ [?f]))" by (simp add: sv_erased_def Let_def)
  moreover have "distinct (fs @ [?f])" using r(4) f(3) by simp
  ultimately show "sv_repr k ?v (fs @ [?f])"
    unfolding sv_repr_def using r(1,2) sv_erased_linked [OF v i] len by auto
qed

lemma sv_lookup_erase:
  fixes v :: "('a, 'w::len word) stable_vec"
  assumes v: "sv_repr k v fs" and i: "sv_lookup k v i = Some x" and e: "sv_erase k v i = Inr v'"
  shows "sv_lookup k v' = (sv_lookup k v)(i := None)"
proof
  fix j
  note er = sv_erase_live [OF v i]
  have v': "sv_repr k v' (fs @ [slot_of k i])"
    and len: "length (entries v') = length (entries v)"
    and at: "\<And>s. s < length (entries v) \<Longrightarrow>
        data (entries v' ! s) = (if s = slot_of k i then None else data (entries v ! s))"
      "\<And>s. s < length (entries v) \<Longrightarrow> s \<noteq> slot_of k i \<Longrightarrow> data (entries v ! s) \<noteq> None \<Longrightarrow>
        entries v' ! s = entries v ! s"
    using er(2-5) er(1) [unfolded e] by (simp_all only: sum.inject)
  have si: "slot_of k i < length (entries v)" "eid (entries v ! slot_of k i) = i"
    using i sv_lookup_eq_Some [OF v] by auto
  show "sv_lookup k v' j = ((sv_lookup k v)(i := None)) j"
  proof (cases "slot_of k j = slot_of k i")
    case True
    then have "sv_lookup k v' j = None" "j \<noteq> i \<Longrightarrow> sv_lookup k v j = None"
      using at si by (auto simp: sv_lookup_eq_None [OF v'] sv_lookup_eq_None [OF v]
          sv_valid_live [OF v'] sv_valid_live [OF v] len)
    then show ?thesis by simp
  next
    case False
    show ?thesis
    proof (cases "slot_of k j < length (entries v) \<and> data (entries v ! slot_of k j) \<noteq> None")
      case True
      then have "entries v' ! slot_of k j = entries v ! slot_of k j" using at(2) False by blast
      then have "sv_lookup k v' j = sv_lookup k v j"
        by (simp add: sv_lookup_def sv_is_valid_id_def len)
      then show ?thesis using False by auto
    next
      case F: False
      then have "sv_lookup k v' j = None" "sv_lookup k v j = None"
        using at(1) [of "slot_of k j"] False
        by (auto simp: sv_lookup_eq_None [OF v'] sv_lookup_eq_None [OF v]
            sv_valid_live [OF v'] sv_valid_live [OF v] len)
      then show ?thesis by simp
    qed
  qed
qed

lemma sv_get_lookup:
  assumes "sv_repr k v fs"
  shows "sv_get k v i = (case sv_lookup k v i of Some x \<Rightarrow> Inr x
    | None \<Rightarrow> Inl (if slot_of k i < length (entries v) then Check_failed else Dcheck_failed))"
  using sv_valid_live [OF assms, of i] sv_is_valid_id_def [of k v i]
  by (auto simp: sv_get_def sv_lookup_def require_def fetch_def Let_def split: option.splits)


subsection \<open>The number of objects\<close>

lemma sv_dom_lookup:
  assumes "sv_repr k v fs"
  shows "dom (sv_lookup k v) =
    (\<lambda>s. eid (entries v ! s)) ` {s. s < length (entries v) \<and> data (entries v ! s) \<noteq> None}"
proof -
  note r = sv_reprD [OF assms]
  have "sv_lookup k v i \<noteq> None \<longleftrightarrow>
      (\<exists>s \<in> {s. s < length (entries v) \<and> data (entries v ! s) \<noteq> None}. i = eid (entries v ! s))" for i
    using r(6) sv_valid_live [OF assms, of i] by (auto simp: sv_lookup_eq_None [OF assms])
  then show ?thesis by (simp only: dom_def image_def)
qed

lemma sv_card_lookup:
  assumes "sv_repr k v fs"
  shows "finite (dom (sv_lookup k v))"
    "card (dom (sv_lookup k v)) = length (entries v) - length fs"
    "length fs \<le> length (entries v)"
proof -
  note r = sv_reprD [OF assms]
  let ?live = "{s. s < length (entries v) \<and> data (entries v ! s) \<noteq> None}"
  have "inj_on (\<lambda>s. eid (entries v ! s)) ?live"
    by (rule inj_on_inverseI [where g = "slot_of k"]) (use r(6) in auto)
  then have "card (dom (sv_lookup k v)) = card ?live"
    by (simp add: sv_dom_lookup [OF assms] card_image)
  also have "?live = {..<length (entries v)} - set fs"
  proof (rule set_eqI)
    fix s
    show "s \<in> ?live \<longleftrightarrow> s \<in> {..<length (entries v)} - set fs" using r(5) [of s] by auto
  qed
  also have "card \<dots> = length (entries v) - length fs"
    using r(4,5) by (subst card_Diff_subset) (auto simp: distinct_card)
  finally show "card (dom (sv_lookup k v)) = length (entries v) - length fs" .
  show "finite (dom (sv_lookup k v))" by (simp add: sv_dom_lookup [OF assms])
  show "length fs \<le> length (entries v)"
    using r(4,5) card_mono [of "{..<length (entries v)}" "set fs"]
    by (auto simp: distinct_card subset_eq)
qed

lemma sv_vsize:
  assumes "sv_inv k v"
  shows "unat (vsize v) = card (dom (sv_lookup k v))"
proof -
  from assms obtain fs where fs: "sv_repr k v fs" by (auto simp: sv_inv_def)
  note r = sv_reprD [OF fs]
  have "length (entries v) - length fs < 2 ^ k" using r(3) by simp
  then show ?thesis using r(1,10) by (simp add: sv_card_lookup(2) [OF fs] of_nat_small)
qed

subsection \<open>Reserving slots\<close>

lemma foldl_set_eid:
  assumes "b \<le> length es"
  shows "length (foldl (\<lambda>es i. set_eid es i (g i)) es [a..<b]) = length es"
    "foldl (\<lambda>es i. set_eid es i (g i)) es [a..<b] ! j =
      (if a \<le> j \<and> j < b then (es ! j)\<lparr>eid := g j\<rparr> else es ! j)"
proof -
  have "length (foldl (\<lambda>es i. set_eid es i (g i)) es [a..<b]) = length es \<and>
    foldl (\<lambda>es i. set_eid es i (g i)) es [a..<b] ! j =
      (if a \<le> j \<and> j < b then (es ! j)\<lparr>eid := g j\<rparr> else es ! j)"
    using assms by (induction b arbitrary: j) (auto simp: less_Suc_eq)
  then show "length (foldl (\<lambda>es i. set_eid es i (g i)) es [a..<b]) = length es"
    "foldl (\<lambda>es i. set_eid es i (g i)) es [a..<b] ! j =
      (if a \<le> j \<and> j < b then (es ! j)\<lparr>eid := g j\<rparr> else es ! j)" by auto
qed

lemma sv_reserve_grow:
  fixes v :: "('a, 'w::len word) stable_vec"
  assumes v: "sv_repr k v fs" and n: "unat n \<le> 2 ^ k - 1" "length (entries v) < unat n"
  obtains v' where "sv_reserve k v n = Inr v'" "length (entries v') = unat n"
    "\<And>j. j < length (entries v) \<Longrightarrow> entries v' ! j = entries v ! j"
    "\<And>j. length (entries v) \<le> j \<Longrightarrow> j < unat n \<Longrightarrow> data (entries v' ! j) = None"
    "\<And>j. length (entries v) \<le> j \<Longrightarrow> j < unat n \<Longrightarrow>
       eid (entries v' ! j) = (if Suc j = unat n then first_free v else of_nat (Suc j))"
    "first_free v' = of_nat (length (entries v))"
    "last_free v' = (if fs = [] then of_nat (unat n - 1) else last_free v)" "vsize v' = vsize v"
proof -
  let ?o = "length (entries v)" and ?n = "unat n"
  let ?es = "entries v @ replicate (?n - ?o) new_entry"
  obtain es' where es': "es' = foldl (\<lambda>es i. set_eid es i (of_nat (i + 1))) ?es [?o..<?n - 1]" by blast
  let ?v' = "v\<lparr>entries := set_eid es' (?n - 1) (first_free v), first_free := of_nat ?o,
        last_free := (if last_free v = invalid_index k then n - 1 else last_free v)\<rparr>"
  have k: "k < LENGTH('w)" using sv_reprD(1) [OF v] .
  have le: "n \<le> max_size k" using n k by (simp add: word_le_nat_alt unat_mask_lt)
  have eq: "sv_reserve k v n = Inr ?v'"
    unfolding sv_reserve_def Let_def es' using n le by simp
  have len: "length es' = ?n" "?n - 1 < length es'"
    unfolding es' using n by (simp_all add: foldl_set_eid del: of_nat_add)
  have at: "es' ! j = (if ?o \<le> j \<and> j < ?n - 1 then (?es ! j)\<lparr>eid := of_nat (j + 1)\<rparr> else ?es ! j)" for j
    unfolding es' using n by (intro foldl_set_eid) simp
  have last: "n - 1 = of_nat (?n - 1)" using n by (simp add: of_nat_diff)
  show ?thesis
  proof (rule that [OF eq])
    show "length (entries ?v') = ?n" using len(1) by simp
    show "last_free ?v' = (if fs = [] then of_nat (?n - 1) else last_free v)"
      using last sv_repr_last_eq [OF v] by simp
    fix j
    show "entries ?v' ! j = entries v ! j" if "j < ?o"
      using that n len(2) by (simp add: at nth_append)
    show "data (entries ?v' ! j) = None" if "?o \<le> j" "j < ?n"
      using that n len(2) by (auto simp: at nth_append)
    show "eid (entries ?v' ! j) = (if Suc j = ?n then first_free v else of_nat (Suc j))"
      if "?o \<le> j" "j < ?n"
      using that n len(2) by (auto simp: at nth_append)
  qed simp_all
qed

lemma sv_reserve_ok:
  fixes v :: "('a, 'w::len word) stable_vec"
  assumes v: "sv_repr k v fs" and n: "n \<le> max_size k"
  shows "\<exists>v'. sv_reserve k v n = Inr v' \<and> sv_repr k v' ([length (entries v)..<unat n] @ fs) \<and>
    sv_lookup k v' = sv_lookup k v \<and> length (entries v') = max (length (entries v)) (unat n) \<and>
    (\<forall>j < length (entries v). entries v' ! j = entries v ! j)"
proof (cases "length (entries v) < unat n")
  case False
  with n show ?thesis by (auto simp: sv_reserve_def v max_def)
next
  case True
  note r = sv_reprD [OF v]
  let ?o = "length (entries v)" and ?n = "unat n"
  have n': "?n \<le> 2 ^ k - 1" using n r(1) by (simp add: word_le_nat_alt unat_mask_lt)
  then have n'': "?n < 2 ^ k" by (rule order_le_less_trans) simp
  obtain v' where eq: "sv_reserve k v n = Inr v'" and len: "length (entries v') = ?n"
    and old: "\<And>j. j < ?o \<Longrightarrow> entries v' ! j = entries v ! j"
    and new: "\<And>j. ?o \<le> j \<Longrightarrow> j < ?n \<Longrightarrow> data (entries v' ! j) = None"
      "\<And>j. ?o \<le> j \<Longrightarrow> j < ?n \<Longrightarrow>
        eid (entries v' ! j) = (if Suc j = ?n then first_free v else of_nat (Suc j))"
    and ends: "first_free v' = of_nat ?o"
      "last_free v' = (if fs = [] then of_nat (?n - 1) else last_free v)" "vsize v' = vsize v"
    using sv_reserve_grow [OF v n' True] by blast
  let ?fs = "[?o..<?n] @ fs"
  have free: "i \<in> set ?fs \<longleftrightarrow> i < length (entries v') \<and> data (entries v' ! i) = None" for i
    using r(5) [of i] old [of i] new(1) [of i] len True by (cases "i < ?o") auto
  have "linked (next_free k (entries v')) (slot_of k (first_free v)) fs (2 ^ k - 1)"
  proof -
    have "linked (next_free k (entries v')) (slot_of k (first_free v)) fs (2 ^ k - 1) =
        linked (next_free k (entries v)) (slot_of k (first_free v)) fs (2 ^ k - 1)"
      using r(5) old by (intro linked_cong) (simp add: next_free_def)
    then show ?thesis using r(7) by simp
  qed
  moreover have "linked (next_free k (entries v')) ?o [?o..<?n] (slot_of k (first_free v))"
  proof -
    have "next_free k (entries v') i = (if Suc i = ?n then slot_of k (first_free v) else Suc i)"
      if "?o \<le> i" "i < ?n" for i
      using that r(1) n'' by (simp add: next_free_def new(2) del: of_nat_Suc)
    then show ?thesis using linked_upt [of ?o ?n "next_free k (entries v')"] True by auto
  qed
  moreover have "slot_of k (first_free v') = ?o" "inner_of k (first_free v') = 0"
    using ends(1) r(1) True n'' by auto
  ultimately have link: "linked (next_free k (entries v')) (slot_of k (first_free v')) ?fs (2 ^ k - 1)"
    by (auto simp: linked_append)
  have live: "slot_of k (eid (entries v' ! i)) = i"
    if "i < length (entries v')" "data (entries v' ! i) \<noteq> None" for i
    using that new(1) [of i] old [of i] r(6) [of i] len by (cases "i < ?o") auto
  have "distinct ?fs" "last_free v' = (if ?fs = [] then invalid_index k else of_nat (last ?fs))"
    using r(4,9) sv_repr_free_lt(1) [OF v] ends(2) True by (auto simp: not_less [symmetric])
  moreover have "vsize v' = of_nat (length (entries v') - length ?fs)"
    using r(10) ends(3) len True sv_card_lookup(3) [OF v] by simp
  ultimately have v': "sv_repr k v' ?fs"
    unfolding sv_repr_def using r(1) n' len free live link \<open>inner_of k (first_free v') = 0\<close> by auto
  have "sv_lookup k v' i = sv_lookup k v i" for i
  proof (cases "slot_of k i < ?o")
    case True
    then show ?thesis using old len \<open>?o < ?n\<close> by (simp add: sv_lookup_def sv_is_valid_id_def)
  next
    case False
    then have "sv_lookup k v' i = None" "sv_lookup k v i = None"
      using new(1) [of "slot_of k i"] len
      by (auto simp: sv_lookup_eq_None [OF v'] sv_valid_live [OF v'] sv_lookup_eq_None [OF v]
          sv_valid_live [OF v])
    then show ?thesis by simp
  qed
  then show ?thesis using eq v' len old True by (auto simp: fun_eq_iff max_def)
qed


subsection \<open>The contract of the interface\<close>

lemma sv_repr_empty: "k < LENGTH('w) \<Longrightarrow> sv_repr k (sv_empty k :: ('a, 'w::len word) stable_vec) []"
  by (simp add: sv_repr_def sv_empty_def slot_of_invalid)

lemma sv_emplace_repr:
  fixes v :: "('a, 'w::len word) stable_vec"
  assumes v: "sv_repr k v fs" and room: "length (entries v) - length fs < 2 ^ k - 1"
  obtains i v' where "sv_emplace k v x = Inr (i, v')" "sv_repr k v' (tl fs)"
    "sv_lookup k v i = None" "sv_lookup k v' = (sv_lookup k v)(i \<mapsto> x)"
    "slot_of k i = (case fs of [] \<Rightarrow> length (entries v) | f # _ \<Rightarrow> f)"
    "length (entries v) \<le> length (entries v')"
    "\<And>s. s < length (entries v) \<Longrightarrow> inner_of k (eid (entries v' ! s)) = inner_of k (eid (entries v ! s))"
proof (cases fs)
  case Nil
  note r = sv_reprD [OF v]
  have n: "length (entries v) < 2 ^ k - 1" using room Nil by simp
  note e = sv_emplace_fresh [OF v [unfolded Nil] n, of x]
  have l: "sv_lookup k v (of_nat (length (entries v))) = None"
      "sv_lookup k (v\<lparr>entries := entries v @ [\<lparr>data = Some x, eid = of_nat (length (entries v))\<rparr>],
        vsize := vsize v + 1\<rparr>) = (sv_lookup k v)(of_nat (length (entries v)) \<mapsto> x)"
    by (rule sv_lookup_store [OF v e(2), where f = "length (entries v)"];
        simp add: nth_append less_Suc_eq)+
  show ?thesis
    by (rule that [OF e(1)]) (use e(2) Nil r(1,3) l in \<open>simp_all add: nth_append\<close>)
next
  case (Cons f fs')
  note r = sv_reprD [OF v]
  note e = sv_emplace_reuse [OF v [unfolded Cons], of x]
  have f: "f < length (entries v)" "data (entries v ! f) = None" "f < 2 ^ k"
    using r(5) [of f] sv_repr_free_lt(3) [OF v] Cons by auto
  have slot: "slot_of k (of_nat f :: 'w word) = f" "inner_of k (of_nat f :: 'w word) = 0"
    using f(3) r(1) by simp_all
  note l = sv_lookup_store [OF v e(2), where f = f and x = x
      and i = "inner_of k (eid (entries v ! f)) OR of_nat f"]
  show ?thesis
    by (rule that [OF e(1)]) (use e(2) Cons slot f l in \<open>auto simp: nth_list_update id_simps\<close>)
qed

lemma sv_inv_room:
  assumes "sv_repr k v fs" "card (dom (sv_lookup k v)) < 2 ^ k - 1"
  shows "length (entries v) - length fs < 2 ^ k - 1"
  using assms sv_card_lookup [OF assms(1)] by simp

lemma sv_erase_dead:
  assumes "sv_repr k v fs" "sv_lookup k v i = None"
  shows "\<exists>e. sv_erase k v i = Inl e"
  using assms(2) sv_is_valid_id_def [of k v i]
  unfolding sv_lookup_eq_None [OF assms(1)] sv_erase_def Let_def slot_of_def [symmetric]
  by (auto simp: require_def fetch_def)

lemma sv_put_repr:
  fixes v :: "('a, 'w::len word) stable_vec"
  assumes v: "sv_repr k v fs" and i: "sv_lookup k v i = Some x"
  obtains v' where "sv_put k v i y = Inr v'" "sv_repr k v' fs"
    "sv_lookup k v' = (sv_lookup k v)(i \<mapsto> y)"
proof -
  let ?v' = "v\<lparr>entries := set_data (entries v) (slot_of k i) (Some y)\<rparr>"
  note r = sv_reprD [OF v]
  have s: "slot_of k i < length (entries v)" "entries v ! slot_of k i = \<lparr>data = Some x, eid = i\<rparr>"
    using i by (auto simp: sv_lookup_eq_Some [OF v])
  have ids: "eid (entries ?v' ! j) = eid (entries v ! j)"
    "data (entries ?v' ! j) = None \<longleftrightarrow> data (entries v ! j) = None"
    "data (entries ?v' ! j) = (if j = slot_of k i then Some y else data (entries v ! j))" for j
    using s by auto
  have "linked (next_free k (entries ?v')) (slot_of k (first_free v)) fs (2 ^ k - 1)"
  proof -
    have "linked (next_free k (entries ?v')) (slot_of k (first_free v)) fs (2 ^ k - 1) =
        linked (next_free k (entries v)) (slot_of k (first_free v)) fs (2 ^ k - 1)"
      using ids by (intro linked_cong) (simp add: next_free_def)
    then show ?thesis using r(7) by simp
  qed
  moreover have "j \<in> set fs \<longleftrightarrow> j < length (entries ?v') \<and> data (entries ?v' ! j) = None" for j
    using r(5) [of j] ids(2) [of j] by simp
  moreover have "slot_of k (eid (entries ?v' ! j)) = j"
    if "j < length (entries ?v')" "data (entries ?v' ! j) \<noteq> None" for j
  proof -
    have "j < length (entries v)" using that(1) by simp
    moreover have "data (entries v ! j) \<noteq> None" using that(2) unfolding ids(2) .
    ultimately show ?thesis using r(6) ids(1) by simp
  qed
  ultimately have repr: "sv_repr k ?v' fs"
    unfolding sv_repr_def using r(1,2,4,8,9,10) by simp
  have "sv_lookup k ?v' j = ((sv_lookup k v)(i \<mapsto> y)) j" for j
  proof -
    have "sv_is_valid_id k ?v' j \<longleftrightarrow> sv_is_valid_id k v j"
      using ids by (simp add: sv_is_valid_id_def)
    then show ?thesis
      using ids(3) [of "slot_of k j"] s by (auto simp: sv_lookup_def sv_is_valid_id_def)
  qed
  moreover have "sv_put k v i y = Inr ?v'"
    using i by (simp add: sv_put_def sv_get_lookup [OF v])
  ultimately show ?thesis using that [OF _ repr] by blast
qed

interpretation sv: mutable_id_map "sv_inv k" "sv_lookup k" "invalid_index k" "2 ^ k - 1"
    "sv_emplace k" "sv_erase k" "sv_get k" "sv_is_valid_id k" "sv_put k"
  for k :: nat
proof unfold_locales
  fix v :: "('a, 'b::len word) stable_vec" and i x y
  assume "sv_inv k v"
  then obtain fs where fs: "sv_repr k v fs" by (auto simp: sv_inv_def)
  show "finite (dom (sv_lookup k v))" using fs by (rule sv_card_lookup)
  show "sv_lookup k v (invalid_index k) = None" using fs by (rule sv_lookup_invalid)
  show "\<exists>i v'. sv_emplace k v x = Inr (i, v') \<and> sv_inv k v' \<and> sv_lookup k v i = None \<and>
      sv_lookup k v' = (sv_lookup k v)(i \<mapsto> x)" if "card (dom (sv_lookup k v)) < 2 ^ k - 1"
    using sv_emplace_repr [OF fs sv_inv_room [OF fs that], of x] unfolding sv_inv_def by metis
  show "\<exists>v'. sv_erase k v i = Inr v' \<and> sv_inv k v' \<and> sv_lookup k v' = (sv_lookup k v)(i := None)"
    if "sv_lookup k v i = Some x"
    using sv_erase_live(1,2) [OF fs that] sv_lookup_erase [OF fs that] unfolding sv_inv_def by metis
  show "sv_get k v i = Inr x" if "sv_lookup k v i = Some x"
    using that by (simp add: sv_get_lookup [OF fs])
  show "\<exists>e. sv_get k v i = Inl e" if "sv_lookup k v i = None"
    using that by (simp add: sv_get_lookup [OF fs])
  show "\<exists>e. sv_erase k v i = Inl e" if "sv_lookup k v i = None"
    using fs that by (rule sv_erase_dead)
  show "sv_is_valid_id k v i \<longleftrightarrow> sv_lookup k v i \<noteq> None"
    by (simp add: sv_lookup_eq_None [OF fs])
  show "\<exists>v'. sv_put k v i y = Inr v' \<and> sv_inv k v' \<and> sv_lookup k v' = (sv_lookup k v)(i \<mapsto> y)"
    if "sv_lookup k v i = Some x"
    using sv_put_repr [OF fs that, of y] unfolding sv_inv_def by metis
qed


subsection \<open>The destructor\<close>

lemma sv_destroy_from_map:
  assumes "\<And>j. j < length es \<Longrightarrow> slot_of k (eid (es ! j)) = i + j \<longleftrightarrow> data (es ! j) \<noteq> None"
  shows "sv_destroy_from k es i n =
    Inr (List.map_filter data es, n - of_nat (length (List.map_filter data es)))"
  using assms
proof (induction es arbitrary: i n)
  case Nil
  then show ?case by (simp add: List.map_filter_simps)
next
  case (Cons e es)
  have "slot_of k (eid (es ! j)) = Suc i + j \<longleftrightarrow> data (es ! j) \<noteq> None" if "j < length es" for j
    using Cons.prems [of "Suc j"] that by simp
  note IH = Cons.IH [OF this]
  have "slot_of k (eid e) = i \<longleftrightarrow> data e \<noteq> None" using Cons.prems [of 0] by simp
  then show ?case by (auto simp: IH List.map_filter_simps algebra_simps split: option.split)
qed

lemma map_filter_nth:
  "mset (List.map_filter g xs) = image_mset (\<lambda>i. the (g (xs ! i))) (mset_set {i. i < length xs \<and> g (xs ! i) \<noteq> None})"
proof (induction xs rule: rev_induct)
  case Nil
  then show ?case by (simp add: List.map_filter_simps)
next
  case (snoc x xs)
  let ?S = "{i. i < length xs \<and> g (xs ! i) \<noteq> None}"
  let ?T = "{i. i < length (xs @ [x]) \<and> g ((xs @ [x]) ! i) \<noteq> None}"
  have T: "?T = (if g x = None then ?S else insert (length xs) ?S)"
    by (auto simp: nth_append less_Suc_eq)
  have "image_mset (\<lambda>i. the (g ((xs @ [x]) ! i))) (mset_set ?S) =
      image_mset (\<lambda>i. the (g (xs ! i))) (mset_set ?S)"
    by (rule image_mset_cong) (simp add: nth_append)
  then show ?case unfolding T using snoc.IH
    by (auto simp: List.map_filter_def)
qed

lemma sv_live_values:
  assumes "sv_repr k v fs"
  shows "mset (List.map_filter data (entries v)) =
    image_mset (\<lambda>i. the (sv_lookup k v i)) (mset_set (dom (sv_lookup k v)))"
proof -
  note r = sv_reprD [OF assms]
  let ?live = "{s. s < length (entries v) \<and> data (entries v ! s) \<noteq> None}"
  have inj: "inj_on (\<lambda>s. eid (entries v ! s)) ?live"
    by (rule inj_on_inverseI [where g = "slot_of k"]) (use r(6) in auto)
  have at: "sv_lookup k v (eid (entries v ! s)) = data (entries v ! s)" if "s \<in> ?live" for s
    using that r(6) [of s] by (auto simp: sv_lookup_def sv_is_valid_id_def)
  have "mset (List.map_filter data (entries v)) =
      image_mset (\<lambda>s. the (sv_lookup k v (eid (entries v ! s)))) (mset_set ?live)"
    unfolding map_filter_nth by (rule image_mset_cong) (use at in simp)
  also have "\<dots> = image_mset (\<lambda>i. the (sv_lookup k v i)) (mset_set ((\<lambda>s. eid (entries v ! s)) ` ?live))"
    unfolding image_mset_mset_set [OF inj, symmetric] multiset.map_comp comp_def ..
  finally show ?thesis by (simp only: sv_dom_lookup [OF assms])
qed

subsection \<open>Sequences of calls\<close>

text \<open>
  A client's sequence of calls. The code does not check \<open>MAX_SIZE\<close> when it creates a slot,
  so the client must not store into a full vector.
\<close>

datatype ('a, 'i) sv_op = Emplace 'a | Erase 'i | Reserve 'i

definition sv_full :: "nat \<Rightarrow> ('a, 'w::len word) stable_vec \<Rightarrow> bool" where
  "sv_full k v \<longleftrightarrow> last_free v = invalid_index k \<and> length (entries v) \<ge> unat (max_size k :: 'w word)"

fun sv_run :: "nat \<Rightarrow> ('a, 'w::len word) stable_vec \<Rightarrow> ('a, 'w word) sv_op list \<Rightarrow> ('a, 'w word) stable_vec res" where
  "sv_run k v [] = Inr v"
| "sv_run k v (Emplace x # ops) =
     require (\<not> sv_full k v) Out_of_bounds (bind_res (sv_emplace k v x) (\<lambda>(i, v'). sv_run k v' ops))"
| "sv_run k v (Erase i # ops) = bind_res (sv_erase k v i) (\<lambda>v'. sv_run k v' ops)"
| "sv_run k v (Reserve n # ops) = bind_res (sv_reserve k v n) (\<lambda>v'. sv_run k v' ops)"

fun erases :: "('a, 'i) sv_op list \<Rightarrow> nat" where
  "erases [] = 0"
| "erases (Erase i # ops) = Suc (erases ops)"
| "erases (op # ops) = erases ops"

text \<open>What one call does to the tag of a slot that already exists.\<close>

lemma sv_emplace_run:
  fixes v :: "('a, 'w::len word) stable_vec"
  assumes v: "sv_inv k v" and "\<not> sv_full k v" "sv_emplace k v x = Inr (i, v')"
  shows "sv_inv k v'" "length (entries v) \<le> length (entries v')"
    "s < length (entries v) \<Longrightarrow> inner_of k (eid (entries v' ! s)) = inner_of k (eid (entries v ! s))"
proof -
  from v obtain fs where fs: "sv_repr k v fs" by (auto simp: sv_inv_def)
  note r = sv_reprD [OF fs]
  have "length (entries v) - length fs < 2 ^ k - 1"
  proof (cases fs)
    case Nil
    then show ?thesis using assms(2) r(1,9) by (simp add: sv_full_def unat_mask_lt)
  next
    case (Cons f fs')
    then show ?thesis using r(2) sv_card_lookup(3) [OF fs] by simp
  qed
  from sv_emplace_repr [OF fs this, of x] assms(3)
  show "sv_inv k v'" "length (entries v) \<le> length (entries v')"
    "s < length (entries v) \<Longrightarrow> inner_of k (eid (entries v' ! s)) = inner_of k (eid (entries v ! s))"
    unfolding sv_inv_def by (metis Pair_inject sum.inject(2))+
qed

lemma sv_erase_run:
  fixes v :: "('a, 'w::len word) stable_vec"
  assumes v: "sv_inv k v" and e: "sv_erase k v i = Inr v'"
  shows "sv_inv k v'" "length (entries v') = length (entries v)"
    "s < length (entries v) \<Longrightarrow> inner_of k (eid (entries v' ! s)) =
      (if s = slot_of k i then next_inner k (eid (entries v ! s)) else inner_of k (eid (entries v ! s)))"
proof -
  from v obtain fs where fs: "sv_repr k v fs" by (auto simp: sv_inv_def)
  from e sv_erase_dead [OF fs, of i] obtain x where i: "sv_lookup k v i = Some x" by fastforce
  note er = sv_erase_live [OF fs i] and at = sv_erased_at(2) [OF fs i] and f = sv_live_slot(1,2) [OF fs i]
  show "sv_inv k v'" "length (entries v') = length (entries v)"
    using er(1-3) e by (auto simp: sv_inv_def)
  show "inner_of k (eid (entries v' ! s)) =
      (if s = slot_of k i then next_inner k (eid (entries v ! s)) else inner_of k (eid (entries v ! s)))"
    if "s < length (entries v)"
    using er(1) e that f by (auto simp: at id_simps outer_mask_mask)
qed

lemma sv_reserve_run:
  fixes v :: "('a, 'w::len word) stable_vec"
  assumes v: "sv_inv k v" and e: "sv_reserve k v n = Inr v'"
  shows "sv_inv k v'" "length (entries v) \<le> length (entries v')"
    "s < length (entries v) \<Longrightarrow> entries v' ! s = entries v ! s"
proof -
  from v obtain fs where fs: "sv_repr k v fs" by (auto simp: sv_inv_def)
  have n: "n \<le> max_size k" using e by (auto simp: sv_reserve_def require_eq_Inr)
  from sv_reserve_ok [OF fs n] e
  show "sv_inv k v'" "length (entries v) \<le> length (entries v')"
    "s < length (entries v) \<Longrightarrow> entries v' ! s = entries v ! s"
    by (auto simp: sv_inv_def)
qed

lemma sv_run_inv:
  assumes "sv_inv k v" "sv_run k v ops = Inr v'"
  shows "sv_inv k v'"
  using assms
proof (induction k v ops rule: sv_run.induct)
  case (2 k v x ops)
  then show ?case by (fastforce simp: res_Inr_iff dest: sv_emplace_run(1))
next
  case (3 k v i ops)
  then show ?case by (fastforce simp: res_Inr_iff dest: sv_erase_run(1))
next
  case (4 k v n ops)
  then show ?case by (fastforce simp: res_Inr_iff dest: sv_reserve_run(1))
qed auto


lemma sv_run_tag:
  fixes v :: "('a, 'w::len word) stable_vec"
  assumes "sv_inv k v" "sv_run k v ops = Inr v'" "s < length (entries v)"
  shows "s < length (entries v') \<and> (\<exists>m \<le> erases ops. tag_of k (eid (entries v' ! s)) =
    (tag_of k (eid (entries v ! s)) + m) mod 2 ^ (LENGTH('w) - k))"
  using assms
proof (induction k v ops rule: sv_run.induct)
  case (1 k v)
  obtain fs where "sv_repr k v fs" using 1(1) by (auto simp: sv_inv_def)
  then have k: "k < LENGTH('w)" by (rule sv_reprD(1))
  have "tag_of k (eid (entries v ! s)) < 2 ^ (LENGTH('w) - k)"
    using k by (simp add: tag_of_div less_mult_imp_div_less flip: power_add)
  then show ?case using 1 by auto
next
  case (2 k v x ops)
  then obtain i v1 where e: "sv_emplace k v x = Inr (i, v1)" "\<not> sv_full k v" "sv_run k v1 ops = Inr v'"
    by (auto simp: res_Inr_iff)
  note step = sv_emplace_run [OF 2(2) e(2,1)]
  have "tag_of k (eid (entries v1 ! s)) = tag_of k (eid (entries v ! s))"
    using step(3) [OF 2(4)] by (simp add: inner_of_eq_iff_tag)
  then show ?case using "2.IH" [OF step(1) e(3)] step(2) 2(4) by auto
next
  case (3 k v i ops)
  then obtain v1 where e: "sv_erase k v i = Inr v1" "sv_run k v1 ops = Inr v'"
    by (auto simp: res_Inr_iff)
  note step = sv_erase_run [OF 3(2) e(1)]
  obtain fs where "sv_repr k v fs" using 3(2) by (auto simp: sv_inv_def)
  then have k: "k < LENGTH('w)" by (rule sv_reprD(1))
  obtain d where d: "d \<le> 1" "tag_of k (eid (entries v1 ! s)) mod 2 ^ (LENGTH('w) - k) =
      (tag_of k (eid (entries v ! s)) + d) mod 2 ^ (LENGTH('w) - k)"
  proof (cases "s = slot_of k i")
    case True
    then have "inner_of k (eid (entries v1 ! s)) = inner_of k (next_inner k (eid (entries v ! s)))"
      using step(3) [OF 3(4)] by simp
    then have "tag_of k (eid (entries v1 ! s)) = tag_of k (next_inner k (eid (entries v ! s)))"
      by (simp only: inner_of_eq_iff_tag)
    then show ?thesis using that [of 1] by (simp add: tag_of_next_inner [OF k])
  next
    case False
    then have "tag_of k (eid (entries v1 ! s)) = tag_of k (eid (entries v ! s))"
      using step(3) [OF 3(4)] by (simp add: inner_of_eq_iff_tag)
    then show ?thesis using that [of 0] by simp
  qed
  have "s < length (entries v1)" using step(2) 3(4) by simp
  from "3.IH" [OF step(1) e(2) this] obtain m where m: "s < length (entries v')" "m \<le> erases ops"
    "tag_of k (eid (entries v' ! s)) = (tag_of k (eid (entries v1 ! s)) + m) mod 2 ^ (LENGTH('w) - k)"
    by blast
  have "(tag_of k (eid (entries v1 ! s)) + m) mod 2 ^ (LENGTH('w) - k) =
      (tag_of k (eid (entries v ! s)) + (d + m)) mod 2 ^ (LENGTH('w) - k)"
    using arg_cong [OF d(2), of "\<lambda>t. (t + m) mod 2 ^ (LENGTH('w) - k)"]
    unfolding mod_add_left_eq by (simp only: add.assoc)
  then show ?case using m d(1) by (intro conjI exI [of _ "d + m"]) auto
next
  case (4 k v n ops)
  then obtain v1 where e: "sv_reserve k v n = Inr v1" "sv_run k v1 ops = Inr v'"
    by (auto simp: res_Inr_iff)
  note step = sv_reserve_run [OF 4(2) e(1)]
  show ?case using "4.IH" [OF step(1) e(2)] step(2,3) 4(4) by auto
qed

lemma sv_inv_new:
  assumes "k < LENGTH('w)" "n \<le> max_size k"
  shows "\<exists>v. sv_new k (n :: 'w::len word) = Inr v \<and> sv_inv k v \<and> sv_lookup k v = Map.empty"
proof -
  have "sv_lookup k (sv_empty k :: ('a, 'w word) stable_vec) = Map.empty"
    by (simp add: sv_lookup_def sv_is_valid_id_def sv_empty_def fun_eq_iff)
  then show ?thesis
    using sv_reserve_ok [OF sv_repr_empty assms(2), OF assms(1)] unfolding sv_new_def sv_inv_def by metis
qed


lemmas sv_eval = sv_empty_def sv_emplace_def sv_erase_def sv_get_def sv_reserve_def sv_new_def
  sv_is_valid_id_def set_eid_def set_data_def outer_mask_def inner_mask_def invalid_index_def
  max_size_def max_index_def outer_of_def inner_of_def slot_of_def next_inner_def sv_full_def
  sv_destroy_def require_def fetch_def Let_def mask_eq_exp_minus_1

subsection \<open>Properties\<close>

lemma sv_get_iff: "sv_inv k v \<Longrightarrow> sv_get k v i = Inr x \<longleftrightarrow> sv_lookup k v i = Some x"
  by (rule sv.get_iff)

text \<open>C1. Storing an object in a vector that is not full returns a new id that is not
  \<open>INVALID_INDEX\<close>, was not valid before and now finds that object; every other id finds what it
  found before, and the size grows by one.\<close>

theorem sv_emplace_correct:
  assumes inv: "sv_inv k v" and room: "card (dom (sv_lookup k v)) < 2 ^ k - 1"
  shows "\<exists>i v'. sv_emplace k v x = Inr (i, v') \<and> sv_inv k v' \<and>
    i \<noteq> invalid_index k \<and> \<not> sv_is_valid_id k v i \<and> sv_get k v' i = Inr x \<and>
    (\<forall>j y. j \<noteq> i \<longrightarrow> sv_get k v' j = Inr y \<longleftrightarrow> sv_get k v j = Inr y) \<and>
    unat (vsize v') = Suc (unat (vsize v))"
proof -
  obtain i v' where e: "sv_emplace k v x = Inr (i, v')" "sv_inv k v'" "sv_lookup k v i = None"
    "sv_lookup k v' = (sv_lookup k v)(i \<mapsto> x)" "i \<noteq> invalid_index k"
    by (rule sv.emplaceE [OF inv room])
  have "unat (vsize v') = Suc (unat (vsize v))"
    using e sv.finite_lookup [OF inv] by (simp add: sv_vsize [OF inv] sv_vsize domIff)
  then show ?thesis
    using e by (auto simp: sv_get_iff [OF inv] sv_get_iff [OF e(2)] sv.valid_iff [OF inv])
qed

lemma sv_example_empty:
  "sv_inv 2 (sv_empty 2 :: (nat, 8 word) stable_vec)" "sv_lookup 2 (sv_empty 2 :: (nat, 8 word) stable_vec) = Map.empty"
  using sv_repr_empty [of 2, where 'w = 8 and 'a = nat]
  by (auto simp: sv_inv_def sv_lookup_def sv_is_valid_id_def sv_empty_def)


theorem sv_emplace_correct_witness:
  "\<exists>v'. sv_emplace 2 (sv_empty 2 :: (nat, 8 word) stable_vec) 7 = Inr (0, v') \<and> sv_get 2 v' 0 = Inr 7"
proof -
  have "card (dom (sv_lookup 2 (sv_empty 2 :: (nat, 8 word) stable_vec))) < 2 ^ 2 - 1"
    by (simp add: sv_example_empty)
  from sv_emplace_correct [OF sv_example_empty(1) this, of 7]
  obtain i v' where *: "sv_emplace 2 (sv_empty 2 :: (nat, 8 word) stable_vec) 7 = Inr (i, v')"
    "sv_get 2 v' i = Inr 7" by blast
  have "i = 0" using *(1) by (simp add: sv_eval)
  with * show ?thesis by blast
qed

text \<open>C2. Erasing a valid id destroys exactly that object: afterwards the id is neither valid nor
  readable, erasing it again aborts, every other id still finds its object, and the size drops
  by one.\<close>

theorem sv_erase_correct:
  assumes inv: "sv_inv k v" and i: "sv_get k v i = Inr x"
  shows "\<exists>v'. sv_erase k v i = Inr v' \<and> sv_inv k v' \<and> \<not> sv_is_valid_id k v' i \<and>
    (\<exists>e. sv_get k v' i = Inl e) \<and> (\<exists>e. sv_erase k v' i = Inl e) \<and>
    (\<forall>j y. j \<noteq> i \<longrightarrow> sv_get k v' j = Inr y \<longleftrightarrow> sv_get k v j = Inr y) \<and>
    Suc (unat (vsize v')) = unat (vsize v)"
proof -
  have l: "sv_lookup k v i = Some x" using i sv_get_iff [OF inv] by blast
  obtain v' where e: "sv_erase k v i = Inr v'" "sv_inv k v'" "sv_lookup k v' = (sv_lookup k v)(i := None)"
    by (rule sv.eraseE [OF inv l])
  have "Suc (unat (vsize v')) = unat (vsize v)"
    using e card_Suc_Diff1 [OF sv.finite_lookup [OF inv] domI [where m = "sv_lookup k v", OF l]]
    by (simp add: sv_vsize [OF inv] sv_vsize)
  then show ?thesis
    using e sv.erase_twice [OF inv e(1)] sv.get_none [OF e(2), of i]
    by (auto simp: sv_get_iff [OF inv] sv_get_iff [OF e(2)] sv.valid_iff [OF e(2)])
qed

lemma sv_example_one:
  "sv_run 2 (sv_empty 2 :: (nat, 8 word) stable_vec) [Emplace 7] = Inr \<lparr>entries = [\<lparr>data = Some 7, eid = 0\<rparr>],
     first_free = 3, last_free = 3, vsize = 1\<rparr>"
  "sv_inv 2 \<lparr>entries = [\<lparr>data = Some (7 :: nat), eid = 0 :: 8 word\<rparr>], first_free = 3, last_free = 3, vsize = 1\<rparr>"
proof -
  show *: "sv_run 2 (sv_empty 2 :: (nat, 8 word) stable_vec) [Emplace 7] = Inr \<lparr>entries = [\<lparr>data = Some 7, eid = 0\<rparr>],
     first_free = 3, last_free = 3, vsize = 1\<rparr>"
    by (simp add: sv_eval)
  show "sv_inv 2 \<lparr>entries = [\<lparr>data = Some (7 :: nat), eid = 0 :: 8 word\<rparr>], first_free = 3, last_free = 3, vsize = 1\<rparr>"
    by (rule sv_run_inv [OF sv_example_empty(1) *])
qed

theorem sv_erase_correct_witness:
  "\<exists>v'. sv_erase 2 \<lparr>entries = [\<lparr>data = Some (7 :: nat), eid = 0 :: 8 word\<rparr>], first_free = 3,
      last_free = 3, vsize = 1\<rparr> 0 = Inr v' \<and> unat (vsize v') = 0"
proof -
  have "sv_get 2 \<lparr>entries = [\<lparr>data = Some (7 :: nat), eid = 0 :: 8 word\<rparr>], first_free = 3,
      last_free = 3, vsize = 1\<rparr> 0 = Inr 7" by (simp add: sv_eval)
  from sv_erase_correct [OF sv_example_one(2) this] show ?thesis by auto
qed

lemma sv_stale:
  fixes v :: "('a, 'w::len word) stable_vec"
  assumes inv: "sv_inv k v" and run: "sv_run k v (Erase i # ops) = Inr v'"
    and few: "erases ops < 2 ^ (LENGTH('w) - k) - 1"
  shows "\<not> sv_is_valid_id k v' i \<and> (\<exists>e. sv_get k v' i = Inl e)"
proof -
  let ?N = "2 ^ (LENGTH('w) - k) :: nat" and ?s = "slot_of k i"
  from run obtain v1 where e: "sv_erase k v i = Inr v1" "sv_run k v1 ops = Inr v'"
    by (auto simp: res_Inr_iff)
  note step = sv_erase_run [OF inv e(1)]
  obtain fs where fs: "sv_repr k v fs" using inv by (auto simp: sv_inv_def)
  have k: "k < LENGTH('w)" using fs by (rule sv_reprD(1))
  have s: "?s < length (entries v)" "eid (entries v ! ?s) = i"
    using e(1) by (auto simp: sv_erase_def res_Inr_iff Let_def slot_of_def)
  have "inner_of k (eid (entries v1 ! ?s)) = inner_of k (next_inner k i)"
    using step(3) [OF s(1)] s(2) by simp
  then have t1: "tag_of k (eid (entries v1 ! ?s)) = (tag_of k i + 1) mod ?N"
    by (simp only: inner_of_eq_iff_tag tag_of_next_inner [OF k])
  have "?s < length (entries v1)" using step(2) s(1) by simp
  from sv_run_tag [OF step(1) e(2) this] obtain m where m: "m \<le> erases ops"
    "tag_of k (eid (entries v' ! ?s)) = ((tag_of k i + 1) mod ?N + m) mod ?N"
    by (auto simp: t1)
  have lt: "tag_of k i < ?N"
    using k by (simp add: tag_of_div less_mult_imp_div_less flip: power_add)
  have "tag_of k (eid (entries v' ! ?s)) = (tag_of k i + Suc m) mod ?N"
    unfolding m(2) mod_add_left_eq by simp
  also have "\<dots> \<noteq> tag_of k i"
    using lt m(1) few by (auto simp: mod_if le_mod_geq)
  finally have "eid (entries v' ! ?s) \<noteq> i" by auto
  then have invalid: "\<not> sv_is_valid_id k v' i" by (metis sv_is_valid_id_def)
  have "sv_inv k v'" by (rule sv_run_inv [OF step(1) e(2)])
  then show ?thesis using invalid sv.valid_iff sv.get_none by metis
qed

lemma sv_room_not_full:
  fixes v :: "('a, 'w::len word) stable_vec"
  assumes "sv_inv k v" "card (dom (sv_lookup k v)) < 2 ^ k - 1"
  shows "\<not> sv_full k v"
proof -
  obtain fs where fs: "sv_repr k v fs" using assms(1) by (auto simp: sv_inv_def)
  have "last_free v = invalid_index k \<Longrightarrow> length (entries v) < 2 ^ k - 1"
    using sv_inv_room [OF fs assms(2)] sv_repr_last_eq [OF fs] by simp
  then show ?thesis using sv_reprD(1) [OF fs] by (auto simp: sv_full_def unat_mask_lt)
qed

lemma sv_erase_emplace_ne:
  fixes v :: "('a, 'w::len word) stable_vec"
  assumes inv: "sv_inv k v" and e: "sv_erase k v i = Inr v1" and n: "sv_emplace k v1 x = Inr (j, v2)"
    and room: "card (dom (sv_lookup k v1)) < 2 ^ k - 1" and bits: "Suc k < LENGTH('w)"
  shows "j \<noteq> i"
proof -
  have inv1: "sv_inv k v1" by (rule sv_run_inv [OF inv, of "[Erase i]"]) (use e in simp)
  have run: "sv_run k v [Erase i, Emplace x] = Inr v2" using e n sv_room_not_full [OF inv1 room] by simp
  have "2 ^ 1 < (2 :: nat) ^ (LENGTH('w) - k)" using bits by (intro power_strict_increasing) auto
  then have "erases [Emplace x :: ('a, 'w word) sv_op] < 2 ^ (LENGTH('w) - k) - 1" by simp
  from sv_stale [OF inv run this] have "\<not> sv_is_valid_id k v2 i" by blast
  moreover from sv.emplace_ok [OF inv1 room, of x] have "sv_inv k v2 \<and> sv_lookup k v2 j = Some x" using n by auto
  then have "sv_is_valid_id k v2 j" using sv.valid_iff by blast
  ultimately show ?thesis by auto
qed

text \<open>C3. An erased id stays dead: whatever is stored, erased or reserved afterwards, the id is
  not valid and reading it aborts, as long as fewer than \<open>2 ^ INNER_BITS - 1\<close> further erasures
  happen (only then can the tag of its slot have come round).\<close>

theorem sv_stale_id_rejected:
  fixes v :: "('a, 'w::len word) stable_vec"
  assumes inv: "sv_inv k v" and run: "sv_run k v (Erase i # ops) = Inr v'"
    and few: "erases ops < 2 ^ (LENGTH('w) - k) - 1"
  shows "\<not> sv_is_valid_id k v' i \<and> (\<exists>e. sv_get k v' i = Inl e)"
  by (rule sv_stale [OF inv run few])

theorem sv_stale_id_rejected_witness:
  "\<exists>v'. sv_run 2 \<lparr>entries = [\<lparr>data = Some (7 :: nat), eid = 0 :: 8 word\<rparr>], first_free = 3,
      last_free = 3, vsize = 1\<rparr> [Erase 0, Emplace 8, Emplace 9, Erase 4, Emplace 5] = Inr v' \<and>
    \<not> sv_is_valid_id 2 v' 0"
proof -
  let ?v' = "\<lparr>entries = [\<lparr>data = Some 5, eid = 8\<rparr>, \<lparr>data = Some 9, eid = 1\<rparr>],
      first_free = 3, last_free = 3, vsize = 2\<rparr> :: (nat, 8 word) stable_vec"
  have run: "sv_run 2 \<lparr>entries = [\<lparr>data = Some (7 :: nat), eid = 0 :: 8 word\<rparr>], first_free = 3,
      last_free = 3, vsize = 1\<rparr> [Erase 0, Emplace 8, Emplace 9, Erase 4, Emplace 5] = Inr ?v'"
    by (simp add: sv_eval)
  have "erases [Emplace (8 :: nat), Emplace 9, Erase (4 :: 8 word), Emplace 5] < 2 ^ (LENGTH(8) - 2) - 1"
    by simp
  from sv_stale_id_rejected [OF sv_example_one(2) run this] run show ?thesis by blast
qed


text \<open>Free slots are used again first in, first out: storing takes the front of the free list,
  and erasing any valid id appends its slot at the back, so a slot (and with it a tag) rests as
  long as possible before it is used again.\<close>

theorem sv_free_list_fifo:
  assumes v: "sv_repr k v (f # fs)"
  shows "(\<exists>i v'. sv_emplace k v x = Inr (i, v') \<and> slot_of k i = f \<and> sv_repr k v' fs) \<and>
    (\<forall>i. sv_is_valid_id k v i \<longrightarrow>
      (\<exists>v'. sv_erase k v i = Inr v' \<and> sv_repr k v' (f # fs @ [slot_of k i])))"
proof (intro conjI allI impI)
  have "length (entries v) - length (f # fs) < 2 ^ k - 1"
    using sv_reprD(2) [OF v] sv_card_lookup(3) [OF v] by simp
  then show "\<exists>i v'. sv_emplace k v x = Inr (i, v') \<and> slot_of k i = f \<and> sv_repr k v' fs"
    by (rule sv_emplace_repr [OF v, of x]) auto
  fix i
  assume "sv_is_valid_id k v i"
  then obtain y where "sv_lookup k v i = Some y" using sv_lookup_eq_None [OF v] by blast
  from sv_erase_live(1,2) [OF v this]
  show "\<exists>v'. sv_erase k v i = Inr v' \<and> sv_repr k v' (f # fs @ [slot_of k i])" by auto
qed

theorem sv_free_list_fifo_witness:
  "\<exists>v. sv_new 2 (2 :: 8 word) = Inr v \<and>
    (\<exists>i v'. sv_emplace 2 v (7 :: nat) = Inr (i, v') \<and> slot_of 2 i = 0 \<and> sv_repr 2 v' [1])"
proof -
  have e: "sv_repr 2 (sv_empty 2 :: (nat, 8 word) stable_vec) []" by (rule sv_repr_empty) simp
  have u: "[0..<2] = [0, 1 :: nat]" by (simp add: upt_rec)
  have "(2 :: 8 word) \<le> max_size 2" by (simp add: mask_eq_exp_minus_1)
  from sv_reserve_ok [OF e this] obtain v where "sv_new 2 (2 :: 8 word) = Inr v"
    "sv_repr 2 (v :: (nat, 8 word) stable_vec) [0, 1]"
    by (auto simp: sv_new_def sv_empty_def u)
  with sv_free_list_fifo [of 2 v 0 "[1]" 7] show ?thesis by blast
qed

text \<open>\<open>reserve\<close> keeps every stored object under its id and makes room: the table has at least
  the requested number of slots and every new slot is free.\<close>

theorem sv_reserve_correct:
  assumes inv: "sv_inv k v" and n: "n \<le> max_size k"
  shows "\<exists>v'. sv_reserve k v n = Inr v' \<and> sv_inv k v' \<and>
    length (entries v') = max (length (entries v)) (unat n) \<and> vsize v' = vsize v \<and>
    (\<forall>i. sv_is_valid_id k v' i = sv_is_valid_id k v i) \<and>
    (\<forall>i x. sv_get k v' i = Inr x \<longleftrightarrow> sv_get k v i = Inr x)"
proof -
  from inv obtain fs where fs: "sv_repr k v fs" by (auto simp: sv_inv_def)
  from sv_reserve_ok [OF fs n] obtain v' where v': "sv_reserve k v n = Inr v'"
    "sv_repr k v' ([length (entries v)..<unat n] @ fs)" "sv_lookup k v' = sv_lookup k v"
    "length (entries v') = max (length (entries v)) (unat n)" by blast
  then have inv': "sv_inv k v'" by (auto simp: sv_inv_def)
  then have "unat (vsize v') = unat (vsize v)" using v'(3) sv_vsize [OF inv] sv_vsize [OF inv'] by simp
  then show ?thesis
    using v' inv' by (auto simp: sv_get_iff [OF inv] sv_get_iff [OF inv'] sv.valid_iff [OF inv]
        sv.valid_iff [OF inv'] word_unat_eq_iff)
qed

theorem sv_reserve_correct_witness:
  "\<exists>v'. sv_reserve 2 (sv_empty 2 :: (nat, 8 word) stable_vec) 3 = Inr v' \<and> length (entries v') = 3"
proof -
  have "(3 :: 8 word) \<le> max_size 2" by (simp add: mask_eq_exp_minus_1)
  from sv_reserve_correct [OF sv_example_empty(1) this] show ?thesis by (auto simp: sv_empty_def)
qed

text \<open>C4. The destructor destroys every stored object exactly once and nothing else, and its
  \<open>DCHECK\<close> on \<open>size_\<close> holds.\<close>

theorem sv_destroy_each_once:
  assumes inv: "sv_inv k v"
  shows "\<exists>xs. sv_destroy k v = Inr xs \<and>
    mset xs = image_mset (\<lambda>i. the (sv_lookup k v i)) (mset_set (dom (sv_lookup k v)))"
proof -
  from inv obtain fs where fs: "sv_repr k v fs" by (auto simp: sv_inv_def)
  note r = sv_reprD [OF fs]
  have "slot_of k (eid (entries v ! j)) = 0 + j \<longleftrightarrow> data (entries v ! j) \<noteq> None"
    if "j < length (entries v)" for j
    using that r(6) sv_repr_free_no_loop [OF fs that] by auto
  note d = sv_destroy_from_map [OF this, of "vsize v"]
  have "length (List.map_filter data (entries v)) = card (dom (sv_lookup k v))"
    using arg_cong [OF sv_live_values [OF fs], of size] by simp
  then have "vsize v = of_nat (length (List.map_filter data (entries v)))"
    using r(10) sv_card_lookup(2) [OF fs] by simp
  then show ?thesis using d sv_live_values [OF fs] by (simp add: sv_destroy_def)
qed

theorem sv_destroy_each_once_witness:
  "\<exists>xs. sv_destroy 2 \<lparr>entries = [\<lparr>data = Some (7 :: nat), eid = 0 :: 8 word\<rparr>], first_free = 3,
      last_free = 3, vsize = 1\<rparr> = Inr xs \<and> xs = [7]"
  using sv_destroy_each_once [OF sv_example_one(2)] by (simp add: sv_eval)

text \<open>C5. \<open>emplace\<close> does not check \<open>MAX_SIZE\<close>: on a full vector it stores the object all the same
  and returns \<open>INVALID_INDEX\<close> as its id, the value that clients read as "no object".\<close>

theorem sv_emplace_full_returns_invalid:
  fixes v :: "('a, 'w::len word) stable_vec"
  assumes v: "sv_repr k v []" and full: "length (entries v) = 2 ^ k - 1"
  shows "\<exists>v'. sv_emplace k v x = Inr (invalid_index k, v') \<and>
    sv_get k v' (invalid_index k) = Inr x \<and> sv_is_valid_id k v' (invalid_index k)"
proof -
  note r = sv_reprD [OF v]
  have inv: "of_nat (length (entries v)) = invalid_index k" by (simp only: full of_nat_invalid)
  have n: "unat (invalid_index k :: 'w word) = length (entries v)"
    "slot_of k (invalid_index k :: 'w word) = length (entries v)"
    using r(1) full by (simp_all add: unat_invalid slot_of_invalid)
  have first: "first_free v = invalid_index k" using sv_repr_first [OF v] by simp
  have inner0: "inner_of k (0 :: 'w word) = 0" by (simp add: inner_of_def)
  show ?thesis
    using r(9) first
    by (simp add: sv_emplace_def inv n inner0 sv_get_def sv_is_valid_id_def Let_def)
qed


theorem sv_emplace_full_returns_invalid_witness:
  "\<exists>v v'. sv_run 2 (sv_empty 2 :: (nat, 8 word) stable_vec) [Emplace 7, Emplace 8, Emplace 9] = Inr v \<and>
    sv_emplace 2 v 10 = Inr (invalid_index 2, v')"
proof -
  let ?v = "\<lparr>entries = [\<lparr>data = Some 7, eid = 0\<rparr>, \<lparr>data = Some 8, eid = 1\<rparr>, \<lparr>data = Some 9, eid = 2\<rparr>],
      first_free = 3, last_free = 3, vsize = 3\<rparr> :: (nat, 8 word) stable_vec"
  have run: "sv_run 2 (sv_empty 2 :: (nat, 8 word) stable_vec) [Emplace 7, Emplace 8, Emplace 9] = Inr ?v"
    by (simp add: sv_eval)
  obtain fs where fs: "sv_repr 2 ?v fs"
    using sv_run_inv [OF sv_example_empty(1) run] by (auto simp: sv_inv_def)
  have "last_free ?v = invalid_index 2" by (simp add: sv_eval)
  then have "fs = []" using sv_repr_last_eq [OF fs] by blast
  from sv_emplace_full_returns_invalid [OF fs [unfolded this], of 10] run show ?thesis by auto
qed

end
