(* ===== verification/Executor.thy ===== *)
theory Executor
  imports Stable_Id_Vector
begin

text \<open>
  The task executor of \<open>core/executor.hpp\<close> and \<open>core/executor.cpp\<close>: its state and every
  operation on it. Each definition is the code between a lock and the next unlock of
  \<open>tasks_mutex_\<close>, so it is one atomic step of the program; \<open>Executor_Threads\<close> composes
  them into the interleavings of the worker threads.

  Tasks and dependents live in two stable id vectors (12 and 14 index bits, 32-bit ids). A
  closure is opaque: the code only moves it, tests whether it is empty, and calls it.
\<close>

subsection \<open>State\<close>

abbreviation task_bits :: nat where "task_bits \<equiv> 12"
abbreviation dependent_bits :: nat where "dependent_bits \<equiv> 14"

type_synonym task_id = "32 word"
type_synonym dependent_id = "32 word"
type_synonym thread_id = "16 word"

definition INVALID_TASK :: task_id where
  "INVALID_TASK = invalid_index task_bits"

definition INVALID_DEPENDENT :: dependent_id where
  "INVALID_DEPENDENT = invalid_index dependent_bits"

definition MAX_THREADS :: nat where "MAX_THREADS = 16"

definition NO_AFFINITY :: thread_id where "NO_AFFINITY = - 1"

record 'c task =
  closure :: "'c option"
  next_in_list :: task_id
  first_dependent :: dependent_id
  num_unmet_dependencies :: "16 word"
  affinity :: thread_id
  stamp :: "16 word"

record dependent =
  from_task :: task_id
  next_dependent :: dependent_id

record task_list =
  front :: task_id
  "back" :: task_id

record 'c executor =
  tasks :: "('c task, 32 word) stable_vec"
  dependents :: "(dependent, 32 word) stable_vec"
  global_task_queue :: task_list
  affinity_task_queue :: "task_list list"
  next_stamp :: "16 word"
  closed :: bool

text \<open>Which of the queues: the reference \<open>TaskList&\<close> the code passes around.\<close>

datatype queue_ref = Global | Affine nat

definition get_queue :: "'c executor \<Rightarrow> queue_ref \<Rightarrow> (task_list \<Rightarrow> 'b res) \<Rightarrow> 'b res" where
  "get_queue e q k = (case q of Global \<Rightarrow> k (global_task_queue e)
     | Affine i \<Rightarrow> fetch (affinity_task_queue e) i k)"

definition set_queue :: "queue_ref \<Rightarrow> task_list \<Rightarrow> 'c executor \<Rightarrow> 'c executor" where
  "set_queue q l e = (case q of Global \<Rightarrow> e\<lparr>global_task_queue := l\<rparr>
     | Affine i \<Rightarrow> e\<lparr>affinity_task_queue := (affinity_task_queue e)[i := l]\<rparr>)"

subsection \<open>Construction and closing\<close>

abbreviation empty_list :: task_list where
  "empty_list \<equiv> \<lparr>front = INVALID_TASK, back = INVALID_TASK\<rparr>"

definition new_executor :: "'c executor res" where
  "new_executor =
     bind_res (sv_new task_bits 16) (\<lambda>ts.
     bind_res (sv_new dependent_bits 16) (\<lambda>ds.
     Inr \<lparr>tasks = ts, dependents = ds, global_task_queue = empty_list,
          affinity_task_queue = replicate MAX_THREADS empty_list,
          next_stamp = 0, closed = False\<rparr>))"

definition close :: "'c executor \<Rightarrow> 'c executor" where
  "close e = (if closed e then e else e\<lparr>closed := True\<rparr>)"

subsection \<open>Task lists\<close>

definition empty_task_list :: "task_list \<Rightarrow> bool res" where
  "empty_task_list l =
     require (front l \<noteq> INVALID_TASK \<or> back l = INVALID_TASK) Dcheck_failed (
     Inr (front l = INVALID_TASK))"

definition push_task :: "task_id \<Rightarrow> queue_ref \<Rightarrow> 'c executor \<Rightarrow> 'c executor res" where
  "push_task tid q e =
     get_queue e q (\<lambda>queue.
     bind_res (sv_get task_bits (tasks e) tid) (\<lambda>task.
     bind_res (sv_put task_bits (tasks e) tid (task\<lparr>next_in_list := front queue\<rparr>)) (\<lambda>ts.
     let queue' = \<lparr>front = tid, back = (if back queue = INVALID_TASK then tid else back queue)\<rparr>
     in Inr (set_queue q queue' (e\<lparr>tasks := ts\<rparr>)))))"

definition pop_task :: "queue_ref \<Rightarrow> 'c executor \<Rightarrow> ('c task \<times> 'c executor) res" where
  "pop_task q e =
     get_queue e q (\<lambda>queue.
     require (front queue \<noteq> INVALID_TASK) Dcheck_failed (
     require (back queue \<noteq> INVALID_TASK) Dcheck_failed (
     let tid = front queue in
     bind_res (sv_get task_bits (tasks e) tid) (\<lambda>task.
     let first = next_in_list task;
         queue' = \<lparr>front = first, back = (if first = INVALID_TASK then INVALID_TASK else back queue)\<rparr> in
     bind_res (sv_erase task_bits (tasks e) tid) (\<lambda>ts.
     Inr (task, set_queue q queue' (e\<lparr>tasks := ts\<rparr>)))))))"

subsection \<open>Scheduling and dependencies\<close>

definition queue_of :: "thread_id \<Rightarrow> queue_ref" where
  "queue_of a = (if a = NO_AFFINITY then Global else Affine (unat a))"

definition schedule :: "task_id \<Rightarrow> 'c executor \<Rightarrow> 'c executor res" where
  "schedule tid e =
     bind_res (sv_get task_bits (tasks e) tid) (\<lambda>task.
     require (num_unmet_dependencies task = 0) Dcheck_failed (
     bind_res (sv_put task_bits (tasks e) tid (task\<lparr>stamp := next_stamp e\<rparr>)) (\<lambda>ts.
     push_task tid (queue_of (affinity task))
       (e\<lparr>tasks := ts, next_stamp := next_stamp e + 1\<rparr>))))"

text \<open>One round of the loop over \<open>depends_on\<close> in \<open>add_task\<close>.\<close>

definition add_dependency :: "task_id \<Rightarrow> task_id \<Rightarrow> 'c executor \<Rightarrow> 'c executor res" where
  "add_dependency new_task_id dependency_id e =
     (if \<not> sv_is_valid_id task_bits (tasks e) dependency_id then Inr e
      else
        bind_res (sv_get task_bits (tasks e) dependency_id) (\<lambda>dependency.
        bind_res (sv_emplace dependent_bits (dependents e)
            \<lparr>from_task = new_task_id, next_dependent = first_dependent dependency\<rparr>) (\<lambda>(d, ds).
        bind_res (sv_put task_bits (tasks e) dependency_id
            (dependency\<lparr>first_dependent := d\<rparr>)) (\<lambda>ts.
        bind_res (sv_get task_bits ts new_task_id) (\<lambda>new_task.
        bind_res (sv_put task_bits ts new_task_id
            (new_task\<lparr>num_unmet_dependencies := num_unmet_dependencies new_task + 1\<rparr>)) (\<lambda>ts.
        Inr (e\<lparr>tasks := ts, dependents := ds\<rparr>)))))))"

fun add_dependencies :: "task_id \<Rightarrow> task_id list \<Rightarrow> 'c executor \<Rightarrow> 'c executor res" where
  "add_dependencies tid [] e = Inr e"
| "add_dependencies tid (d # ds) e = bind_res (add_dependency tid d e) (add_dependencies tid ds)"

definition new_task :: "'c option \<Rightarrow> thread_id \<Rightarrow> 'c task" where
  "new_task c a = \<lparr>closure = c, next_in_list = INVALID_TASK, first_dependent = INVALID_DEPENDENT,
     num_unmet_dependencies = 0, affinity = a, stamp = 0\<rparr>"

definition add_task :: "'c option \<Rightarrow> task_id list \<Rightarrow> thread_id \<Rightarrow> 'c executor \<Rightarrow>
    (task_id \<times> 'c executor) res" where
  "add_task c depends_on a e =
     (if closed e then Inr (INVALID_TASK, e)
      else
        require (a = NO_AFFINITY \<or> unat a \<le> MAX_THREADS) Dcheck_failed (
        bind_res (sv_emplace task_bits (tasks e) (new_task c a)) (\<lambda>(tid, ts).
        bind_res (add_dependencies tid depends_on (e\<lparr>tasks := ts\<rparr>)) (\<lambda>e.
        bind_res (sv_get task_bits (tasks e) tid) (\<lambda>task.
        if num_unmet_dependencies task = 0
        then bind_res (schedule tid e) (\<lambda>e. Inr (tid, e))
        else Inr (tid, e))))))"

text \<open>One round of the loop of \<open>signal_dependents\<close>: it returns the next dependent.\<close>

definition signal_dependent :: "dependent_id \<Rightarrow> 'c executor \<Rightarrow> (dependent_id \<times> 'c executor) res" where
  "signal_dependent dependent_id e =
     bind_res (sv_get dependent_bits (dependents e) dependent_id) (\<lambda>dependent.
     bind_res (sv_get task_bits (tasks e) (from_task dependent)) (\<lambda>dependent_task.
     require (num_unmet_dependencies dependent_task \<noteq> 0) Dcheck_failed (
     let n = num_unmet_dependencies dependent_task - 1 in
     bind_res (sv_put task_bits (tasks e) (from_task dependent)
         (dependent_task\<lparr>num_unmet_dependencies := n\<rparr>)) (\<lambda>ts.
     bind_res (if n = 0 then schedule (from_task dependent) (e\<lparr>tasks := ts\<rparr>)
               else Inr (e\<lparr>tasks := ts\<rparr>)) (\<lambda>e.
     bind_res (sv_erase dependent_bits (dependents e) dependent_id) (\<lambda>ds.
     Inr (next_dependent dependent, e\<lparr>dependents := ds\<rparr>)))))))"

text \<open>The loop itself; \<open>None\<close> stands for a loop that does not end (a cyclic list).\<close>

partial_function (option) signal_loop :: "dependent_id \<Rightarrow> 'c executor \<Rightarrow> 'c executor res option" where
  "signal_loop dependent_id e =
     (if dependent_id = INVALID_DEPENDENT then Some (Inr e)
      else case signal_dependent dependent_id e of
        Inl err \<Rightarrow> Some (Inl err)
      | Inr (d, e') \<Rightarrow> signal_loop d e')"

definition signal_dependents :: "'c task \<Rightarrow> 'c executor \<Rightarrow> 'c executor res option" where
  "signal_dependents task e = signal_loop (first_dependent task) e"

subsection \<open>Choosing the next task\<close>

text \<open>The queue from which a worker with the given affinity takes its next task, if any: the
  body of the loop of \<open>run_tasks_with_affinity\<close>; \<open>None\<close> means it goes to sleep.\<close>

definition choose_queue :: "nat \<Rightarrow> 'c executor \<Rightarrow> queue_ref option res" where
  "choose_queue a e =
     fetch (affinity_task_queue e) a (\<lambda>affinity_queue.
     bind_res (empty_task_list (global_task_queue e)) (\<lambda>global_is_empty.
     bind_res (empty_task_list affinity_queue) (\<lambda>affinity_is_empty.
     if global_is_empty \<and> affinity_is_empty then Inr None
     else if \<not> (global_is_empty \<or> affinity_is_empty) then
       bind_res (sv_get task_bits (tasks e) (front (global_task_queue e))) (\<lambda>g.
       bind_res (sv_get task_bits (tasks e) (front affinity_queue)) (\<lambda>f.
       Inr (Some (if stamp g < stamp f then Global else Affine a))))
     else if global_is_empty then Inr (Some (Affine a))
     else Inr (Some Global))))"

end
