(* ===== verification/Executor_Inv.thy ===== *)
theory Executor_Inv
  imports Executor
begin

text \<open>
  The data invariant of the executor and its preservation by every operation. The ghost
  parameters are what the linked structures stand for: the contents of each task queue
  (\<open>qs\<close>), the tasks that worker threads have popped and not yet signalled (\<open>run\<close>), the
  dependent list each unfinished task owns (\<open>own\<close>) and the order in which tasks were
  added (\<open>rank\<close>).
\<close>

abbreviation tmap :: "'c executor \<Rightarrow> task_id \<Rightarrow> 'c task option" where
  "tmap e \<equiv> sv_lookup task_bits (tasks e)"

abbreviation dmap :: "'c executor \<Rightarrow> dependent_id \<Rightarrow> dependent option" where
  "dmap e \<equiv> sv_lookup dependent_bits (dependents e)"

subsection \<open>Task queues\<close>

definition valid_queue :: "queue_ref \<Rightarrow> bool" where
  "valid_queue q = (case q of Global \<Rightarrow> True | Affine i \<Rightarrow> i < MAX_THREADS)"

definition queue_at :: "'c executor \<Rightarrow> queue_ref \<Rightarrow> task_list" where
  "queue_at e q = (case q of Global \<Rightarrow> global_task_queue e | Affine i \<Rightarrow> affinity_task_queue e ! i)"

definition queue_ok :: "(task_id \<Rightarrow> 'c task option) \<Rightarrow> task_list \<Rightarrow> task_id list \<Rightarrow> bool" where
  "queue_ok T l xs \<longleftrightarrow> linked (\<lambda>t. next_in_list (the (T t))) (front l) xs INVALID_TASK \<and>
     distinct xs \<and> back l = (if xs = [] then INVALID_TASK else last xs)"

definition ready :: "(task_id \<Rightarrow> 'c task option) \<Rightarrow> queue_ref \<Rightarrow> task_id set" where
  "ready T q = {t. \<exists>x. T t = Some x \<and> num_unmet_dependencies x = 0 \<and> queue_of (affinity x) = q}"

definition queues_inv :: "'c executor \<Rightarrow> task_id set \<Rightarrow> (queue_ref \<Rightarrow> task_id list) \<Rightarrow> bool" where
  "queues_inv e X qs \<longleftrightarrow>
     sv_inv task_bits (tasks e) \<and> length (affinity_task_queue e) = MAX_THREADS \<and>
     (\<forall>t x. tmap e t = Some x \<longrightarrow> valid_queue (queue_of (affinity x))) \<and>
     (\<forall>q. valid_queue q \<longrightarrow> queue_ok (tmap e) (queue_at e q) (qs q) \<and>
        set (qs q) = ready (tmap e) q - X)"

lemma queues_invD:
  assumes "queues_inv e X qs"
  shows "sv_inv task_bits (tasks e)" "length (affinity_task_queue e) = MAX_THREADS"
    "tmap e t = Some x \<Longrightarrow> valid_queue (queue_of (affinity x))"
    "valid_queue q \<Longrightarrow> queue_ok (tmap e) (queue_at e q) (qs q)"
    "valid_queue q \<Longrightarrow> set (qs q) = ready (tmap e) q - X"
  using assms by (auto simp: queues_inv_def)

lemma queue_at_set [simp]:
  assumes "valid_queue q" "valid_queue q'" "length (affinity_task_queue e) = MAX_THREADS"
  shows "queue_at (set_queue q l e) q' = (if q' = q then l else queue_at e q')"
  using assms by (cases q; cases q') (auto simp: queue_at_def set_queue_def valid_queue_def)

lemma set_queue_sel [simp]:
  "tasks (set_queue q l e) = tasks e" "dependents (set_queue q l e) = dependents e"
  "closed (set_queue q l e) = closed e" "next_stamp (set_queue q l e) = next_stamp e"
  "length (affinity_task_queue (set_queue q l e)) = length (affinity_task_queue e)"
  by (auto simp: set_queue_def split: queue_ref.split)

lemma queue_at_upd [simp]:
  "queue_at (e\<lparr>tasks := ts\<rparr>) q = queue_at e q"
  "queue_at (e\<lparr>dependents := ds\<rparr>) q = queue_at e q"
  "queue_at (e\<lparr>next_stamp := s\<rparr>) q = queue_at e q"
  "queue_at (e\<lparr>closed := c\<rparr>) q = queue_at e q"
  by (auto simp: queue_at_def split: queue_ref.split)

lemma get_queue_valid:
  "valid_queue q \<Longrightarrow> length (affinity_task_queue e) = MAX_THREADS \<Longrightarrow> get_queue e q k = k (queue_at e q)"
  by (cases q) (auto simp: get_queue_def queue_at_def valid_queue_def)

lemma sv_lookup_INVALID_TASK: "sv_inv task_bits v \<Longrightarrow> sv_lookup task_bits v INVALID_TASK = None"
  unfolding INVALID_TASK_def by (rule sv.lookup_null)

lemma sv_lookup_INVALID_DEPENDENT:
  "sv_inv dependent_bits v \<Longrightarrow> sv_lookup dependent_bits v INVALID_DEPENDENT = None"
  unfolding INVALID_DEPENDENT_def by (rule sv.lookup_null)

lemma ready_upd:
  "ready (T(t \<mapsto> x)) q = (if num_unmet_dependencies x = 0 \<and> queue_of (affinity x) = q
     then insert t (ready T q) else ready T q - {t})"
  by (auto simp: ready_def)

lemma ready_del: "ready (T(t := None)) q = ready T q - {t}"
  by (auto simp: ready_def)

lemma queue_ok_upd_other: "t \<notin> set xs \<Longrightarrow> queue_ok (T(t := y)) l xs = queue_ok T l xs"
  unfolding queue_ok_def by (intro conj_cong linked_cong) auto

lemma queue_ok_front_ne:
  "queue_ok T l xs \<Longrightarrow> xs \<noteq> [] \<Longrightarrow> T INVALID_TASK = None \<Longrightarrow> (\<And>t. t \<in> set xs \<Longrightarrow> T t \<noteq> None) \<Longrightarrow>
    front l \<noteq> INVALID_TASK \<and> back l \<noteq> INVALID_TASK"
  unfolding queue_ok_def using linked_start [of _ "front l" xs] hd_in_set [of xs] last_in_set [of xs]
  by metis

lemma queue_ok_push:
  assumes "queue_ok T l xs" "t \<notin> set xs" "next_in_list (the (T t)) = front l" "INVALID_TASK \<notin> set xs"
  shows "queue_ok T \<lparr>front = t, back = (if back l = INVALID_TASK then t else back l)\<rparr> (t # xs)"
proof -
  have "xs \<noteq> [] \<Longrightarrow> last xs \<noteq> INVALID_TASK" using assms(4) last_in_set by metis
  then show ?thesis using assms by (auto simp: queue_ok_def)
qed

lemma queue_ok_pop:
  assumes "queue_ok T l (t # xs)" "INVALID_TASK \<notin> set xs"
  shows "front l = t" "t \<notin> set xs"
    "queue_ok T \<lparr>front = next_in_list (the (T t)),
      back = (if next_in_list (the (T t)) = INVALID_TASK then INVALID_TASK else back l)\<rparr> xs"
  using assms by (cases xs; auto simp: queue_ok_def)+

lemma queue_ok_empty: "queue_ok T l [] \<longleftrightarrow> l = empty_list"
  by (cases l) (auto simp: queue_ok_def)

text \<open>Changing a task that is not in a queue (it is in \<open>X\<close>, or it waits) keeps the queues.\<close>

lemma queues_inv_put:
  assumes q: "queues_inv e X qs" and t: "tmap e t = Some x" and inv: "sv_inv task_bits ts"
    and ts: "sv_lookup task_bits ts = (tmap e)(t \<mapsto> y)"
    and y: "affinity y = affinity x" "num_unmet_dependencies x = 0 \<Longrightarrow> t \<in> X"
      "num_unmet_dependencies y = 0 \<Longrightarrow> t \<in> X'" and X: "X - {t} = X' - {t}"
  shows "queues_inv (e\<lparr>tasks := ts\<rparr>) X' qs"
proof -
  note D = queues_invD [OF q]
  have out: "t \<notin> set (qs q)" if "valid_queue q" for q
    using D(5) [OF that] t y(2) by (auto simp: ready_def)
  have "s \<in> ready (tmap e) q - X \<longleftrightarrow> s \<in> ready ((tmap e)(t \<mapsto> y)) q - X'" for q s
  proof (cases "s = t")
    case True
    then show ?thesis using t y by (auto simp: ready_def)
  next
    case False
    then have "s \<in> X \<longleftrightarrow> s \<in> X'" using X by blast
    then show ?thesis using False by (auto simp: ready_def)
  qed
  then have "ready (tmap e) q - X = ready ((tmap e)(t \<mapsto> y)) q - X'" for q by blast
  then have "queue_ok ((tmap e)(t \<mapsto> y)) (queue_at e q) (qs q) \<and> set (qs q) = ready ((tmap e)(t \<mapsto> y)) q - X'"
    if "valid_queue q" for q
    using D(4,5) [OF that] queue_ok_upd_other [OF out [OF that]] by metis
  then show ?thesis
    using D(2,3) inv ts t y(1) by (auto simp: queues_inv_def)
qed

text \<open>\<open>schedule\<close> moves a ready task from outside to the front of its queue.\<close>

lemma schedule_ok:
  assumes q: "queues_inv e X qs" and t: "tmap e t = Some x" "num_unmet_dependencies x = 0" "t \<in> X"
  obtains e' where "schedule t e = Inr e'"
    "queues_inv e' (X - {t}) (qs(queue_of (affinity x) := t # qs (queue_of (affinity x))))"
    "tmap e' = (tmap e)(t \<mapsto> x\<lparr>stamp := next_stamp e,
       next_in_list := front (queue_at e (queue_of (affinity x)))\<rparr>)"
    "dependents e' = dependents e" "closed e' = closed e" "next_stamp e' = next_stamp e + 1"
proof -
  let ?q = "queue_of (affinity x)"
  let ?l = "queue_at e ?q"
  let ?x1 = "x\<lparr>stamp := next_stamp e\<rparr>"
  let ?x2 = "?x1\<lparr>next_in_list := front ?l\<rparr>"
  note D = queues_invD [OF q]
  have vq: "valid_queue ?q" by (rule D(3) [OF t(1)])
  have get: "sv_get task_bits (tasks e) t = Inr x" using sv.get_ok [OF D(1) t(1)] .
  obtain ts1 where ts1: "sv_put task_bits (tasks e) t ?x1 = Inr ts1" "sv_inv task_bits ts1"
    "sv_lookup task_bits ts1 = (tmap e)(t \<mapsto> ?x1)" by (rule sv.putE [OF D(1) t(1)])
  have get1: "sv_get task_bits ts1 t = Inr ?x1" using ts1(2,3) by (intro sv.get_ok) auto
  have lt: "sv_lookup task_bits ts1 t = Some ?x1" using ts1(3) by simp
  obtain ts2 where ts2: "sv_put task_bits ts1 t ?x2 = Inr ts2" "sv_inv task_bits ts2"
    "sv_lookup task_bits ts2 = (sv_lookup task_bits ts1)(t \<mapsto> ?x2)" by (rule sv.putE [OF ts1(2) lt])
  let ?l' = "\<lparr>front = t, back = (if back ?l = INVALID_TASK then t else back ?l)\<rparr>"
  let ?e' = "set_queue ?q ?l' (e\<lparr>next_stamp := next_stamp e + 1, tasks := ts2\<rparr>)"
  have eq: "schedule t e = Inr ?e'"
    unfolding schedule_def get
    by (simp add: t(2) ts1(1) push_task_def get_queue_valid vq D(2) get1 ts2(1))
  have tm: "tmap ?e' = (tmap e)(t \<mapsto> ?x2)" using ts1(3) ts2(3) by simp
  have "queue_ok (tmap ?e') (queue_at ?e' p) ((qs(?q := t # qs ?q)) p) \<and>
      set ((qs(?q := t # qs ?q)) p) = ready (tmap ?e') p - (X - {t})" if p: "valid_queue p" for p
  proof -
    have out: "t \<notin> set (qs p)" using D(5) [OF p] t(3) by auto
    have none: "tmap e INVALID_TASK = None" by (rule sv_lookup_INVALID_TASK [OF D(1)])
    have dom: "s \<noteq> INVALID_TASK" if "s \<in> set (qs p)" for s
      using D(5) [OF p] that none by (auto simp: ready_def)
    show ?thesis
    proof (cases "p = ?q")
      case True
      have "queue_ok (tmap ?e') ?l (qs p)"
        using D(4) [OF p] True unfolding tm queue_ok_upd_other [OF out] by simp
      then have "queue_ok (tmap ?e') ?l' (t # qs p)"
        using out dom by (intro queue_ok_push) (auto simp: ts1(3) ts2(3))
      then show ?thesis
        using True D(2) D(5) [OF p] t vq unfolding tm by (auto simp: ready_upd)
    next
      case False
      then show ?thesis
        using D(2) D(4,5) [OF p] out t vq p unfolding tm by (auto simp: queue_ok_upd_other ready_upd)
    qed
  qed
  moreover have "valid_queue (queue_of (affinity y))" if "tmap ?e' s = Some y" for s y
    using that D(3) t(1) unfolding tm by (auto split: if_splits)
  ultimately have "queues_inv ?e' (X - {t}) (qs(?q := t # qs ?q))"
    unfolding queues_inv_def using ts2(2) D(2) by auto
  then show ?thesis using that [OF eq] tm by auto
qed


text \<open>\<open>pop_task\<close> takes the front of a queue out of the executor.\<close>

lemma pop_task_ok:
  assumes q: "queues_inv e X qs" and vq: "valid_queue q" and ts: "qs q = t # xs"
  obtains x e' where "pop_task q e = Inr (x, e')" "tmap e t = Some x" "num_unmet_dependencies x = 0"
    "queue_of (affinity x) = q" "queues_inv e' X (qs(q := xs))" "tmap e' = (tmap e)(t := None)"
    "dependents e' = dependents e" "closed e' = closed e" "next_stamp e' = next_stamp e"
proof -
  let ?l = "queue_at e q"
  note D = queues_invD [OF q]
  have mem: "s \<noteq> INVALID_TASK \<and> s \<in> ready (tmap e) q" if "s \<in> set (qs q)" for s
    using that D(5) [OF vq] sv_lookup_INVALID_TASK [OF D(1)] by (auto simp: ready_def)
  then obtain x where x: "tmap e t = Some x" "num_unmet_dependencies x = 0" "queue_of (affinity x) = q"
    using ts by (auto simp: ready_def)
  have ok: "queue_ok (tmap e) ?l (t # xs)" using D(4) [OF vq] ts by simp
  have no: "INVALID_TASK \<notin> set xs" using mem ts by auto
  note pop = queue_ok_pop [OF ok no]
  let ?n = "next_in_list x"
  let ?l' = "\<lparr>front = ?n, back = (if ?n = INVALID_TASK then INVALID_TASK else back ?l)\<rparr>"
  have get: "sv_get task_bits (tasks e) t = Inr x" using sv.get_ok [OF D(1) x(1)] .
  obtain es where es: "sv_erase task_bits (tasks e) t = Inr es" "sv_inv task_bits es"
    "sv_lookup task_bits es = (tmap e)(t := None)" by (rule sv.eraseE [OF D(1) x(1)])
  let ?e' = "set_queue q ?l' (e\<lparr>tasks := es\<rparr>)"
  have ne: "front ?l \<noteq> INVALID_TASK \<and> back ?l \<noteq> INVALID_TASK"
    using queue_ok_front_ne [OF D(4) [OF vq]] ts mem sv_lookup_INVALID_TASK [OF D(1)]
    by (fastforce simp: ready_def)
  have eq: "pop_task q e = Inr (x, ?e')"
    using ne pop(1) by (simp add: pop_task_def get_queue_valid vq D(2) get es(1) Let_def)
  have tm: "tmap ?e' = (tmap e)(t := None)" using es(3) by simp
  have "queue_ok (tmap ?e') (queue_at ?e' p) ((qs(q := xs)) p) \<and>
      set ((qs(q := xs)) p) = ready (tmap ?e') p - X" if p: "valid_queue p" for p
  proof (cases "p = q")
    case True
    have "queue_ok (tmap ?e') ?l' xs"
      unfolding tm queue_ok_upd_other [OF pop(2)] using pop(3) x(1) by simp
    moreover have "set xs = ready (tmap ?e') q - X"
      using D(5) [OF vq] ts pop(2) unfolding tm ready_del by auto
    ultimately show ?thesis using True D(2) p by simp
  next
    case False
    have out: "t \<notin> set (qs p)" using D(5) [OF p] x False by (auto simp: ready_def)
    have "ready (tmap ?e') p = ready (tmap e) p"
      using x False unfolding tm by (auto simp: ready_def)
    then show ?thesis
      using D(4,5) [OF p] False D(2) p vq unfolding tm by (simp add: queue_ok_upd_other [OF out])
  qed
  moreover have "valid_queue (queue_of (affinity y))" if "tmap ?e' s = Some y" for s y
    using that D(3) unfolding tm by (auto split: if_splits)
  ultimately have "queues_inv ?e' X (qs(q := xs))"
    unfolding queues_inv_def using es(2) D(2) by auto
  then show ?thesis using that [OF eq] x tm by auto
qed

subsection \<open>Dependency lists\<close>

text \<open>A dependent list is owned by the task whose completion it waits for: a task still in the
  executor, or one that a worker thread has popped.\<close>

datatype owner = Waiting task_id | Running nat

type_synonym 'c running = "nat \<Rightarrow> (task_id \<times> 'c task) option"

fun owns :: "(task_id \<Rightarrow> 'c task option) \<Rightarrow> 'c running \<Rightarrow> owner \<Rightarrow> dependent_id option" where
  "owns T run (Waiting t) = map_option first_dependent (T t)"
| "owns T run (Running j) = map_option (\<lambda>(t, x). first_dependent x) (run j)"

definition lists_ok :: "(owner \<Rightarrow> dependent_id option) \<Rightarrow> (dependent_id \<Rightarrow> dependent option) \<Rightarrow>
    (owner \<Rightarrow> dependent_id list) \<Rightarrow> bool" where
  "lists_ok h D own \<longleftrightarrow>
     (\<forall>w. case h w of None \<Rightarrow> own w = []
       | Some p \<Rightarrow> linked (\<lambda>d. next_dependent (the (D d))) p (own w) INVALID_DEPENDENT) \<and>
     (\<forall>w. distinct (own w)) \<and>
     (\<forall>w w'. w \<noteq> w' \<longrightarrow> set (own w) \<inter> set (own w') = {}) \<and>
     (\<Union>w. set (own w)) = dom D"

definition count_ok :: "(task_id \<Rightarrow> 'c task option) \<Rightarrow> (dependent_id \<Rightarrow> dependent option) \<Rightarrow> bool" where
  "count_ok T D \<longleftrightarrow>
     (\<forall>t x. T t = Some x \<longrightarrow>
        unat (num_unmet_dependencies x) = card {d. map_option from_task (D d) = Some t}) \<and>
     (\<forall>d y. D d = Some y \<longrightarrow> T (from_task y) \<noteq> None)"

definition rank_ok :: "(dependent_id \<Rightarrow> dependent option) \<Rightarrow> (owner \<Rightarrow> dependent_id list) \<Rightarrow>
    (task_id \<Rightarrow> nat) \<Rightarrow> bool" where
  "rank_ok D own rank \<longleftrightarrow> (\<forall>t d. d \<in> set (own (Waiting t)) \<longrightarrow> rank t < rank (from_task (the (D d))))"

definition deps_inv :: "'c executor \<Rightarrow> 'c running \<Rightarrow> (owner \<Rightarrow> dependent_id list) \<Rightarrow> (task_id \<Rightarrow> nat) \<Rightarrow> bool" where
  "deps_inv e run own rank \<longleftrightarrow> sv_inv dependent_bits (dependents e) \<and>
     lists_ok (owns (tmap e) run) (dmap e) own \<and> count_ok (tmap e) (dmap e) \<and> rank_ok (dmap e) own rank"

definition exec_inv :: "'c executor \<Rightarrow> 'c running \<Rightarrow> (queue_ref \<Rightarrow> task_id list) \<Rightarrow>
    (owner \<Rightarrow> dependent_id list) \<Rightarrow> (task_id \<Rightarrow> nat) \<Rightarrow> bool" where
  "exec_inv e run qs own rank \<longleftrightarrow> queues_inv e {} qs \<and> deps_inv e run own rank"

text \<open>The dependencies that are still open: who waits for whom.\<close>

definition edges :: "(dependent_id \<Rightarrow> dependent option) \<Rightarrow> (owner \<Rightarrow> dependent_id list) \<Rightarrow> (owner \<times> task_id) set" where
  "edges D own = {(w, from_task (the (D d))) | w d. d \<in> set (own w)}"

subsection \<open>How the dependency lists change\<close>

lemma lists_okD:
  assumes "lists_ok h D own"
  shows "h w = None \<Longrightarrow> own w = []"
    "h w = Some p \<Longrightarrow> linked (\<lambda>d. next_dependent (the (D d))) p (own w) INVALID_DEPENDENT"
    "distinct (own w)" "w \<noteq> w' \<Longrightarrow> set (own w) \<inter> set (own w') = {}" "(\<Union>w. set (own w)) = dom D"
    "d \<in> set (own w) \<Longrightarrow> \<exists>y. D d = Some y"
proof -
  note * = assms [unfolded lists_ok_def]
  show "h w = None \<Longrightarrow> own w = []"
    "h w = Some p \<Longrightarrow> linked (\<lambda>d. next_dependent (the (D d))) p (own w) INVALID_DEPENDENT"
    using * by (auto split: option.splits dest: spec [where x = w])
  show "distinct (own w)" "w \<noteq> w' \<Longrightarrow> set (own w) \<inter> set (own w') = {}" and u: "(\<Union>w. set (own w)) = dom D"
    using * by blast+
  show "d \<in> set (own w) \<Longrightarrow> \<exists>y. D d = Some y"
    using u by blast
qed

lemma lists_okI:
  assumes "\<And>w. h w = None \<Longrightarrow> own w = []"
    "\<And>w p. h w = Some p \<Longrightarrow> linked (\<lambda>d. next_dependent (the (D d))) p (own w) INVALID_DEPENDENT"
    "\<And>w. distinct (own w)" "\<And>w w'. w \<noteq> w' \<Longrightarrow> set (own w) \<inter> set (own w') = {}"
    "(\<Union>w. set (own w)) = dom D"
  shows "lists_ok h D own"
  unfolding lists_ok_def using assms by (auto split: option.split)

lemma linked_deps_upd:
  assumes "d \<notin> set xs"
  shows "linked (\<lambda>e. next_dependent (the (if e = d then y else D e))) p xs r =
    linked (\<lambda>e. next_dependent (the (D e))) p xs r"
  by (rule linked_cong [where f = "\<lambda>e. next_dependent (the (if e = d then y else D e))"])
    (use assms in auto)

lemma UN_own_upd:
  "(\<Union>v. set ((own(w := xs)) v)) = set xs \<union> (\<Union>v \<in> - {w}. set (own v))"
  by (auto split: if_splits)

lemma lists_ok_take:
  assumes ok: "lists_ok h D own" and w: "own w = d # ds" and y: "D d = Some y"
  shows "h w = Some d" "lists_ok (h(w \<mapsto> next_dependent y)) (D(d := None)) (own(w := ds))"
proof -
  note D = lists_okD [OF ok]
  obtain p where p: "h w = Some p" using D(1) [of w] w by (cases "h w") auto
  have link: "p = d" "linked (\<lambda>d. next_dependent (the (D d))) (next_dependent y) ds INVALID_DEPENDENT"
    using D(2) [OF p] w y by auto
  show "h w = Some d" using p link by simp
  have out: "d \<notin> set ds" "\<And>w'. w' \<noteq> w \<Longrightarrow> d \<notin> set (own w')"
    using D(3) [of w] D(4) [of w] w by fastforce+
  show "lists_ok (h(w \<mapsto> next_dependent y)) (D(d := None)) (own(w := ds))"
  proof (rule lists_okI)
    show "(h(w \<mapsto> next_dependent y)) v = None \<Longrightarrow> (own(w := ds)) v = []" for v
      using D(1) [of v] by (auto split: if_splits)
    show "linked (\<lambda>e. next_dependent (the ((D(d := None)) e))) q ((own(w := ds)) v) INVALID_DEPENDENT"
      if "(h(w \<mapsto> next_dependent y)) v = Some q" for v q
      using that link(2) D(2) [of v q] out
      by (cases "v = w") (auto simp: linked_deps_upd)
    show "distinct ((own(w := ds)) v)" for v
      using D(3) [of v] D(3) [of w] w by auto
    show "v \<noteq> v' \<Longrightarrow> set ((own(w := ds)) v) \<inter> set ((own(w := ds)) v') = {}" for v v'
      using D(4) [of v v'] w by (auto split: if_splits)
    have "(\<Union>v. set (own v)) = dom D" by (rule D(5))
    moreover have "(\<Union>v. set (own v)) = insert d (\<Union>v. set ((own(w := ds)) v))"
      unfolding UN_own_upd [of own w ds] UN_own_upd [of own w "own w", simplified] w by simp
    moreover have "d \<notin> (\<Union>v. set ((own(w := ds)) v))"
      using out by (auto split: if_splits)
    ultimately show "(\<Union>v. set ((own(w := ds)) v)) = dom (D(d := None))" by auto
  qed
qed

lemma lists_ok_push:
  assumes ok: "lists_ok h D own" and w: "h w = Some p" and d: "D d = None" and y: "next_dependent y = p"
  shows "lists_ok (h(w \<mapsto> d)) (D(d \<mapsto> y)) (own(w := d # own w))"
proof (rule lists_okI)
  note D = lists_okD [OF ok]
  have out: "d \<notin> set (own v)" for v using D(6) [of d v] d by auto
  show "(h(w \<mapsto> d)) v = None \<Longrightarrow> (own(w := d # own w)) v = []" for v
    using D(1) [of v] by (auto split: if_splits)
  show "linked (\<lambda>e. next_dependent (the ((D(d \<mapsto> y)) e))) q ((own(w := d # own w)) v) INVALID_DEPENDENT"
    if "(h(w \<mapsto> d)) v = Some q" for v q
  proof (cases "v = w")
    case True
    then have "q = d" using that by simp
    then show ?thesis unfolding True using D(2) [OF w] y by (simp add: linked_deps_upd [OF out])
  next
    case False
    then show ?thesis using that D(2) [of v q] by (simp add: linked_deps_upd [OF out])
  qed
  show "distinct ((own(w := d # own w)) v)" for v using D(3) out by auto
  show "v \<noteq> v' \<Longrightarrow> set ((own(w := d # own w)) v) \<inter> set ((own(w := d # own w)) v') = {}" for v v'
    using D(4) [of v v'] out by auto
  have "(\<Union>v. set ((own(w := d # own w)) v)) = insert d (\<Union>v. set (own v))"
    by (auto split: if_splits)
  then show "(\<Union>v. set ((own(w := d # own w)) v)) = dom (D(d \<mapsto> y))" by (simp add: D(5))
qed

lemma lists_ok_transfer:
  assumes ok: "lists_ok h D own" and w: "h w = Some p" "h w' = None"
  shows "lists_ok (h(w := None, w' \<mapsto> p)) D (own(w := [], w' := own w))"
proof (rule lists_okI)
  note D = lists_okD [OF ok]
  have e: "own w' = []" using D(1) w(2) .
  have ne: "w' \<noteq> w" using w by auto
  let ?own = "own(w := [], w' := own w)"
  show "(h(w := None, w' \<mapsto> p)) v = None \<Longrightarrow> ?own v = []" for v
    using D(1) [of v] by (auto split: if_splits)
  show "(h(w := None, w' \<mapsto> p)) v = Some q \<Longrightarrow>
    linked (\<lambda>d. next_dependent (the (D d))) q (?own v) INVALID_DEPENDENT" for v q
    using D(2) [of v q] D(2) [OF w(1)] by (auto split: if_splits)
  show "distinct (?own v)" for v using D(3) by simp
  show "v \<noteq> v' \<Longrightarrow> set (?own v) \<inter> set (?own v') = {}" for v v'
    using D(4) [of v v'] D(4) [of w v'] D(4) [of v w] e by auto
  have "(\<Union>v. set (?own v)) = (\<Union>v. set (own v))"
  proof (rule set_eqI)
    fix x
    have "x \<in> set (?own v) \<Longrightarrow> \<exists>v. x \<in> set (own v)" for v
      by (cases "v = w'"; cases "v = w") auto
    moreover have "\<exists>v'. x \<in> set (?own v')" if "x \<in> set (own v)" for v
    proof (cases "v = w")
      case True
      then show ?thesis using that by (intro exI [of _ w']) simp
    next
      case False
      then show ?thesis using that e by (intro exI [of _ v]) auto
    qed
    ultimately show "x \<in> (\<Union>v. set (?own v)) \<longleftrightarrow> x \<in> (\<Union>v. set (own v))" by blast
  qed
  then show "(\<Union>v. set (?own v)) = dom D" by (simp add: D(5))
qed

lemma lists_ok_add_owner:
  "lists_ok h D own \<Longrightarrow> h w = None \<Longrightarrow> lists_ok (h(w \<mapsto> INVALID_DEPENDENT)) D own"
  by (rule lists_okI) (auto dest: lists_okD split: if_splits)

lemma lists_ok_drop_owner:
  "lists_ok h D own \<Longrightarrow> own w = [] \<Longrightarrow> lists_ok (h(w := None)) D own"
  by (rule lists_okI) (auto dest: lists_okD split: if_splits)

lemma owns_upd [simp]:
  "owns (T(t \<mapsto> x)) run = (owns T run)(Waiting t \<mapsto> first_dependent x)"
  "owns (T(t := None)) run = (owns T run)(Waiting t := None)"
  "owns T (run(j \<mapsto> (t, x))) = (owns T run)(Running j \<mapsto> first_dependent x)"
  "owns T (run(j := None)) = (owns T run)(Running j := None)"
  by (rule ext, rename_tac w, case_tac w; simp)+

subsection \<open>How the counters change\<close>

lemma count_okD:
  assumes "count_ok T D"
  shows "T t = Some x \<Longrightarrow> unat (num_unmet_dependencies x) = card {d. map_option from_task (D d) = Some t}"
    "D d = Some y \<Longrightarrow> T (from_task y) \<noteq> None"
  using assms by (auto simp: count_ok_def)

lemma waiting_subset: "{d. map_option from_task (D d) = Some t} \<subseteq> dom D"
  by auto

lemma count_ok_take:
  assumes ok: "count_ok T D" and fin: "finite (dom D)" and d: "D d = Some y" "from_task y = t"
    and t: "T t = Some x" "num_unmet_dependencies x' = num_unmet_dependencies x - 1"
  shows "num_unmet_dependencies x \<noteq> 0" "count_ok (T(t \<mapsto> x')) (D(d := None))"
proof -
  note C = count_okD [OF ok]
  let ?W = "\<lambda>t. {d. map_option from_task (D d) = Some t}"
  have fW: "finite (?W u)" for u using fin waiting_subset by (rule finite_subset [rotated])
  have mem: "d \<in> ?W t" using d by simp
  then have pos: "card (?W t) > 0" using fW card_gt_0_iff by blast
  show nz: "num_unmet_dependencies x \<noteq> 0" using C(1) [OF t(1)] pos by (metis less_irrefl unat_0)
  have "{e. map_option from_task ((D(d := None)) e) = Some u} = ?W u - {d}" for u
    by auto
  moreover have "unat (num_unmet_dependencies x') = card (?W t - {d})"
    using C(1) [OF t(1)] nz t(2) mem fW by (simp add: unat_minus_one)
  moreover have "?W u - {d} = ?W u" if "u \<noteq> t" for u using d that by auto
  ultimately show "count_ok (T(t \<mapsto> x')) (D(d := None))"
    using C t(1) unfolding count_ok_def by (auto simp: fun_upd_apply)
qed

lemma count_ok_push:
  assumes ok: "count_ok T D" and fin: "finite (dom D)" "card (dom D) < 2 ^ 16 - 1"
    and d: "D d = None" "from_task y = t"
    and t: "T t = Some x" "num_unmet_dependencies x' = num_unmet_dependencies x + 1"
  shows "count_ok (T(t \<mapsto> x')) (D(d \<mapsto> y))" "num_unmet_dependencies x' \<noteq> 0"
proof -
  note C = count_okD [OF ok]
  let ?W = "\<lambda>t. {d. map_option from_task (D d) = Some t}"
  have fW: "finite (?W u)" for u using fin(1) waiting_subset by (rule finite_subset [rotated])
  have "card (?W t) \<le> card (dom D)" using fin(1) waiting_subset by (rule card_mono)
  then have n: "unat (num_unmet_dependencies x') = Suc (card (?W t))"
    using C(1) [OF t(1)] t(2) fin(2) by (simp add: unat_word_ariths)
  then show "num_unmet_dependencies x' \<noteq> 0" by auto
  have W: "{e. map_option from_task ((D(d \<mapsto> y)) e) = Some u} = (if u = t then insert d (?W u) else ?W u)" for u
    using d by auto
  have out: "d \<notin> ?W t" using d by simp
  show "count_ok (T(t \<mapsto> x')) (D(d \<mapsto> y))"
    unfolding count_ok_def W using C t(1) n fW out d(2) by auto
qed

lemma count_ok_same:
  "count_ok T D \<Longrightarrow> T t = Some x \<Longrightarrow> num_unmet_dependencies x' = num_unmet_dependencies x \<Longrightarrow>
    count_ok (T(t \<mapsto> x')) D"
  by (auto simp: count_ok_def)

lemma count_ok_new:
  assumes ok: "count_ok T D" and t: "T t = None" "num_unmet_dependencies x = 0"
  shows "count_ok (T(t \<mapsto> x)) D"
proof -
  have none: "{d. map_option from_task (D d) = Some t} = {}" using t(1) by (auto dest: count_okD(2) [OF ok])
  show ?thesis unfolding count_ok_def
  proof (intro conjI allI impI)
    fix u y assume "(T(t \<mapsto> x)) u = Some y"
    then show "unat (num_unmet_dependencies y) = card {d. map_option from_task (D d) = Some u}"
      using none t(2) count_okD(1) [OF ok, of u y] by (cases "u = t") auto
  next
    fix d y assume "D d = Some y"
    then show "(T(t \<mapsto> x)) (from_task y) \<noteq> None" using count_okD(2) [OF ok] by auto
  qed
qed

lemma count_ok_zero:
  assumes ok: "count_ok T D" and fin: "finite (dom D)" and t: "T t = Some x" "num_unmet_dependencies x = 0"
    and d: "D d = Some y"
  shows "from_task y \<noteq> t"
proof -
  have "finite {d. map_option from_task (D d) = Some t}"
    using fin waiting_subset by (rule finite_subset [rotated])
  then show ?thesis using count_okD(1) [OF ok t(1)] t(2) d by auto
qed

lemma count_ok_pop:
  assumes ok: "count_ok T D" and fin: "finite (dom D)" and t: "T t = Some x" "num_unmet_dependencies x = 0"
  shows "count_ok (T(t := None)) D"
  using count_okD [OF ok] count_ok_zero [OF ok fin t] unfolding count_ok_def by (auto simp: fun_upd_apply)

subsection \<open>Signalling a finished task\<close>

lemma deps_inv_finite: "deps_inv e run own rank \<Longrightarrow> finite (dom (dmap e))"
  by (simp add: deps_inv_def sv.finite_lookup)

lemma owns_put: "T t = Some x \<Longrightarrow> first_dependent y = first_dependent x \<Longrightarrow> owns (T(t \<mapsto> y)) run = owns T run"
  by (rule ext, rename_tac w, case_tac w) auto

lemma decrement_ok:
  assumes Q: "queues_inv e {} qs" and t: "tmap e t = Some z" and nz: "num_unmet_dependencies z \<noteq> 0"
    and ts: "sv_inv task_bits ts"
      "sv_lookup task_bits ts = (tmap e)(t \<mapsto> z\<lparr>num_unmet_dependencies := num_unmet_dependencies z - 1\<rparr>)"
  obtains e1 qs' where "(if num_unmet_dependencies z - 1 = 0 then schedule t (e\<lparr>tasks := ts\<rparr>) else Inr (e\<lparr>tasks := ts\<rparr>)) = Inr e1"
    "queues_inv e1 {} qs'" "dependents e1 = dependents e" "closed e1 = closed e"
    "\<exists>z'. tmap e1 = (tmap e)(t \<mapsto> z') \<and> first_dependent z' = first_dependent z \<and>
       num_unmet_dependencies z' = num_unmet_dependencies z - 1 \<and> affinity z' = affinity z \<and> closure z' = closure z"
proof (cases "num_unmet_dependencies z - 1 = 0")
  case True
  let ?z = "z\<lparr>num_unmet_dependencies := num_unmet_dependencies z - 1\<rparr>"
  have q1: "queues_inv (e\<lparr>tasks := ts\<rparr>) {t} qs"
    by (rule queues_inv_put [OF Q t ts]) (use nz in auto)
  have t1: "tmap (e\<lparr>tasks := ts\<rparr>) t = Some ?z" using ts(2) by simp
  have n1: "num_unmet_dependencies ?z = 0" using True by simp
  obtain e2 where e2: "schedule t (e\<lparr>tasks := ts\<rparr>) = Inr e2"
    "queues_inv e2 ({t} - {t}) (qs(queue_of (affinity ?z) := t # qs (queue_of (affinity ?z))))"
    "tmap e2 = (tmap (e\<lparr>tasks := ts\<rparr>))(t \<mapsto> ?z\<lparr>stamp := next_stamp (e\<lparr>tasks := ts\<rparr>),
       next_in_list := front (queue_at (e\<lparr>tasks := ts\<rparr>) (queue_of (affinity ?z)))\<rparr>)"
    "dependents e2 = dependents (e\<lparr>tasks := ts\<rparr>)" "closed e2 = closed (e\<lparr>tasks := ts\<rparr>)"
    by (rule schedule_ok [OF q1 t1 n1 singletonI])
  show thesis
    by (rule that [of e2 "qs(queue_of (affinity ?z) := t # qs (queue_of (affinity ?z)))"])
      (use True e2 ts(2) in auto)
next
  case False
  have "queues_inv (e\<lparr>tasks := ts\<rparr>) {} qs"
    by (rule queues_inv_put [OF Q t ts]) (use nz False in auto)
  then show thesis
    by (intro that [of "e\<lparr>tasks := ts\<rparr>" qs]) (use False ts(2) in auto)
qed

lemma signal_dependent_ok:
  assumes inv: "exec_inv e run qs own rank" and own: "own (Running j) = d # ds" and j: "run j = Some (u, x)"
  obtains y e' qs' where "dmap e d = Some y" "first_dependent x = d"
    "signal_dependent d e = Inr (next_dependent y, e')"
    "exec_inv e' (run(j \<mapsto> (u, x\<lparr>first_dependent := next_dependent y\<rparr>))) qs' (own(Running j := ds)) rank"
    "dmap e' = (dmap e)(d := None)" "dom (tmap e') = dom (tmap e)" "closed e' = closed e"
    "\<And>t. map_option affinity (tmap e' t) = map_option affinity (tmap e t)"
    "\<And>t. map_option closure (tmap e' t) = map_option closure (tmap e t)"
proof -
  have Q: "queues_inv e {} qs" and dinv: "sv_inv dependent_bits (dependents e)"
    and ok: "lists_ok (owns (tmap e) run) (dmap e) own" and cnt: "count_ok (tmap e) (dmap e)"
    and rk: "rank_ok (dmap e) own rank"
    using inv by (auto simp: exec_inv_def deps_inv_def)
  note tinv = queues_invD(1) [OF Q]
  have fin: "finite (dom (dmap e))" using dinv by (rule sv.finite_lookup)
  obtain y where y: "dmap e d = Some y" using lists_okD(6) [OF ok, of d "Running j"] own by auto
  obtain t z where t: "from_task y = t" "tmap e t = Some z" using count_okD(2) [OF cnt y] by auto
  note take = lists_ok_take [OF ok own y]
  have fd: "first_dependent x = d" using take(1) j by simp
  let ?n = "num_unmet_dependencies z - 1"
  let ?z = "z\<lparr>num_unmet_dependencies := ?n\<rparr>"
  have nz: "num_unmet_dependencies z \<noteq> 0" and cnt': "count_ok ((tmap e)(t \<mapsto> ?z)) ((dmap e)(d := None))"
    using count_ok_take [OF cnt fin y t(1,2), of ?z] by auto
  obtain ts where ts: "sv_put task_bits (tasks e) t ?z = Inr ts" "sv_inv task_bits ts"
    "sv_lookup task_bits ts = (tmap e)(t \<mapsto> ?z)" by (rule sv.putE [OF tinv t(2)])
  obtain es where es: "sv_erase dependent_bits (dependents e) d = Inr es" "sv_inv dependent_bits es"
    "sv_lookup dependent_bits es = (dmap e)(d := None)" by (rule sv.eraseE [OF dinv y])
  let ?run = "run(j \<mapsto> (u, x\<lparr>first_dependent := next_dependent y\<rparr>))"
  let ?own = "own(Running j := ds)"
  have rank: "rank_ok ((dmap e)(d := None)) ?own rank"
    unfolding rank_ok_def
  proof (intro allI impI)
    fix v c assume c: "c \<in> set (?own (Waiting v))"
    have "set (own (Waiting v)) \<inter> set (own (Running j)) = {}" by (rule lists_okD(4) [OF ok]) simp
    moreover have "c \<in> set (own (Waiting v))" using c by simp
    moreover have "d \<in> set (own (Running j))" unfolding own by simp
    ultimately have "c \<noteq> d" by (metis IntI empty_iff)
    then show "rank v < rank (from_task (the (((dmap e)(d := None)) c)))"
      using rk c by (simp add: rank_ok_def)
  qed
  obtain e1 qs' where e1: "(if ?n = 0 then schedule t (e\<lparr>tasks := ts\<rparr>) else Inr (e\<lparr>tasks := ts\<rparr>)) = Inr e1"
    "queues_inv e1 {} qs'" "dependents e1 = dependents e" "closed e1 = closed e"
    "\<exists>z'. tmap e1 = (tmap e)(t \<mapsto> z') \<and> first_dependent z' = first_dependent z \<and>
       num_unmet_dependencies z' = ?n \<and> affinity z' = affinity z \<and> closure z' = closure z"
    by (rule decrement_ok [OF Q t(2) nz ts(2,3)]) (rule that)
  let ?e' = "e1\<lparr>dependents := es\<rparr>"
  obtain z' where z': "tmap e1 = (tmap e)(t \<mapsto> z')" "first_dependent z' = first_dependent z"
     "num_unmet_dependencies z' = ?n" "affinity z' = affinity z" "closure z' = closure z" using e1(5) by blast
  have eq: "signal_dependent d e = Inr (next_dependent y, ?e')"
    unfolding signal_dependent_def sv.get_ok [OF dinv y] bind_res_Inr t(1) sv.get_ok [OF tinv t(2)]
      Let_def ts(1) e1(1,3) es(1) using nz by simp
  have "queues_inv ?e' {} qs'" using e1(2) by (simp add: queues_inv_def)
  moreover have "deps_inv ?e' ?run ?own rank"
  proof -
    have "(owns (tmap e) run)(Waiting t \<mapsto> first_dependent z) = owns (tmap e) run"
      using t(2) by (intro fun_upd_idem) simp
    then have "lists_ok (owns (tmap ?e') ?run) (dmap ?e') ?own"
      using take(2) es(3) z'(1,2) by simp
    moreover have "count_ok (tmap ?e') (dmap ?e')"
      using count_ok_same [OF cnt', of t ?z z'] z'(1,3) es(3) by simp
    ultimately show ?thesis using es(2,3) rank by (simp add: deps_inv_def)
  qed
  ultimately have "exec_inv ?e' ?run qs' ?own rank" by (simp add: exec_inv_def)
  then show ?thesis
    by (rule that [OF y fd eq]) (use es(3) z' t(2) e1(4) in \<open>auto simp: dom_def\<close>)
qed

lemma edges_drop:
  assumes ok: "lists_ok h D own"
  shows "edges (D |` (- set (own w))) (own(w := [])) = {(v, t) \<in> edges D own. v \<noteq> w}"
proof -
  have "(D |` (- set (own w))) d = D d" if "d \<in> set (own v)" "v \<noteq> w" for d v
    using lists_okD(4) [OF ok that(2)] that(1) by (auto simp: restrict_map_def)
  note restr = this
  show ?thesis
  proof (rule set_eqI)
    fix p :: "owner \<times> task_id"
    obtain v t where p: "p = (v, t)" by (cases p)
    show "p \<in> edges (D |` (- set (own w))) (own(w := [])) \<longleftrightarrow> p \<in> {(v, t) \<in> edges D own. v \<noteq> w}"
    proof (cases "v = w")
      case True
      then show ?thesis by (auto simp: p edges_def)
    next
      case False
      have "(\<exists>d. d \<in> set (own v) \<and> t = from_task (the ((D |` (- set (own w))) d))) \<longleftrightarrow>
          (\<exists>d. d \<in> set (own v) \<and> t = from_task (the (D d)))"
        using restr [OF _ False] by metis
      then show ?thesis using False by (auto simp: p edges_def)
    qed
  qed
qed

lemma signal_loop_ok:
  assumes "exec_inv e run qs own rank" "own (Running j) = ds" "run j = Some (u, x)" "d = first_dependent x"
  shows "\<exists>e' qs'. signal_loop d e = Some (Inr e') \<and>
    exec_inv e' (run(j := None)) qs' (own(Running j := [])) rank \<and>
    dmap e' = dmap e |` (- set ds) \<and> dom (tmap e') = dom (tmap e) \<and> closed e' = closed e \<and>
    (\<forall>t. map_option affinity (tmap e' t) = map_option affinity (tmap e t)) \<and>
    (\<forall>t. map_option closure (tmap e' t) = map_option closure (tmap e t))"
  using assms
proof (induction ds arbitrary: e run qs own x d)
  case Nil
  then have ok: "lists_ok (owns (tmap e) run) (dmap e) own" by (simp add: exec_inv_def deps_inv_def)
  have "linked (\<lambda>d. next_dependent (the (dmap e d))) (first_dependent x) [] INVALID_DEPENDENT"
    using lists_okD(2) [OF ok, of "Running j" "first_dependent x"] Nil.prems(2,3) by simp
  then have "d = INVALID_DEPENDENT" using Nil.prems(4) by simp
  moreover have "exec_inv e (run(j := None)) qs (own(Running j := [])) rank"
    using Nil.prems(1,2) lists_ok_drop_owner [OF ok, of "Running j"]
    by (simp add: exec_inv_def deps_inv_def fun_upd_idem)
  moreover have "dmap e = dmap e |` (- set [])" by (simp add: restrict_map_def)
  ultimately show ?case
    by (intro exI [of _ e] exI [of _ qs]) (simp add: signal_loop.simps del: fun_upd_apply)
next
  case (Cons a ds)
  note inv = Cons.prems(1) and own = Cons.prems(2) and j = Cons.prems(3)
  obtain y e1 qs1 where s: "dmap e a = Some y" "first_dependent x = a"
    "signal_dependent a e = Inr (next_dependent y, e1)"
    "exec_inv e1 (run(j \<mapsto> (u, x\<lparr>first_dependent := next_dependent y\<rparr>))) qs1 (own(Running j := ds)) rank"
    "dmap e1 = (dmap e)(a := None)" "dom (tmap e1) = dom (tmap e)" "closed e1 = closed e"
    "\<And>t. map_option affinity (tmap e1 t) = map_option affinity (tmap e t)"
    "\<And>t. map_option closure (tmap e1 t) = map_option closure (tmap e t)"
    using signal_dependent_ok [OF inv own j] by metis
  have "sv_inv dependent_bits (dependents e)" using inv by (simp add: exec_inv_def deps_inv_def)
  then have ne: "a \<noteq> INVALID_DEPENDENT" using s(1) sv_lookup_INVALID_DEPENDENT by fastforce
  have "\<exists>e' qs'. signal_loop (next_dependent y) e1 = Some (Inr e') \<and>
    exec_inv e' ((run(j \<mapsto> (u, x\<lparr>first_dependent := next_dependent y\<rparr>)))(j := None)) qs'
      ((own(Running j := ds))(Running j := [])) rank \<and>
    dmap e' = dmap e1 |` (- set ds) \<and> dom (tmap e') = dom (tmap e1) \<and> closed e' = closed e1 \<and>
    (\<forall>t. map_option affinity (tmap e' t) = map_option affinity (tmap e1 t)) \<and>
    (\<forall>t. map_option closure (tmap e' t) = map_option closure (tmap e1 t))"
    by (rule Cons.IH [OF s(4)]) auto
  then obtain e' qs' where r: "signal_loop (next_dependent y) e1 = Some (Inr e')"
    "exec_inv e' (run(j := None)) qs' (own(Running j := [])) rank"
    "dmap e' = dmap e1 |` (- set ds)" "dom (tmap e') = dom (tmap e1)" "closed e' = closed e1"
    "\<forall>t. map_option affinity (tmap e' t) = map_option affinity (tmap e1 t)"
    "\<forall>t. map_option closure (tmap e' t) = map_option closure (tmap e1 t)" by auto
  have "signal_loop d e = Some (Inr e')"
    using r(1) s(2,3) ne Cons.prems(4) by (simp add: signal_loop.simps [of a])
  moreover have "dmap e' = dmap e |` (- set (a # ds))"
    unfolding r(3) s(5) by (auto simp: restrict_map_def fun_eq_iff)
  ultimately show ?case using r(2,4-7) s(6-9) by metis
qed

lemma signal_dependents_inv:
  assumes inv: "exec_inv e run qs own rank" and j: "run j = Some (u, x)"
  obtains e' qs' where "signal_dependents x e = Some (Inr e')"
    "exec_inv e' (run(j := None)) qs' (own(Running j := [])) rank"
    "edges (dmap e') (own(Running j := [])) = {(v, t) \<in> edges (dmap e) own. v \<noteq> Running j}"
    "dom (tmap e') = dom (tmap e)" "closed e' = closed e"
    "\<And>t. map_option affinity (tmap e' t) = map_option affinity (tmap e t)"
    "\<And>t. map_option closure (tmap e' t) = map_option closure (tmap e t)"
    "dmap e' = dmap e |` (- set (own (Running j)))"
proof -
  have ok: "lists_ok (owns (tmap e) run) (dmap e) own" using inv by (simp add: exec_inv_def deps_inv_def)
  from signal_loop_ok [OF inv refl j refl] obtain e' qs' where
    "signal_loop (first_dependent x) e = Some (Inr e')"
    "exec_inv e' (run(j := None)) qs' (own(Running j := [])) rank"
    "dmap e' = dmap e |` (- set (own (Running j)))" "dom (tmap e') = dom (tmap e)" "closed e' = closed e"
    "\<forall>t. map_option affinity (tmap e' t) = map_option affinity (tmap e t)"
    "\<forall>t. map_option closure (tmap e' t) = map_option closure (tmap e t)" by blast
  then show ?thesis using that edges_drop [OF ok, of "Running j"] by (simp add: signal_dependents_def)
qed

subsection \<open>Popping a task\<close>

lemma pop_inv:
  assumes inv: "exec_inv e run qs own rank" and vq: "valid_queue q" and ts: "qs q = t # xs" and j: "run j = None"
  obtains x e' where "pop_task q e = Inr (x, e')" "tmap e t = Some x" "queue_of (affinity x) = q"
    "exec_inv e' (run(j \<mapsto> (t, x))) (qs(q := xs)) (own(Waiting t := [], Running j := own (Waiting t))) rank"
    "tmap e' = (tmap e)(t := None)" "dmap e' = dmap e" "closed e' = closed e"
    "\<forall>v. (v, t) \<notin> edges (dmap e) own"
proof -
  have Q: "queues_inv e {} qs" and dinv: "sv_inv dependent_bits (dependents e)"
    and ok: "lists_ok (owns (tmap e) run) (dmap e) own" and cnt: "count_ok (tmap e) (dmap e)"
    and rk: "rank_ok (dmap e) own rank"
    using inv by (auto simp: exec_inv_def deps_inv_def)
  have fin: "finite (dom (dmap e))" using dinv by (rule sv.finite_lookup)
  obtain x e' where p: "pop_task q e = Inr (x, e')" "tmap e t = Some x" "num_unmet_dependencies x = 0"
    "queue_of (affinity x) = q" "queues_inv e' {} (qs(q := xs))" "tmap e' = (tmap e)(t := None)"
    "dependents e' = dependents e" "closed e' = closed e"
    by (rule pop_task_ok [OF Q vq ts])
  have "lists_ok (owns (tmap e') (run(j \<mapsto> (t, x)))) (dmap e') (own(Waiting t := [], Running j := own (Waiting t)))"
    using lists_ok_transfer [OF ok, of "Waiting t" "first_dependent x" "Running j"] p(2,6,7) j by simp
  moreover have "count_ok (tmap e') (dmap e')"
    using count_ok_pop [OF cnt fin p(2,3)] p(6,7) by simp
  moreover have "rank_ok (dmap e') (own(Waiting t := [], Running j := own (Waiting t))) rank"
    using rk p(7) by (simp add: rank_ok_def)
  ultimately have "exec_inv e' (run(j \<mapsto> (t, x))) (qs(q := xs))
      (own(Waiting t := [], Running j := own (Waiting t))) rank"
    using p(5,7) dinv by (simp add: exec_inv_def deps_inv_def)
  moreover have "\<forall>v. (v, t) \<notin> edges (dmap e) own"
    using count_ok_zero [OF cnt fin p(2,3)] lists_okD(6) [OF ok] by (fastforce simp: edges_def)
  ultimately show ?thesis using that [OF p(1,2,4) _ p(6)] p(7,8) by simp
qed

subsection \<open>Adding a task\<close>

text \<open>Changing only the dependent list of a task leaves the queues alone.\<close>

lemma queues_inv_keep:
  assumes q: "queues_inv e X qs" and t: "tmap e t = Some x" and inv: "sv_inv task_bits ts"
    and ts: "sv_lookup task_bits ts = (tmap e)(t \<mapsto> y)"
    and y: "affinity y = affinity x" "num_unmet_dependencies y = num_unmet_dependencies x"
      "next_in_list y = next_in_list x"
  shows "queues_inv (e\<lparr>tasks := ts\<rparr>) X qs"
proof -
  note D = queues_invD [OF q]
  have r: "ready ((tmap e)(t \<mapsto> y)) p = ready (tmap e) p" for p
    using t y by (auto simp: ready_def)
  have "queue_ok ((tmap e)(t \<mapsto> y)) l xs = queue_ok (tmap e) l xs" for l xs
    unfolding queue_ok_def using t y(3) by (intro conj_cong linked_cong) auto
  then show ?thesis
    using D(2-5) inv ts t y(1) r by (auto simp: queues_inv_def)
qed

lemma edges_push:
  assumes ok: "lists_ok h D own" and d: "D d = None"
  shows "edges (D(d \<mapsto> y)) (own(w := d # own w)) = insert (w, from_task y) (edges D own)"
proof (rule set_eqI)
  fix p :: "owner \<times> task_id"
  obtain v t where p: "p = (v, t)" by (cases p)
  have out: "c \<noteq> d" if "c \<in> set (own u)" for c u
    using lists_okD(6) [OF ok that] d by auto
  have "(\<exists>c. c \<in> set (own v) \<and> t = from_task (the ((D(d \<mapsto> y)) c))) \<longleftrightarrow>
      (\<exists>c. c \<in> set (own v) \<and> t = from_task (the (D c)))"
    using out by (metis fun_upd_other)
  then show "p \<in> edges (D(d \<mapsto> y)) (own(w := d # own w)) \<longleftrightarrow> p \<in> insert (w, from_task y) (edges D own)"
    by (cases "v = w") (auto simp: p edges_def)
qed

lemma rank_ok_push:
  assumes rk: "rank_ok D own rank" and ok: "lists_ok h D own" and d: "D d = None"
    and r: "rank t < rank (from_task y)"
  shows "rank_ok (D(d \<mapsto> y)) (own(Waiting t := d # own (Waiting t))) rank"
  unfolding rank_ok_def
proof (intro allI impI)
  fix u c assume c: "c \<in> set ((own(Waiting t := d # own (Waiting t))) (Waiting u))"
  show "rank u < rank (from_task (the ((D(d \<mapsto> y)) c)))"
  proof (cases "c = d")
    case True
    have "d \<notin> set (own (Waiting u))" using lists_okD(6) [OF ok, of d "Waiting u"] d by auto
    then have "u = t" using c True by (auto split: if_splits)
    then show ?thesis using r True by simp
  next
    case False
    then have "c \<in> set (own (Waiting u))" using c by (auto split: if_splits)
    then show ?thesis using rk False by (simp add: rank_ok_def)
  qed
qed

lemma add_dependency_ok:
  assumes Q: "queues_inv e {n} qs" and dep: "deps_inv e run own rank" and n: "tmap e n = Some x"
    and ne: "u \<noteq> n" and rank: "\<And>t. t \<noteq> n \<Longrightarrow> tmap e t \<noteq> None \<Longrightarrow> rank t < rank n"
    and room: "card (dom (dmap e)) < 2 ^ dependent_bits - 1"
  obtains e' own' where "add_dependency n u e = Inr e'" "queues_inv e' {n} qs" "deps_inv e' run own' rank"
    "edges (dmap e') own' = edges (dmap e) own \<union> (if tmap e u = None then {} else {(Waiting u, n)})"
    "dom (tmap e') = dom (tmap e)" "closed e' = closed e" "card (dom (dmap e')) \<le> Suc (card (dom (dmap e)))"
    "\<And>t. map_option affinity (tmap e' t) = map_option affinity (tmap e t)"
    "\<And>t. map_option closure (tmap e' t) = map_option closure (tmap e t)"
proof (cases "tmap e u")
  case None
  have "\<not> sv_is_valid_id task_bits (tasks e) u" using sv.valid_iff [OF queues_invD(1) [OF Q]] None by blast
  then have "add_dependency n u e = Inr e" by (simp add: add_dependency_def)
  then show ?thesis using Q dep None by (intro that [of e own]) auto
next
  case (Some z)
  note tinv = queues_invD(1) [OF Q]
  have valid: "sv_is_valid_id task_bits (tasks e) u" using sv.valid_iff [OF tinv] Some by blast
  have dinv: "sv_inv dependent_bits (dependents e)"
    and ok: "lists_ok (owns (tmap e) run) (dmap e) own" and cnt: "count_ok (tmap e) (dmap e)"
    and rk: "rank_ok (dmap e) own rank"
    using dep by (auto simp: deps_inv_def)
  have fin: "finite (dom (dmap e))" using dinv by (rule sv.finite_lookup)
  let ?y = "\<lparr>from_task = n, next_dependent = first_dependent z\<rparr>"
  obtain d ds where d: "sv_emplace dependent_bits (dependents e) ?y = Inr (d, ds)" "sv_inv dependent_bits ds"
    "dmap e d = None" "sv_lookup dependent_bits ds = (dmap e)(d \<mapsto> ?y)"
    by (rule sv.emplaceE [OF dinv room])
  let ?z = "z\<lparr>first_dependent := d\<rparr>" and ?x = "x\<lparr>num_unmet_dependencies := num_unmet_dependencies x + 1\<rparr>"
  obtain t1 where t1: "sv_put task_bits (tasks e) u ?z = Inr t1" "sv_inv task_bits t1"
    "sv_lookup task_bits t1 = (tmap e)(u \<mapsto> ?z)" by (rule sv.putE [OF tinv Some])
  have n1: "sv_lookup task_bits t1 n = Some x" using t1(3) n ne by simp
  obtain t2 where t2: "sv_put task_bits t1 n ?x = Inr t2" "sv_inv task_bits t2"
    "sv_lookup task_bits t2 = (sv_lookup task_bits t1)(n \<mapsto> ?x)" by (rule sv.putE [OF t1(2) n1])
  let ?e = "e\<lparr>tasks := t2, dependents := ds\<rparr>"
  have eq: "add_dependency n u e = Inr ?e"
    by (simp add: add_dependency_def valid sv.get_ok [OF tinv Some] d(1) t1(1) sv.get_ok [OF t1(2) n1] t2(1))
  have tm: "tmap ?e = (tmap e)(u \<mapsto> ?z, n \<mapsto> ?x)" using t1(3) t2(3) by simp
  have dm: "dmap ?e = (dmap e)(d \<mapsto> ?y)" using d(4) by simp
  have "queues_inv (e\<lparr>tasks := t1\<rparr>) {n} qs"
    by (rule queues_inv_keep [OF Q Some t1(2,3)]) simp_all
  then have "queues_inv (e\<lparr>tasks := t1, tasks := t2\<rparr>) {n} qs"
    by (rule queues_inv_put [of "e\<lparr>tasks := t1\<rparr>" "{n}" qs n x t2 ?x]) (use n1 t2 in simp_all)
  then have Q': "queues_inv ?e {n} qs" by (simp add: queues_inv_def)
  have h: "owns (tmap e) run (Waiting u) = Some (first_dependent z)" using Some by simp
  have own': "owns (tmap ?e) run = (owns (tmap e) run)(Waiting u \<mapsto> d)"
    unfolding tm by (rule ext, rename_tac w, case_tac w) (use n ne in auto)
  have l: "lists_ok (owns (tmap ?e) run) (dmap ?e) (own(Waiting u := d # own (Waiting u)))"
    unfolding own' dm by (rule lists_ok_push [OF ok h d(3)]) simp
  have "count_ok ((tmap e)(u \<mapsto> ?z)) (dmap e)" by (rule count_ok_same [OF cnt Some]) simp
  then have "count_ok (tmap ?e) (dmap ?e)"
    unfolding tm dm by (rule count_ok_push(1) [OF _ fin _ d(3)]) (use room n ne in auto)
  moreover have "rank u < rank n" using rank [OF ne] Some by simp
  then have "rank_ok (dmap ?e) (own(Waiting u := d # own (Waiting u))) rank"
    unfolding dm by (intro rank_ok_push [OF rk ok d(3)]) simp
  ultimately have "deps_inv ?e run (own(Waiting u := d # own (Waiting u))) rank"
    using l d(2) by (simp add: deps_inv_def)
  moreover have "edges (dmap ?e) (own(Waiting u := d # own (Waiting u))) = edges (dmap e) own \<union> {(Waiting u, n)}"
    unfolding dm edges_push [OF ok d(3)] by simp
  moreover have "dom (tmap ?e) = dom (tmap e)" unfolding tm using Some n by auto
  moreover have "card (dom (dmap ?e)) \<le> Suc (card (dom (dmap e)))"
    unfolding dm using fin by (simp add: card_insert_if)
  moreover have "map_option affinity (tmap ?e t) = map_option affinity (tmap e t)"
    "map_option closure (tmap ?e t) = map_option closure (tmap e t)" for t
    unfolding tm using Some n by auto
  ultimately show ?thesis using Some by (intro that [OF eq Q']) auto
qed

lemma add_dependencies_ok:
  assumes "queues_inv e {n} qs" "deps_inv e run own rank" "n \<in> dom (tmap e)" "n \<notin> set us"
    "\<And>t. t \<noteq> n \<Longrightarrow> t \<in> dom (tmap e) \<Longrightarrow> rank t < rank n"
    "card (dom (dmap e)) + length us \<le> 2 ^ dependent_bits - 1"
  shows "\<exists>e' own'. add_dependencies n us e = Inr e' \<and> queues_inv e' {n} qs \<and> deps_inv e' run own' rank \<and>
    edges (dmap e') own' = edges (dmap e) own \<union> {(Waiting u, n) | u. u \<in> set us \<inter> dom (tmap e)} \<and>
    dom (tmap e') = dom (tmap e) \<and> closed e' = closed e \<and>
    (\<forall>t. map_option affinity (tmap e' t) = map_option affinity (tmap e t)) \<and>
    (\<forall>t. map_option closure (tmap e' t) = map_option closure (tmap e t)) \<and>
    card (dom (dmap e')) \<le> card (dom (dmap e)) + length us"
  using assms
proof (induction us arbitrary: e own)
  case Nil
  then show ?case by auto
next
  case (Cons u us)
  obtain x where n: "tmap e n = Some x" using Cons.prems(3) by auto
  have room: "card (dom (dmap e)) < 2 ^ dependent_bits - 1" using Cons.prems(6) by simp
  have ne: "u \<noteq> n" using Cons.prems(4) by auto
  have rk: "t \<noteq> n \<Longrightarrow> tmap e t \<noteq> None \<Longrightarrow> rank t < rank n" for t using Cons.prems(5) by blast
  obtain e1 own1 where s: "add_dependency n u e = Inr e1" "queues_inv e1 {n} qs" "deps_inv e1 run own1 rank"
    "edges (dmap e1) own1 = edges (dmap e) own \<union> (if tmap e u = None then {} else {(Waiting u, n)})"
    "dom (tmap e1) = dom (tmap e)" "closed e1 = closed e" "card (dom (dmap e1)) \<le> Suc (card (dom (dmap e)))"
    "\<And>t. map_option affinity (tmap e1 t) = map_option affinity (tmap e t)"
    "\<And>t. map_option closure (tmap e1 t) = map_option closure (tmap e t)"
    using add_dependency_ok [OF Cons.prems(1,2) n ne rk room] by metis
  have "\<exists>e' own'. add_dependencies n us e1 = Inr e' \<and> queues_inv e' {n} qs \<and> deps_inv e' run own' rank \<and>
    edges (dmap e') own' = edges (dmap e1) own1 \<union> {(Waiting u, n) | u. u \<in> set us \<inter> dom (tmap e1)} \<and>
    dom (tmap e') = dom (tmap e1) \<and> closed e' = closed e1 \<and>
    (\<forall>t. map_option affinity (tmap e' t) = map_option affinity (tmap e1 t)) \<and>
    (\<forall>t. map_option closure (tmap e' t) = map_option closure (tmap e1 t)) \<and>
    card (dom (dmap e')) \<le> card (dom (dmap e1)) + length us"
    by (rule Cons.IH [OF s(2,3)]) (use Cons.prems s(5,7) in auto)
  then obtain e2 own2 where r: "add_dependencies n us e1 = Inr e2" "queues_inv e2 {n} qs" "deps_inv e2 run own2 rank"
    "edges (dmap e2) own2 = edges (dmap e1) own1 \<union> {(Waiting u, n) | u. u \<in> set us \<inter> dom (tmap e1)}"
    "dom (tmap e2) = dom (tmap e1)" "closed e2 = closed e1"
    "\<forall>t. map_option affinity (tmap e2 t) = map_option affinity (tmap e1 t)"
    "\<forall>t. map_option closure (tmap e2 t) = map_option closure (tmap e1 t)"
    "card (dom (dmap e2)) \<le> card (dom (dmap e1)) + length us" by blast
  have "edges (dmap e2) own2 = edges (dmap e) own \<union> {(Waiting v, n) | v. v \<in> set (u # us) \<inter> dom (tmap e)}"
    unfolding r(4) s(4,5) by auto
  moreover have "add_dependencies n (u # us) e = Inr e2" using s(1) r(1) by simp
  moreover have "card (dom (dmap e2)) \<le> card (dom (dmap e)) + length (u # us)" using s(7) r(9) by simp
  ultimately show ?case using r(2,3,5-8) s(5-9) by (intro exI [of _ e2] exI [of _ own2]) simp
qed


lemma exec_invD:
  assumes "exec_inv e run qs own rank"
  shows "queues_inv e {} qs" "deps_inv e run own rank" "sv_inv task_bits (tasks e)"
    "sv_inv dependent_bits (dependents e)" "lists_ok (owns (tmap e) run) (dmap e) own"
    "count_ok (tmap e) (dmap e)" "rank_ok (dmap e) own rank"
    "length (affinity_task_queue e) = MAX_THREADS"
    "finite (dom (tmap e))" "finite (dom (dmap e))"
  using assms by (auto simp: exec_inv_def deps_inv_def sv.finite_lookup dest: queues_invD)

lemma new_task_ok:
  assumes inv: "exec_inv e run qs own rank" and n: "tmap e n = None"
    and ts: "sv_inv task_bits ts" "sv_lookup task_bits ts = (tmap e)(n \<mapsto> new_task c a)"
    and a: "valid_queue (queue_of a)"
  obtains rank' where "queues_inv (e\<lparr>tasks := ts\<rparr>) {n} qs" "deps_inv (e\<lparr>tasks := ts\<rparr>) run own rank'"
    "\<And>t. t \<noteq> n \<Longrightarrow> t \<in> dom (tmap (e\<lparr>tasks := ts\<rparr>)) \<Longrightarrow> rank' t < rank' n"
proof -
  note I = exec_invD [OF inv]
  note D = queues_invD [OF I(1)]
  let ?e = "e\<lparr>tasks := ts\<rparr>"
  let ?r = "rank(n := Suc (Max (insert 0 (rank ` dom (tmap e)))))"
  have tm: "tmap ?e = (tmap e)(n \<mapsto> new_task c a)" using ts(2) by simp
  have out: "n \<notin> set (qs q)" if "valid_queue q" for q
    using D(5) [OF that] n by (auto simp: ready_def)
  have "queue_ok (tmap ?e) (queue_at ?e q) (qs q) \<and> set (qs q) = ready (tmap ?e) q - {n}"
    if q: "valid_queue q" for q
  proof -
    have "ready (tmap ?e) q - {n} = ready (tmap e) q"
      unfolding tm using n by (auto simp: ready_def)
    then show ?thesis using D(4,5) [OF q] unfolding tm queue_ok_upd_other [OF out [OF q]] by simp
  qed
  moreover have "valid_queue (queue_of (affinity x))" if "tmap ?e t = Some x" for t x
    using that a D(3) unfolding tm by (auto simp: new_task_def split: if_splits)
  ultimately have q: "queues_inv ?e {n} qs" using ts(1) D(2) by (simp add: queues_inv_def)
  have below: "rank t < ?r n" if "t \<in> dom (tmap e)" for t
    using that I(9) by (simp add: less_Suc_eq_le Max_ge)
  have "rank_ok (dmap e) own ?r"
    unfolding rank_ok_def
  proof (intro allI impI)
    fix t d assume d: "d \<in> set (own (Waiting t))"
    have "tmap e t \<noteq> None" using lists_okD(1) [OF I(5), of "Waiting t"] d by (cases "tmap e t") auto
    moreover obtain y where "dmap e d = Some y" using lists_okD(6) [OF I(5) d] by blast
    moreover from this have "from_task (the (dmap e d)) \<noteq> n" using count_okD(2) [OF I(6)] n
      by (metis option.sel)
    moreover have "rank t < rank (from_task (the (dmap e d)))"
      using I(7) d by (simp add: rank_ok_def)
    ultimately show "?r t < ?r (from_task (the (dmap e d)))"
      using n by auto
  qed
  moreover have "owns (tmap e) run (Waiting n) = None" using n by simp
  then have "lists_ok (owns (tmap ?e) run) (dmap ?e) own"
    unfolding tm owns_upd using lists_ok_add_owner [OF I(5)] by (simp add: new_task_def del: fun_upd_apply)
  moreover have "count_ok (tmap ?e) (dmap ?e)"
    unfolding tm using count_ok_new [OF I(6) n] by (simp add: new_task_def)
  ultimately have "deps_inv ?e run own ?r" using I(4) by (simp add: deps_inv_def)
  then show ?thesis using that [OF q] below unfolding tm by auto
qed

text \<open>The end of \<open>add_task\<close>: a new task that waits for nothing is scheduled.\<close>

lemma schedule_if_ready:
  assumes Q: "queues_inv e {n} qs" and D: "deps_inv e run own rank" and x: "tmap e n = Some x"
  obtains e' qs' where "(if num_unmet_dependencies x = 0 then schedule n e else Inr e) = Inr e'"
    "exec_inv e' run qs' own rank" "dmap e' = dmap e" "closed e' = closed e" "dom (tmap e') = dom (tmap e)"
    "\<forall>t. map_option affinity (tmap e' t) = map_option affinity (tmap e t)"
    "\<forall>t. map_option closure (tmap e' t) = map_option closure (tmap e t)"
proof (cases "num_unmet_dependencies x = 0")
  case True
  obtain e3 where e3: "schedule n e = Inr e3"
    "queues_inv e3 ({n} - {n}) (qs(queue_of (affinity x) := n # qs (queue_of (affinity x))))"
    "tmap e3 = (tmap e)(n \<mapsto> x\<lparr>stamp := next_stamp e, next_in_list := front (queue_at e (queue_of (affinity x)))\<rparr>)"
    "dependents e3 = dependents e" "closed e3 = closed e"
    by (rule schedule_ok [OF Q x True singletonI])
  have "owns (tmap e3) run = owns (tmap e) run" unfolding e3(3) using x by (intro owns_put) auto
  then have "deps_inv e3 run own rank"
    using D e3(4) count_ok_same [of "tmap e" "dmap e" n x] x unfolding deps_inv_def e3(3) by auto
  then have "exec_inv e3 run (qs(queue_of (affinity x) := n # qs (queue_of (affinity x)))) own rank"
    using e3(2) by (simp add: exec_inv_def)
  then show thesis by (rule that [rotated]) (use True e3(1,3-5) x in auto)
next
  case False
  have "ready (tmap e) q - {n} = ready (tmap e) q" for q using x False by (auto simp: ready_def)
  then have "queues_inv e {} qs" using Q by (simp add: queues_inv_def)
  then have "exec_inv e run qs own rank" using D by (simp add: exec_inv_def)
  then show thesis by (rule that [rotated]) (use False in auto)
qed

lemma add_task_ok:
  assumes inv: "exec_inv e run qs own rank" and opn: "\<not> closed e" and a: "valid_queue (queue_of a)"
    and room: "card (dom (tmap e)) < 2 ^ task_bits - 1"
      "card (dom (dmap e)) + length us \<le> 2 ^ dependent_bits - 1"
  shows "\<exists>n ts. sv_emplace task_bits (tasks e) (new_task c a) = Inr (n, ts) \<and>
    tmap e n = None \<and> n \<noteq> INVALID_TASK \<and> (n \<notin> set us \<longrightarrow>
    (\<exists>e' qs' own' rank'. add_task c us a e = Inr (n, e') \<and> exec_inv e' run qs' own' rank' \<and>
      edges (dmap e') own' = edges (dmap e) own \<union> {(Waiting u, n) | u. u \<in> set us \<inter> dom (tmap e)} \<and>
      dom (tmap e') = insert n (dom (tmap e)) \<and> closed e' = closed e \<and>
      card (dom (dmap e')) \<le> card (dom (dmap e)) + length us \<and>
      (\<forall>t. map_option affinity (tmap e' t) = (if t = n then Some a else map_option affinity (tmap e t))) \<and>
      (\<forall>t. map_option closure (tmap e' t) = (if t = n then Some c else map_option closure (tmap e t)))))"
proof -
  note I = exec_invD [OF inv]
  obtain n ts where n: "sv_emplace task_bits (tasks e) (new_task c a) = Inr (n, ts)" "sv_inv task_bits ts"
    "tmap e n = None" "sv_lookup task_bits ts = (tmap e)(n \<mapsto> new_task c a)" "n \<noteq> invalid_index task_bits"
    by (rule sv.emplaceE [OF I(3) room(1)])
  have a': "a = NO_AFFINITY \<or> unat a \<le> MAX_THREADS"
    using a by (auto simp: valid_queue_def queue_of_def split: if_splits)
  let ?e1 = "e\<lparr>tasks := ts\<rparr>"
  obtain rank1 where e1: "queues_inv ?e1 {n} qs" "deps_inv ?e1 run own rank1"
    "\<And>t. t \<noteq> n \<Longrightarrow> t \<in> dom (tmap ?e1) \<Longrightarrow> rank1 t < rank1 n"
    using new_task_ok [OF inv n(3,2,4) a] by metis
  have tm1: "tmap ?e1 = (tmap e)(n \<mapsto> new_task c a)" using n(4) by simp
  have "\<exists>e' qs' own' rank'. add_task c us a e = Inr (n, e') \<and> exec_inv e' run qs' own' rank' \<and>
      edges (dmap e') own' = edges (dmap e) own \<union> {(Waiting u, n) | u. u \<in> set us \<inter> dom (tmap e)} \<and>
      dom (tmap e') = insert n (dom (tmap e)) \<and> closed e' = closed e \<and>
      card (dom (dmap e')) \<le> card (dom (dmap e)) + length us \<and>
      (\<forall>t. map_option affinity (tmap e' t) = (if t = n then Some a else map_option affinity (tmap e t))) \<and>
      (\<forall>t. map_option closure (tmap e' t) = (if t = n then Some c else map_option closure (tmap e t)))"
    if us: "n \<notin> set us"
  proof -
    have "n \<in> dom (tmap ?e1)" "card (dom (dmap ?e1)) + length us \<le> 2 ^ dependent_bits - 1"
      using tm1 room(2) by auto
    from add_dependencies_ok [OF e1(1,2) this(1) us e1(3) this(2)] obtain e2 own2 where
      e2: "add_dependencies n us ?e1 = Inr e2" "queues_inv e2 {n} qs" "deps_inv e2 run own2 rank1"
      "edges (dmap e2) own2 = edges (dmap ?e1) own \<union> {(Waiting u, n) | u. u \<in> set us \<inter> dom (tmap ?e1)}"
      "dom (tmap e2) = dom (tmap ?e1)" "closed e2 = closed ?e1"
      "\<forall>t. map_option affinity (tmap e2 t) = map_option affinity (tmap ?e1 t)"
      "\<forall>t. map_option closure (tmap e2 t) = map_option closure (tmap ?e1 t)"
      "card (dom (dmap e2)) \<le> card (dom (dmap ?e1)) + length us" by blast
    have tm2: "dom (tmap e2) = insert n (dom (tmap e))"
      "\<forall>t. map_option affinity (tmap e2 t) = (if t = n then Some a else map_option affinity (tmap e t))"
      "\<forall>t. map_option closure (tmap e2 t) = (if t = n then Some c else map_option closure (tmap e t))"
      using e2(5,7,8) unfolding tm1 by (auto simp: new_task_def)
    have ed: "edges (dmap e2) own2 = edges (dmap e) own \<union> {(Waiting u, n) | u. u \<in> set us \<inter> dom (tmap e)}"
      unfolding e2(4) tm1 using us by auto
    obtain x where x: "tmap e2 n = Some x" using tm2(1) by blast
    have get: "sv_get task_bits (tasks e2) n = Inr x" by (rule sv.get_ok [OF queues_invD(1) [OF e2(2)] x])
    obtain e3 qs' where e3: "(if num_unmet_dependencies x = 0 then schedule n e2 else Inr e2) = Inr e3"
      "exec_inv e3 run qs' own2 rank1" "dmap e3 = dmap e2" "closed e3 = closed e2" "dom (tmap e3) = dom (tmap e2)"
      "\<forall>t. map_option affinity (tmap e3 t) = map_option affinity (tmap e2 t)"
      "\<forall>t. map_option closure (tmap e3 t) = map_option closure (tmap e2 t)"
      by (rule schedule_if_ready [OF e2(2,3) x])
    have "add_task c us a e = Inr (n, e3)"
      using opn a' e3(1) by (auto simp: add_task_def n(1) e2(1) get split: if_splits)
    then show ?thesis
      using ed tm2 e2(6,9) e3(2-7)
      by (intro exI [of _ e3] exI [of _ qs'] exI [of _ own2] exI [of _ rank1]) simp
  qed
  then show ?thesis using n(1,3,5) unfolding INVALID_TASK_def by (intro exI [of _ n] exI [of _ ts] conjI impI)
qed

subsection \<open>Construction, closing and choosing\<close>

lemma new_executor_ok:
  obtains e :: "'c executor" where "new_executor = Inr e"
    "exec_inv e (\<lambda>_. None) (\<lambda>_. []) (\<lambda>_. []) (\<lambda>_. 0)" "tmap e = (\<lambda>_. None)" "dmap e = (\<lambda>_. None)"
    "\<not> closed e"
proof -
  obtain ts :: "('c task, 32 word) stable_vec" where ts: "sv_new task_bits 16 = Inr ts" "sv_inv task_bits ts"
    "sv_lookup task_bits ts = Map.empty" using sv_inv_new [of task_bits "16 :: 32 word"] by (auto simp: mask_eq_exp_minus_1)
  obtain ds :: "(dependent, 32 word) stable_vec" where ds: "sv_new dependent_bits 16 = Inr ds"
    "sv_inv dependent_bits ds" "sv_lookup dependent_bits ds = Map.empty"
    using sv_inv_new [of dependent_bits "16 :: 32 word"] by (auto simp: mask_eq_exp_minus_1)
  let ?e = "\<lparr>tasks = ts, dependents = ds, global_task_queue = empty_list,
    affinity_task_queue = replicate MAX_THREADS empty_list, next_stamp = 0, closed = False\<rparr>"
  have "new_executor = Inr ?e" by (simp add: new_executor_def ts(1) ds(1))
  moreover have "queue_ok (tmap ?e) (queue_at ?e q) []" if "valid_queue q" for q
    using that by (auto simp: queue_ok_empty queue_at_def valid_queue_def split: queue_ref.splits)
  then have "queues_inv ?e {} (\<lambda>_. [])"
    using ts by (simp add: queues_inv_def ready_def)
  moreover have "owns (tmap ?e) (\<lambda>_. None) w = None" for w using ts(3) by (cases w) auto
  then have "deps_inv ?e (\<lambda>_. None) (\<lambda>_. []) (\<lambda>_. 0)"
    using ts(3) ds by (simp add: deps_inv_def lists_ok_def count_ok_def rank_ok_def)
  ultimately show ?thesis using that [of ?e] ts(3) ds(3) by (simp add: exec_inv_def)
qed

lemma exec_inv_closed: "exec_inv (e\<lparr>closed := b\<rparr>) run qs own rank = exec_inv e run qs own rank"
  by (simp add: exec_inv_def queues_inv_def deps_inv_def)

lemma close_ok:
  "exec_inv e run qs own rank \<Longrightarrow> exec_inv (close e) run qs own rank"
  "tasks (close e) = tasks e" "dependents (close e) = dependents e" "closed (close e)"
  by (auto simp: close_def exec_inv_closed)

lemma empty_task_list_ok:
  assumes inv: "queues_inv e X qs" and q: "valid_queue q"
  shows "empty_task_list (queue_at e q) = Inr (qs q = [])"
    "qs q \<noteq> [] \<Longrightarrow> front (queue_at e q) = hd (qs q)"
    "qs q \<noteq> [] \<Longrightarrow> \<exists>x. tmap e (hd (qs q)) = Some x"
proof -
  note D = queues_invD [OF inv]
  have mem: "\<exists>x. tmap e t = Some x" if "t \<in> set (qs q)" for t
    using D(5) [OF q] that by (auto simp: ready_def)
  have none: "tmap e INVALID_TASK = None" by (rule sv_lookup_INVALID_TASK [OF D(1)])
  show "qs q \<noteq> [] \<Longrightarrow> \<exists>x. tmap e (hd (qs q)) = Some x" using mem hd_in_set by blast
  show "qs q \<noteq> [] \<Longrightarrow> front (queue_at e q) = hd (qs q)"
    using D(4) [OF q] by (cases "qs q") (auto simp: queue_ok_def)
  have "qs q \<noteq> [] \<Longrightarrow> front (queue_at e q) \<noteq> INVALID_TASK"
    using queue_ok_front_ne [OF D(4) [OF q] _ none] mem by fastforce
  then show "empty_task_list (queue_at e q) = Inr (qs q = [])"
    using D(4) [OF q] by (cases "qs q = []") (auto simp: empty_task_list_def queue_ok_empty)
qed

lemma choose_queue_ok:
  assumes inv: "queues_inv e X qs" and i: "i < MAX_THREADS"
  shows "choose_queue i e = Inr
    (if qs Global = [] \<and> qs (Affine i) = [] then None
     else if qs Global \<noteq> [] \<and> qs (Affine i) \<noteq> [] then
       Some (if stamp (the (tmap e (hd (qs Global)))) < stamp (the (tmap e (hd (qs (Affine i)))))
             then Global else Affine i)
     else if qs Global = [] then Some (Affine i) else Some Global)"
proof -
  have v: "valid_queue Global" "valid_queue (Affine i)" using i by (auto simp: valid_queue_def)
  note D = queues_invD [OF inv]
  have q: "queue_at e Global = global_task_queue e" "queue_at e (Affine i) = affinity_task_queue e ! i"
    by (auto simp: queue_at_def)
  note g = empty_task_list_ok [OF inv v(1)] and f = empty_task_list_ok [OF inv v(2)]
  have get: "sv_get task_bits (tasks e) (front (queue_at e p)) = Inr (the (tmap e (hd (qs p))))"
    if "qs p \<noteq> []" "valid_queue p" for p
    using empty_task_list_ok(2,3) [OF inv that(2,1)] sv.get_ok [OF D(1)] by fastforce
  show ?thesis
    using g(1) f(1) get [of Global] get [of "Affine i"] v D(2) i
    by (auto simp: choose_queue_def q)
qed

end
