(* ===== verification/Blocking_Counter.thy ===== *)
theory Blocking_Counter
  imports Prelude
begin

text \<open>
  \<open>BlockingCounter\<close> and its \<open>Item\<close> handles (\<open>core/blocking_counter.hpp\<close>): a count that
  starts at one, that every live \<open>Item\<close> holds up by one, and on whose zero
  \<open>wait_and_disable\<close> blocks. The first part takes each member function as one step; the
  last part splits \<open>increment\<close>, which the code runs without the mutex, into its load and
  its store.
\<close>

subsection \<open>The counter\<close>

record counter =
  alive :: bool
  count :: "32 word"

definition new_counter :: counter where
  "new_counter = \<lparr>alive = True, count = 1\<rparr>"

definition increment :: "32 word \<Rightarrow> counter \<Rightarrow> counter" where
  "increment by c = c\<lparr>count := count c + by\<rparr>"

text \<open>\<open>decrement\<close> also says whether it notifies the waiting thread.\<close>

definition decrement :: "32 word \<Rightarrow> counter \<Rightarrow> counter \<times> bool" where
  "decrement by c = (if count c \<le> by then (c\<lparr>count := 0\<rparr>, True)
     else (c\<lparr>count := count c - by\<rparr>, False))"

text \<open>\<open>wait_and_disable\<close> up to its loop, and the loop's test. Only the first caller waits.\<close>

definition disable :: "counter \<Rightarrow> counter \<times> bool" where
  "disable c = (if alive c then (c\<lparr>alive := False, count := count c - 1\<rparr>, True) else (c, False))"

definition wait_over :: "counter \<Rightarrow> bool" where
  "wait_over c \<longleftrightarrow> \<not> count c > 0"

subsection \<open>Items\<close>

text \<open>An item is its \<open>counter_\<close> pointer; the counters live in a store.\<close>

type_synonym 'r item = "'r option"
type_synonym 'r counters = "'r \<Rightarrow> counter"

definition item_new :: "'r \<Rightarrow> 'r counters \<Rightarrow> ('r item \<times> 'r counters) res" where
  "item_new r s = require (alive (s r)) Check_failed (Inr (Some r, s(r := increment 1 (s r))))"

definition item_copy :: "'r item \<Rightarrow> 'r counters \<Rightarrow> 'r item \<times> 'r counters" where
  "item_copy other s = (other, case other of None \<Rightarrow> s | Some r \<Rightarrow> s(r := increment 1 (s r)))"

text \<open>The new item and what is left of the old one.\<close>

definition item_move :: "'r item \<Rightarrow> 'r item \<times> 'r item" where
  "item_move other = (other, None)"

definition item_release :: "'r item \<Rightarrow> 'r counters \<Rightarrow> 'r item \<times> 'r counters" where
  "item_release i s = (None, case i of None \<Rightarrow> s | Some r \<Rightarrow> s(r := fst (decrement 1 (s r))))"

definition item_swap :: "'r item \<Rightarrow> 'r item \<Rightarrow> 'r item \<times> 'r item" where
  "item_swap a b = (b, a)"

text \<open>\<open>operator=\<close> takes its argument by value, swaps with it and destroys it; the argument was
  copied from, or moved out of, \<open>src\<close>. The results are the target, the source and the store.\<close>

definition item_assign_copy :: "'r item \<Rightarrow> 'r item \<Rightarrow> 'r counters \<Rightarrow> 'r item \<times> 'r counters" where
  "item_assign_copy dst src s =
     (let (other, s) = item_copy src s; (dst, other) = item_swap dst other
      in (dst, snd (item_release other s)))"

definition item_assign_move :: "'r item \<Rightarrow> 'r item \<Rightarrow> 'r counters \<Rightarrow> 'r item \<times> 'r item \<times> 'r counters" where
  "item_assign_move dst src s =
     (let (other, src) = item_move src; (dst, other) = item_swap dst other
      in (dst, src, snd (item_release other s)))"

subsection \<open>Programs that use items\<close>

text \<open>Variables of type \<open>Item\<close>, by name; \<open>None\<close> is a variable not in scope.\<close>

record ('n, 'r) item_state =
  vars :: "'n \<Rightarrow> 'r item option"
  counters :: "'r counters"

datatype ('n, 'r) item_op =
    Construct 'n 'r
  | Copy 'n 'n
  | Move 'n 'n
  | Release 'n
  | Destroy 'n
  | Assign 'n 'n
  | Assign_move 'n 'n
  | Swap 'n 'n
  | Disable 'r

definition with_var :: "('n, 'r) item_state \<Rightarrow> 'n \<Rightarrow> ('r item \<Rightarrow> 'b res) \<Rightarrow> 'b res" where
  "with_var s x k = (case vars s x of None \<Rightarrow> Inl Dead_object | Some i \<Rightarrow> k i)"

fun item_run :: "('n, 'r) item_op \<Rightarrow> ('n, 'r) item_state \<Rightarrow> ('n, 'r) item_state res" where
  "item_run (Construct x r) s = require (vars s x = None) Dead_object
     (bind_res (item_new r (counters s)) (\<lambda>(i, c). Inr \<lparr>vars = (vars s)(x \<mapsto> i), counters = c\<rparr>))"
| "item_run (Copy x y) s = require (vars s x = None) Dead_object (with_var s y (\<lambda>j.
     let (i, c) = item_copy j (counters s) in Inr \<lparr>vars = (vars s)(x \<mapsto> i), counters = c\<rparr>))"
| "item_run (Move x y) s = require (vars s x = None) Dead_object (with_var s y (\<lambda>j.
     let (i, j) = item_move j in Inr (s\<lparr>vars := (vars s)(y \<mapsto> j, x \<mapsto> i)\<rparr>)))"
| "item_run (Release x) s = with_var s x (\<lambda>i.
     let (i, c) = item_release i (counters s) in Inr \<lparr>vars = (vars s)(x \<mapsto> i), counters = c\<rparr>)"
| "item_run (Destroy x) s = with_var s x (\<lambda>i.
     let (i, c) = item_release i (counters s) in Inr \<lparr>vars = (vars s)(x := None), counters = c\<rparr>)"
| "item_run (Assign x y) s = with_var s x (\<lambda>i. with_var s y (\<lambda>j.
     let (i, c) = item_assign_copy i j (counters s) in Inr \<lparr>vars = (vars s)(x \<mapsto> i), counters = c\<rparr>))"
| "item_run (Assign_move x y) s = with_var s x (\<lambda>i. with_var s y (\<lambda>j.
     let (i, j, c) = item_assign_move (if x = y then snd (item_move j) else i) j (counters s)
     in Inr \<lparr>vars = (vars s)(y \<mapsto> j, x \<mapsto> i), counters = c\<rparr>))"
| "item_run (Swap x y) s = with_var s x (\<lambda>i. with_var s y (\<lambda>j.
     let (i, j) = item_swap i j in Inr (s\<lparr>vars := (vars s)(y \<mapsto> j, x \<mapsto> i)\<rparr>)))"
| "item_run (Disable r) s = Inr (s\<lparr>counters := (counters s)(r := fst (disable (counters s r)))\<rparr>)"

fun item_runs :: "('n, 'r) item_op list \<Rightarrow> ('n, 'r) item_state \<Rightarrow> ('n, 'r) item_state res" where
  "item_runs [] s = Inr s"
| "item_runs (p # ps) s = bind_res (item_run p s) (item_runs ps)"

definition no_items :: "('n, 'r) item_state" where
  "no_items = \<lparr>vars = \<lambda>_. None, counters = \<lambda>_. new_counter\<rparr>"

subsection \<open>What holders of a counter rely on\<close>

text \<open>A gate counts its holders while it is open; once shut it admits nobody and lets the
  closer pass exactly when the last holder is gone. \<open>holds g n\<close>: the gate has \<open>n\<close> holders.\<close>

locale gate =
  fixes holds :: "'g \<Rightarrow> nat \<Rightarrow> bool"
    and is_open :: "'g \<Rightarrow> bool"
    and enter :: "'g \<Rightarrow> 'g"
    and leave :: "'g \<Rightarrow> 'g"
    and shut :: "'g \<Rightarrow> 'g"
    and passes :: "'g \<Rightarrow> bool"
    and cap :: nat
  assumes enter_ok: "holds g n \<Longrightarrow> n < cap \<Longrightarrow> holds (enter g) (Suc n) \<and> is_open (enter g) = is_open g"
    and leave_ok: "holds g (Suc n) \<Longrightarrow> holds (leave g) n \<and> is_open (leave g) = is_open g"
    and shut_ok: "holds g n \<Longrightarrow> holds (shut g) n \<and> \<not> is_open (shut g)"
    and passes_iff: "holds g n \<Longrightarrow> \<not> is_open g \<Longrightarrow> passes g \<longleftrightarrow> n = 0"
    and blocks_open: "holds g n \<Longrightarrow> is_open g \<Longrightarrow> \<not> passes g"
begin

lemma leave_enter: "holds g n \<Longrightarrow> n < cap \<Longrightarrow> holds (leave (enter g)) n"
  using enter_ok leave_ok by blast

lemma passes_leave: "holds g (Suc n) \<Longrightarrow> \<not> is_open g \<Longrightarrow> passes (leave g) \<longleftrightarrow> n = 0"
  using leave_ok [of g n] passes_iff by blast

lemma shut_passes: "holds g n \<Longrightarrow> passes (shut g) \<longleftrightarrow> n = 0"
  using shut_ok passes_iff by blast

end

definition counts :: "counter \<Rightarrow> nat \<Rightarrow> bool" where
  "counts c n \<longleftrightarrow> unat (count c) = n + (if alive c then 1 else 0)"

interpretation bc: gate counts alive "increment 1" "\<lambda>c. fst (decrement 1 c)" "\<lambda>c. fst (disable c)"
  wait_over "2 ^ 32 - 2"
proof unfold_locales
  fix c n
  show "counts c n \<Longrightarrow> n < 2 ^ 32 - 2 \<Longrightarrow> counts (increment 1 c) (Suc n) \<and> alive (increment 1 c) = alive c"
    by (auto simp: counts_def increment_def unat_word_ariths)
  show "counts (fst (decrement 1 c)) n \<and> alive (fst (decrement 1 c)) = alive c" if h: "counts c (Suc n)"
  proof -
    have nz: "count c \<noteq> 0" using h by (auto simp: counts_def)
    have "count c \<le> 1 \<longleftrightarrow> unat (count c) \<le> 1" by (simp add: word_le_nat_alt)
    then show ?thesis using h nz by (auto simp: counts_def decrement_def unat_minus_one)
  qed
  show "counts c n \<Longrightarrow> counts (fst (disable c)) n \<and> \<not> alive (fst (disable c))"
    by (cases "count c = 0") (auto simp: counts_def disable_def unat_minus_one)
  show "counts c n \<Longrightarrow> \<not> alive c \<Longrightarrow> wait_over c \<longleftrightarrow> n = 0"
    by (auto simp: counts_def wait_over_def word_less_nat_alt unat_eq_0)
  show "counts c n \<Longrightarrow> alive c \<Longrightarrow> \<not> wait_over c"
    by (auto simp: counts_def wait_over_def word_less_nat_alt)
qed

lemma counts_new: "counts new_counter 0"
  by (simp add: counts_def new_counter_def)

subsection \<open>The count is the number of items\<close>

definition holders :: "('n \<Rightarrow> 'r item option) \<Rightarrow> 'r \<Rightarrow> nat" where
  "holders v r = card {x. v x = Some (Some r)}"

fun add_item :: "'r item \<Rightarrow> ('r \<Rightarrow> nat) \<Rightarrow> 'r \<Rightarrow> nat" where
  "add_item None A = A"
| "add_item (Some r) A = A(r := Suc (A r))"

definition balanced :: "('r \<Rightarrow> nat) \<Rightarrow> 'r counters \<Rightarrow> bool" where
  "balanced A s \<longleftrightarrow> (\<forall>r. counts (s r) (A r))"

lemma add_item_commute: "add_item i (add_item j A) = add_item j (add_item i A)"
  by (cases i; cases j) (auto simp: fun_eq_iff)

lemma finite_holders: "finite (dom v) \<Longrightarrow> finite {x. v x = Some (Some r)}"
  by (erule finite_subset [rotated]) auto

lemma holders_le: "finite (dom v) \<Longrightarrow> holders v r \<le> card (dom v)"
  unfolding holders_def by (intro card_mono) auto

lemma holders_new:
  assumes "finite (dom v)" "v x = None"
  shows "holders (v(x \<mapsto> i)) = add_item i (holders v)"
proof
  fix r
  have "{y. (v(x \<mapsto> i)) y = Some (Some r)} =
      (if i = Some r then insert x {y. v y = Some (Some r)} else {y. v y = Some (Some r)})"
    using assms(2) by auto
  then show "holders (v(x \<mapsto> i)) r = add_item i (holders v) r"
    using assms finite_holders [OF assms(1), of r] by (cases i) (auto simp: holders_def)
qed

lemma holders_set:
  assumes "finite (dom v)"
  shows "holders (v(x \<mapsto> i)) = add_item i (holders (v(x := None)))"
  using holders_new [of "v(x := None)" x i] assms by simp

lemma holders_old: "finite (dom v) \<Longrightarrow> v x = Some i \<Longrightarrow> holders v = add_item i (holders (v(x := None)))"
  using holders_set [of v x i] by (simp add: fun_upd_idem)

text \<open>Two variables at once.\<close>

lemma holders_two:
  assumes "finite (dom v)" "x \<noteq> y"
  shows "holders (v(y \<mapsto> i, x \<mapsto> j)) = add_item j (add_item i (holders (v(x := None, y := None))))"
proof -
  have "(v(y \<mapsto> i))(x := None) = (v(x := None))(y \<mapsto> i)" by (rule fun_upd_twist) (use assms(2) in simp)
  then show ?thesis using holders_set [of "v(y \<mapsto> i)" x j] holders_set [of "v(x := None)" y i] assms(1) by simp
qed

lemma holders_moved:
  assumes "finite (dom v)" "x \<noteq> y" "v y = Some j"
  shows "holders (v(y \<mapsto> None, x \<mapsto> j)) = holders (v(x := None))"
  using holders_two [OF assms(1,2), of None j] holders_old [of "v(x := None)" y j] assms by simp

lemma holders_swap:
  assumes "finite (dom v)" "v x = Some i" "v y = Some j"
  shows "holders (v(y \<mapsto> i, x \<mapsto> j)) = holders v"
proof (cases "x = y")
  case True
  then show ?thesis using assms by (simp add: fun_upd_idem)
next
  case False
  have "holders v = add_item i (add_item j (holders (v(x := None, y := None))))"
    using holders_old [OF assms(1,2)] holders_old [of "v(x := None)" y j] assms(1,3) False by simp
  then show ?thesis using holders_two [OF assms(1) False, of i j] add_item_commute by metis
qed

lemma balanced_copy:
  assumes "balanced A s" "\<And>r. A r < 2 ^ 32 - 2"
  shows "balanced (add_item i A) (snd (item_copy i s))"
proof (cases i)
  case (Some r)
  have "counts (increment 1 (s r)) (Suc (A r))" using bc.enter_ok assms by (auto simp: balanced_def)
  then show ?thesis using assms(1) Some by (simp add: balanced_def item_copy_def)
qed (use assms(1) in \<open>simp add: item_copy_def\<close>)

lemma balanced_release:
  assumes "balanced (add_item i A) s"
  shows "balanced A (snd (item_release i s))"
proof (cases i)
  case (Some r)
  then have s: "counts (s q) (if q = r then Suc (A r) else A q)" for q
    using assms by (simp add: balanced_def)
  have "counts (s r) (Suc (A r))" using s [of r] by simp
  then have "counts (fst (decrement 1 (s r))) (A r)" using bc.leave_ok by blast
  moreover have "counts (s q) (A q)" if "q \<noteq> r" for q using s [of q] that by simp
  ultimately show ?thesis using Some by (simp add: balanced_def item_release_def)
qed (use assms in \<open>simp add: item_release_def\<close>)

lemma item_ops_fst [simp]:
  "fst (item_copy i s) = i" "item_move i = (i, None)" "fst (item_release i s) = None" "item_swap i j = (j, i)"
  by (simp_all add: item_copy_def item_move_def item_release_def item_swap_def)

definition items_ok :: "nat \<Rightarrow> ('n, 'r) item_state \<Rightarrow> bool" where
  "items_ok k s \<longleftrightarrow> finite (dom (vars s)) \<and> card (dom (vars s)) \<le> k \<and> balanced (holders (vars s)) (counters s)"

lemma card_dom_upd: "finite (dom v) \<Longrightarrow> card (dom (v(x \<mapsto> i))) \<le> Suc (card (dom v))"
  by (simp add: card_insert_if)

lemma card_dom_old: "v x = Some j \<Longrightarrow> dom (v(x \<mapsto> i)) = dom v"
  by auto

lemma items_okD:
  assumes "items_ok k s" "k < 2 ^ 32 - 3"
  shows "finite (dom (vars s))" "card (dom (vars s)) \<le> k" "balanced (holders (vars s)) (counters s)"
    "holders (vars s) r < 2 ^ 32 - 2"
  using assms holders_le [of "vars s" r] by (auto simp: items_ok_def)

lemma items_ok_set:
  assumes "items_ok k s" "balanced (add_item i (holders ((vars s)(x := None)))) c"
  shows "items_ok (Suc k) \<lparr>vars = (vars s)(x \<mapsto> i), counters = c\<rparr>"
  using assms card_dom_upd [of "vars s" x i] holders_set [of "vars s" x i] by (auto simp: items_ok_def)

lemma items_ok_made:
  assumes s: "items_ok k s" and k: "k < 2 ^ 32 - 3" and run: "item_run p s = Inr s'"
    and p: "(\<exists>x r. p = Construct x r) \<or> (\<exists>x y. p = Copy x y) \<or> (\<exists>x y. p = Move x y)"
  shows "items_ok (Suc k) s'"
proof -
  note fin = items_okD(1) [OF s k] and le = items_okD(2) [OF s k] and bal = items_okD(3) [OF s k]
    and small' = items_okD(4) [OF s k] and new = items_ok_set [OF s]
  from p show ?thesis
  proof (elim disjE exE)
    fix x r
    assume p: "p = Construct x r"
    then have *: "vars s x = None" "alive (counters s r)"
      "s' = \<lparr>vars = (vars s)(x \<mapsto> Some r), counters = (counters s)(r := increment 1 (counters s r))\<rparr>"
      using run by (auto simp: res_Inr_iff item_new_def)
    have "(vars s)(x := None) = vars s" using *(1) by auto
    then show ?thesis
      unfolding *(3) using balanced_copy [OF bal small', of "Some r"]
      by (intro new) (simp add: item_copy_def)
  next
    fix x y
    assume p: "p = Copy x y"
    then obtain j where *: "vars s x = None" "vars s y = Some j"
      "s' = \<lparr>vars = (vars s)(x \<mapsto> j), counters = snd (item_copy j (counters s))\<rparr>"
      using run by (auto simp: res_Inr_iff with_var_def split_beta split: option.splits)
    have "(vars s)(x := None) = vars s" using *(1) by auto
    then show ?thesis unfolding *(3) using balanced_copy [OF bal small', of j] by (intro new) simp
  next
    fix x y
    assume p: "p = Move x y"
    then obtain j where *: "vars s x = None" "vars s y = Some j"
      "s' = s\<lparr>vars := (vars s)(y \<mapsto> None, x \<mapsto> j)\<rparr>"
      using run by (auto simp: res_Inr_iff with_var_def split_beta split: option.splits)
    have f: "finite (dom ((vars s)(y \<mapsto> None)))" using fin by simp
    have "x \<noteq> y" "(vars s)(x := None) = vars s" using *(1,2) by auto
    then have "holders ((vars s)(y \<mapsto> None, x \<mapsto> j)) = holders (vars s)" using holders_moved [OF fin _ *(2), of x] by simp
    then show ?thesis
      using bal f card_dom_upd [OF f, of x j] card_dom_old [of "vars s" y j None] *(2) le
      unfolding *(3) items_ok_def by simp
  qed
qed

lemma items_ok_dropped:
  assumes s: "items_ok k s" and k: "k < 2 ^ 32 - 3" and run: "item_run p s = Inr s'"
    and p: "(\<exists>x. p = Release x) \<or> (\<exists>x. p = Destroy x)"
  shows "items_ok (Suc k) s'"
proof -
  note fin = items_okD(1) [OF s k] and le = items_okD(2) [OF s k] and bal = items_okD(3) [OF s k]
    and small' = items_okD(4) [OF s k] and new = items_ok_set [OF s]
  from p show ?thesis
  proof (elim disjE exE)
    fix x
    assume p: "p = Release x"
    then obtain i where *: "vars s x = Some i"
      "s' = \<lparr>vars = (vars s)(x \<mapsto> None), counters = snd (item_release i (counters s))\<rparr>"
      using run by (auto simp: with_var_def split_beta split: option.splits)
    show ?thesis
      unfolding *(2) using balanced_release bal holders_old [OF fin *(1)] by (intro new) simp
  next
    fix x
    assume p: "p = Destroy x"
    then obtain i where *: "vars s x = Some i"
      "s' = \<lparr>vars = (vars s)(x := None), counters = snd (item_release i (counters s))\<rparr>"
      using run by (auto simp: with_var_def split_beta split: option.splits)
    have "balanced (holders ((vars s)(x := None))) (snd (item_release i (counters s)))"
      using balanced_release bal holders_old [OF fin *(1)] by simp
    moreover have "card (dom ((vars s)(x := None))) \<le> card (dom (vars s))"
      using fin by (intro card_mono) auto
    ultimately show ?thesis unfolding *(2) items_ok_def using fin le by simp
  qed
qed

lemma items_ok_assigned:
  assumes s: "items_ok k s" and k: "k < 2 ^ 32 - 3" and run: "item_run p s = Inr s'"
    and p: "(\<exists>x y. p = Assign x y) \<or> (\<exists>x y. p = Assign_move x y) \<or> (\<exists>x y. p = Swap x y)"
  shows "items_ok (Suc k) s'"
proof -
  note fin = items_okD(1) [OF s k] and le = items_okD(2) [OF s k] and bal = items_okD(3) [OF s k]
    and small' = items_okD(4) [OF s k] and new = items_ok_set [OF s]
  from p show ?thesis
  proof (elim disjE exE)
    fix x y
    assume p: "p = Assign x y"
    then obtain i j where *: "vars s x = Some i" "vars s y = Some j"
      "s' = \<lparr>vars = (vars s)(x \<mapsto> j), counters = snd (item_release i (snd (item_copy j (counters s))))\<rparr>"
      using run by (auto simp: with_var_def item_assign_copy_def split_beta split: option.splits)
    have "balanced (add_item i (add_item j (holders ((vars s)(x := None))))) (snd (item_copy j (counters s)))"
      using balanced_copy [OF bal small', of j] holders_old [OF fin *(1)] add_item_commute by metis
    then show ?thesis unfolding *(3) by (intro new balanced_release)
  next
    fix x y
    assume p: "p = Assign_move x y"
    then obtain i j where *: "vars s x = Some i" "vars s y = Some j"
      "s' = \<lparr>vars = (vars s)(y \<mapsto> None, x \<mapsto> j),
         counters = snd (item_release (if x = y then None else i) (counters s))\<rparr>"
      using run by (auto simp: with_var_def item_assign_move_def split_beta split: option.splits if_splits)
    show ?thesis
    proof (cases "x = y")
      case True
      then have "(vars s)(y \<mapsto> None, x \<mapsto> j) = vars s" using *(2) by auto
      then show ?thesis
        using s True unfolding *(3) by (simp add: items_ok_def item_release_def)
    next
      case False
      have "holders ((vars s)(y \<mapsto> None, x \<mapsto> j)) = holders ((vars s)(x := None))" using fin False *(2) by (rule holders_moved)
      moreover have "balanced (holders ((vars s)(x := None))) (snd (item_release i (counters s)))"
        using balanced_release bal holders_old [OF fin *(1)] by simp
      moreover have "dom ((vars s)(y \<mapsto> None, x \<mapsto> j)) = dom (vars s)" using *(1,2) by auto
      ultimately show ?thesis using fin le False unfolding *(3) items_ok_def by simp
    qed
  next
    fix x y
    assume p: "p = Swap x y"
    then obtain i j where *: "vars s x = Some i" "vars s y = Some j"
      "s' = s\<lparr>vars := (vars s)(y \<mapsto> i, x \<mapsto> j)\<rparr>"
      using run by (auto simp: with_var_def split_beta split: option.splits)
    have "holders ((vars s)(y \<mapsto> i, x \<mapsto> j)) = holders (vars s)" using fin *(1,2) by (rule holders_swap)
    moreover have "dom ((vars s)(y \<mapsto> i, x \<mapsto> j)) = dom (vars s)" using *(1,2) by auto
    ultimately show ?thesis using fin le bal unfolding *(3) items_ok_def by simp
  qed
qed

lemma items_ok_step:
  assumes s: "items_ok k s" and k: "k < 2 ^ 32 - 3" and run: "item_run p s = Inr s'"
  shows "items_ok (Suc k) s'"
proof (cases p)
  case (Disable r)
  then have *: "s' = s\<lparr>counters := (counters s)(r := fst (disable (counters s r)))\<rparr>" using run by simp
  have "counts (fst (disable (counters s r))) (holders (vars s) r)"
    using bc.shut_ok s by (simp add: items_ok_def balanced_def)
  then show ?thesis using s unfolding * items_ok_def by (simp add: balanced_def)
qed (auto intro: items_ok_made [OF s k run] items_ok_dropped [OF s k run] items_ok_assigned [OF s k run])

lemma items_ok_runs:
  "items_ok k s \<Longrightarrow> k + length ps < 2 ^ 32 - 3 \<Longrightarrow> item_runs ps s = Inr s' \<Longrightarrow> items_ok (k + length ps) s'"
proof (induction ps arbitrary: k s)
  case (Cons p ps)
  obtain s1 where r: "item_run p s = Inr s1" "item_runs ps s1 = Inr s'"
    using Cons.prems(3) by (auto simp: res_Inr_iff)
  have "items_ok (Suc k) s1" using items_ok_step [OF Cons.prems(1) _ r(1)] Cons.prems(2) by simp
  from Cons.IH [OF this _ r(2)] Cons.prems(2) show ?case by simp
qed simp

lemma items_ok_start: "items_ok 0 no_items"
  by (simp add: items_ok_def no_items_def balanced_def holders_def counts_new)

subsection \<open>Properties of the items\<close>

text \<open>C14. The reference count is exact: after any program of at most \<open>2^32 - 4\<close> item operations
  (construction, copies, moves, both assignments, also to itself, swaps, releases, destruction,
  and disabling), from fresh counters, each counter equals the number of items that point to it,
  plus one while it is alive; so a waiter may go on exactly when no item is left.\<close>

theorem item_count_exact:
  assumes "item_runs ps no_items = Inr s" "length ps < 2 ^ 32 - 3"
  shows "unat (count (counters s r)) =
      card {x. vars s x = Some (Some r)} + (if alive (counters s r) then 1 else 0) \<and>
    (wait_over (counters s r) \<longleftrightarrow> \<not> alive (counters s r) \<and> (\<forall>x. vars s x \<noteq> Some (Some r)))"
proof -
  have ok: "items_ok (length ps) s"
    using items_ok_runs [OF items_ok_start _ assms(1)] assms(2) by simp
  then have c: "counts (counters s r) (holders (vars s) r)" and fin: "finite (dom (vars s))"
    by (auto simp: items_ok_def balanced_def)
  have "wait_over (counters s r) \<longleftrightarrow> \<not> alive (counters s r) \<and> (\<forall>x. vars s x \<noteq> Some (Some r))"
    using bc.passes_iff [OF c] bc.blocks_open [OF c] finite_holders [OF fin, of r]
    by (cases "alive (counters s r)") (auto simp: holders_def)
  then show ?thesis using c by (simp add: counts_def holders_def)
qed

lemma decrement_eval: "decrement 1 c = (if unat (count c) \<le> 1 then (c\<lparr>count := 0\<rparr>, True)
     else (c\<lparr>count := count c - 1\<rparr>, False))"
  by (simp add: decrement_def word_le_nat_alt)

lemmas item_eval = item_new_def item_copy_def item_release_def item_assign_copy_def item_assign_move_def
  item_move_def item_swap_def with_var_def increment_def decrement_eval disable_def new_counter_def
  no_items_def wait_over_def

theorem item_count_exact_witness:
  "\<exists>s. item_runs [Construct 10 (0 :: nat), Copy 20 10, Assign_move 10 10, Move 30 20,
      Destroy (10 :: nat), Disable 0] no_items = Inr s \<and>
    unat (count (counters s 0)) = card {x. vars s x = Some (Some 0)} \<and>
    \<not> wait_over (counters s 0) \<and> (\<exists>x. vars s x = Some (Some 0))"
proof -
  let ?ps = "[Construct 10 (0 :: nat), Copy 20 10, Assign_move 10 10, Move 30 20,
      Destroy (10 :: nat), Disable 0]"
  obtain s where s: "item_runs ?ps no_items = Inr s" "\<not> alive (counters s 0)" "\<not> wait_over (counters s 0)"
    by (simp add: item_eval)
  show ?thesis using item_count_exact [OF s(1), of 0] s by (intro exI [of _ s]) auto
qed

subsection \<open>The unlocked increment\<close>

text \<open>
  \<open>increment\<close> is \<open>count_ += by\<close> on a plain integer without \<open>count_mutex_\<close>, so another
  thread can run between its load and its store. Threads hold at most one item; one more
  thread runs \<open>wait_and_disable\<close>.
\<close>

datatype holder = Out | Loaded "32 word" | In

datatype waiter = Before | Blocked | Returned

record race =
  ctr :: counter
  threads :: "nat \<Rightarrow> holder"
  waiting :: waiter

definition race_start :: race where
  "race_start = \<lparr>ctr = new_counter, threads = \<lambda>_. Out, waiting = Before\<rparr>"

inductive race_step :: "race \<Rightarrow> race \<Rightarrow> bool" where
  load: "threads s i = Out \<Longrightarrow> alive (ctr s) \<Longrightarrow>
    race_step s (s\<lparr>threads := (threads s)(i := Loaded (count (ctr s)))\<rparr>)"
| store: "threads s i = Loaded v \<Longrightarrow>
    race_step s (s\<lparr>threads := (threads s)(i := In), ctr := (ctr s)\<lparr>count := v + 1\<rparr>\<rparr>)"
| release: "threads s i = In \<Longrightarrow>
    race_step s (s\<lparr>threads := (threads s)(i := Out), ctr := fst (decrement 1 (ctr s))\<rparr>)"
| wait_start: "waiting s = Before \<Longrightarrow>
    race_step s (s\<lparr>ctr := fst (disable (ctr s)), waiting := Blocked\<rparr>)"
| wait_end: "waiting s = Blocked \<Longrightarrow> wait_over (ctr s) \<Longrightarrow> race_step s (s\<lparr>waiting := Returned\<rparr>)"

inductive_cases race_stepE: "race_step s s'"

text \<open>The unlocked increment can break the wait in both directions: there are runs in which
  \<open>wait_and_disable\<close> returns although a thread holds an item, and runs after which it never
  returns although every item was released (the state allows no further step).\<close>

theorem increment_race:
  "(\<exists>s. race_step\<^sup>*\<^sup>* race_start s \<and> waiting s = Returned \<and> threads s 0 = In) \<and>
   (\<exists>s. race_step\<^sup>*\<^sup>* race_start s \<and> waiting s = Blocked \<and> (\<forall>i. threads s i = Out) \<and> \<not> (\<exists>s'. race_step s s'))"
proof (intro conjI)
  let ?s = "\<lambda>a c ts w. \<lparr>ctr = \<lparr>alive = a, count = c\<rparr>, threads = ts, waiting = w\<rparr>"
  let ?o = "\<lambda>_ :: nat. Out"
  note E = race_start_def item_eval
  have l0: "race_step race_start (?s True 1 (?o(0 := Loaded 1)) Before)"
    using race_step.load [of race_start 0] by (simp add: E)
  have "race_step (?s True 1 (?o(0 := Loaded 1)) Before) (?s False 0 (?o(0 := Loaded 1)) Blocked)"
    using race_step.wait_start [of "?s True 1 (?o(0 := Loaded 1)) Before"] by (simp add: E)
  moreover have "race_step (?s False 0 (?o(0 := Loaded 1)) Blocked) (?s False 0 (?o(0 := Loaded 1)) Returned)"
    using race_step.wait_end [of "?s False 0 (?o(0 := Loaded 1)) Blocked"] by (simp add: E)
  moreover have "race_step (?s False 0 (?o(0 := Loaded 1)) Returned) (?s False 2 (?o(0 := In)) Returned)"
    using race_step.store [of "?s False 0 (?o(0 := Loaded 1)) Returned" 0 1] by (simp add: E)
  ultimately have "race_step\<^sup>*\<^sup>* race_start (?s False 2 (?o(0 := In)) Returned)"
    using l0 by (meson converse_rtranclp_into_rtranclp rtranclp.rtrancl_refl)
  then show "\<exists>s. race_step\<^sup>*\<^sup>* race_start s \<and> waiting s = Returned \<and> threads s 0 = In"
    by (intro exI [of _ "?s False 2 (?o(0 := In)) Returned"]) simp
  have "race_step (?s True 1 (?o(0 := Loaded 1)) Before) (?s True 2 (?o(0 := In)) Before)"
    using race_step.store [of "?s True 1 (?o(0 := Loaded 1)) Before" 0 1] by (simp add: E)
  moreover have "race_step (?s True 2 (?o(0 := In)) Before) (?s True 2 (?o(0 := In, 1 := Loaded 2)) Before)"
    using race_step.load [of "?s True 2 (?o(0 := In)) Before" 1] by (simp add: E)
  moreover have "race_step (?s True 2 (?o(0 := In, 1 := Loaded 2)) Before)
      (?s False 1 (?o(0 := In, 1 := Loaded 2)) Blocked)"
    using race_step.wait_start [of "?s True 2 (?o(0 := In, 1 := Loaded 2)) Before"] by (simp add: E)
  moreover have "race_step (?s False 1 (?o(0 := In, 1 := Loaded 2)) Blocked)
      (?s False 3 (?o(0 := In, 1 := In)) Blocked)"
    using race_step.store [of "?s False 1 (?o(0 := In, 1 := Loaded 2)) Blocked" 1 2] by (simp add: E)
  moreover have "race_step (?s False 3 (?o(0 := In, 1 := In)) Blocked) (?s False 2 (?o(1 := In)) Blocked)"
    using race_step.release [of "?s False 3 (?o(0 := In, 1 := In)) Blocked" 0]
    by (simp add: E fun_upd_twist) (simp add: fun_upd_def)?
  moreover have "race_step (?s False 2 (?o(1 := In)) Blocked) (?s False 1 ?o Blocked)"
    using race_step.release [of "?s False 2 (?o(1 := In)) Blocked" 1] by (simp add: E fun_upd_idem)
  ultimately have run: "race_step\<^sup>*\<^sup>* race_start (?s False 1 ?o Blocked)"
    using l0 by (meson converse_rtranclp_into_rtranclp rtranclp.rtrancl_refl)
  have "\<not> race_step (?s False 1 ?o Blocked) s'" for s'
    by (auto simp: wait_over_def elim!: race_stepE)
  then show "\<exists>s. race_step\<^sup>*\<^sup>* race_start s \<and> waiting s = Blocked \<and> (\<forall>i. threads s i = Out) \<and> \<not> (\<exists>s'. race_step s s')"
    using run by (intro exI [of _ "?s False 1 ?o Blocked"]) auto
qed

end
