(* ===== verification/Executor_Threads.thy ===== *)
theory Executor_Threads
  imports Executor_Inv Blocking_Counter
begin

text \<open>
  The worker threads of \<open>core/executor.cpp\<close>: \<open>run_tasks_no_affinity\<close>,
  \<open>run_tasks_with_affinity\<close>, \<open>run_task\<close> and \<open>close_and_wait\<close> as the steps between two
  operations on \<open>tasks_mutex_\<close>, interleaved with the calls of client threads. A step of the
  model is at most one critical section of the code; where a worker signals the dependents of
  a task and goes on to the next one without unlocking, the model allows other threads in
  between, so it has every behaviour of the code and more.
\<close>

subsection \<open>Workers\<close>

text \<open>Where a thread is: outside the two functions, past the unlocked test of \<open>closed_\<close>, about
  to look at the queues, between \<open>unlock\<close> and \<open>lock\<close> after finding them empty, or running
  the closure of a task. The affinity of \<open>run_tasks_no_affinity\<close> is \<open>NO_AFFINITY\<close>.\<close>

datatype 'c worker =
    Outside
  | Entering thread_id
  | Looking thread_id
  | Sleeping thread_id
  | Busy thread_id task_id "'c task"

record 'c pool =
  exec :: "'c executor"
  num_threads :: counter
  thread_exists_for_affinity :: "bool list"
  workers :: "nat \<Rightarrow> 'c worker"

definition new_pool :: "'c pool res" where
  "new_pool = bind_res new_executor (\<lambda>e. Inr \<lparr>exec = e, num_threads = new_counter,
     thread_exists_for_affinity = replicate MAX_THREADS False, workers = \<lambda>_. Outside\<rparr>)"

text \<open>What the rest of the world sees of a step.\<close>

datatype event = Quiet | Added task_id "task_id list" | Started nat task_id | Finished nat

definition set_worker :: "nat \<Rightarrow> 'c worker \<Rightarrow> 'c pool \<Rightarrow> 'c pool" where
  "set_worker w s p = p\<lparr>workers := (workers p)(w := s)\<rparr>"

subsection \<open>The steps of a worker\<close>

text \<open>The unlocked \<open>if (closed_) return;\<close> on entry.\<close>

definition call_run :: "nat \<Rightarrow> thread_id \<Rightarrow> 'c pool \<Rightarrow> 'c pool" where
  "call_run w a p = (if closed (exec p) then p else set_worker w (Entering a) p)"

text \<open>Registering the thread: the \<open>Item\<close> and, with an affinity, the existence flag.\<close>

definition enter :: "nat \<Rightarrow> thread_id \<Rightarrow> 'c pool \<Rightarrow> 'c pool res" where
  "enter w a p =
     require (alive (num_threads p)) Check_failed (
     let p = p\<lparr>num_threads := increment 1 (num_threads p)\<rparr> in
     if a = NO_AFFINITY then Inr (set_worker w (Looking a) p)
     else fetch (thread_exists_for_affinity p) (unat a) (\<lambda>exists.
       require (\<not> exists) Check_failed (
       Inr (set_worker w (Looking a)
         (p\<lparr>thread_exists_for_affinity := (thread_exists_for_affinity p)[unat a := True]\<rparr>)))))"

definition next_queue :: "thread_id \<Rightarrow> 'c executor \<Rightarrow> queue_ref option res" where
  "next_queue a e =
     (if a = NO_AFFINITY
      then bind_res (empty_task_list (global_task_queue e)) (\<lambda>empty. Inr (if empty then None else Some Global))
      else choose_queue (unat a) e)"

text \<open>Looking at the queues: a task is popped and run, or the thread unlocks and sleeps. The
  \<open>DCHECK_EQ\<close> is the first line of \<open>run_task\<close>; an empty closure is run like any other.\<close>

definition look :: "nat \<Rightarrow> thread_id \<Rightarrow> 'c pool \<Rightarrow> (event \<times> 'c pool) res" where
  "look w a p =
     bind_res (next_queue a (exec p)) (\<lambda>next. case next of
       None \<Rightarrow> Inr (Quiet, set_worker w (Sleeping a) p)
     | Some q \<Rightarrow>
         get_queue (exec p) q (\<lambda>queue.
         bind_res (pop_task q (exec p)) (\<lambda>(task, e).
         require (num_unmet_dependencies task = 0) Dcheck_failed (
         Inr (Started w (front queue), set_worker w (Busy a (front queue) task) (p\<lparr>exec := e\<rparr>))))))"

text \<open>Leaving the loop; the destructor of the \<open>Item\<close> runs before that of the lock.\<close>

definition leave_loop :: "nat \<Rightarrow> thread_id \<Rightarrow> 'c pool \<Rightarrow> 'c pool" where
  "leave_loop w a p =
     set_worker w Outside (p\<lparr>num_threads := fst (decrement 1 (num_threads p)),
       thread_exists_for_affinity := (if a = NO_AFFINITY then thread_exists_for_affinity p
         else (thread_exists_for_affinity p)[unat a := False])\<rparr>)"

text \<open>After \<open>lock.lock()\<close> in the waiting loop.\<close>

definition wake :: "nat \<Rightarrow> thread_id \<Rightarrow> 'c pool \<Rightarrow> (event \<times> 'c pool) res" where
  "wake w a p = (if closed (exec p) then Inr (Quiet, leave_loop w a p) else look w a p)"

text \<open>The end of \<open>run_task\<close>: \<open>None\<close> if the loop over the dependents does not end.\<close>

definition finish :: "nat \<Rightarrow> thread_id \<Rightarrow> 'c task \<Rightarrow> 'c pool \<Rightarrow> (event \<times> 'c pool) res option" where
  "finish w a task p =
     map_option (\<lambda>r. bind_res r (\<lambda>e. Inr (Finished w, set_worker w (Looking a) (p\<lparr>exec := e\<rparr>))))
       (signal_dependents task (exec p))"

subsection \<open>The actions of all threads\<close>

datatype 'c action =
    Call_run nat thread_id
  | Proceed nat
  | Add_task "'c option" "task_id list" thread_id
  | Close_pool
  | Disable_pool

fun perform :: "'c action \<Rightarrow> 'c pool \<Rightarrow> (event \<times> 'c pool) res option" where
  "perform (Call_run w a) p = Some (Inr (Quiet, call_run w a p))"
| "perform (Proceed w) p = (case workers p w of
     Outside \<Rightarrow> Some (Inr (Quiet, p))
   | Entering a \<Rightarrow> Some (bind_res (enter w a p) (\<lambda>p. Inr (Quiet, p)))
   | Looking a \<Rightarrow> Some (look w a p)
   | Sleeping a \<Rightarrow> Some (wake w a p)
   | Busy a t x \<Rightarrow> finish w a x p)"
| "perform (Add_task c us a) p =
     Some (bind_res (add_task c us a (exec p)) (\<lambda>(t, e).
       Inr (if closed (exec p) then Quiet else Added t us, p\<lparr>exec := e\<rparr>)))"
| "perform Close_pool p = Some (Inr (Quiet, p\<lparr>exec := close (exec p)\<rparr>))"
| "perform Disable_pool p = Some (Inr (Quiet, p\<lparr>num_threads := fst (disable (num_threads p))\<rparr>))"

text \<open>What the code asks of its clients: a thread starts one loop at a time, and one per
  affinity; room for the tasks and their dependencies; a task does not depend on an id that
  was not handed out yet; and no thread is between the unlocked test and the lock when
  \<open>wait_and_disable\<close> runs.\<close>

fun worker_affinity :: "'c worker \<Rightarrow> thread_id option" where
  "worker_affinity Outside = None"
| "worker_affinity (Entering a) = Some a"
| "worker_affinity (Looking a) = Some a"
| "worker_affinity (Sleeping a) = Some a"
| "worker_affinity (Busy a t x) = Some a"

fun inside :: "'c worker \<Rightarrow> bool" where
  "inside Outside = False"
| "inside (Entering a) = False"
| "inside (Looking a) = True"
| "inside (Sleeping a) = True"
| "inside (Busy a t x) = True"

definition max_workers :: nat where "max_workers = 2 ^ 32 - 2"

fun client_ok :: "'c action \<Rightarrow> 'c pool \<Rightarrow> bool" where
  "client_ok (Call_run w a) p \<longleftrightarrow> w < max_workers \<and> workers p w = Outside \<and>
     (a = NO_AFFINITY \<or> unat a < MAX_THREADS \<and> (\<forall>v. worker_affinity (workers p v) \<noteq> Some a))"
| "client_ok (Proceed w) p \<longleftrightarrow> True"
| "client_ok (Add_task c us a) p \<longleftrightarrow> closed (exec p) \<or>
     ((a = NO_AFFINITY \<or> unat a < MAX_THREADS) \<and>
      card (dom (tmap (exec p))) < 2 ^ task_bits - 1 \<and>
      card (dom (dmap (exec p))) + length us \<le> 2 ^ dependent_bits - 1 \<and>
      (\<forall>t ts. sv_emplace task_bits (tasks (exec p)) (new_task c a) = Inr (t, ts) \<longrightarrow> t \<notin> set us))"
| "client_ok Close_pool p \<longleftrightarrow> True"
| "client_ok Disable_pool p \<longleftrightarrow> (\<forall>w a. workers p w \<noteq> Entering a) \<and> closed (exec p)"

inductive pool_run :: "event list \<Rightarrow> 'c pool \<Rightarrow> bool" where
  start: "new_pool = Inr p \<Longrightarrow> pool_run [] p"
| step: "pool_run h p \<Longrightarrow> client_ok act p \<Longrightarrow> perform act p = Some (Inr (ev, p')) \<Longrightarrow>
    pool_run (h @ [ev]) p'"

subsection \<open>Registration of the workers\<close>

definition staff_ok :: "'c pool \<Rightarrow> bool" where
  "staff_ok p \<longleftrightarrow> length (thread_exists_for_affinity p) = MAX_THREADS \<and>
     (\<forall>a. unat a < MAX_THREADS \<longrightarrow> (thread_exists_for_affinity p ! unat a \<longleftrightarrow>
        (\<exists>w. inside (workers p w) \<and> worker_affinity (workers p w) = Some a))) \<and>
     (\<forall>w a. worker_affinity (workers p w) = Some a \<longrightarrow>
        w < max_workers \<and> (a = NO_AFFINITY \<or> unat a < MAX_THREADS)) \<and>
     (\<forall>v w a. worker_affinity (workers p v) = Some a \<longrightarrow> worker_affinity (workers p w) = Some a \<longrightarrow>
        v \<noteq> w \<longrightarrow> a = NO_AFFINITY) \<and>
     counts (num_threads p) (card {w. inside (workers p w)}) \<and>
     (\<not> alive (num_threads p) \<longrightarrow> closed (exec p) \<and> (\<forall>w a. workers p w \<noteq> Entering a))"

lemma staff_okD:
  assumes "staff_ok p"
  shows "length (thread_exists_for_affinity p) = MAX_THREADS"
    "unat a < MAX_THREADS \<Longrightarrow> thread_exists_for_affinity p ! unat a \<longleftrightarrow>
       (\<exists>w. inside (workers p w) \<and> worker_affinity (workers p w) = Some a)"
    "worker_affinity (workers p w) = Some a \<Longrightarrow> w < max_workers"
    "worker_affinity (workers p w) = Some a \<Longrightarrow> a = NO_AFFINITY \<or> unat a < MAX_THREADS"
    "worker_affinity (workers p v) = Some a \<Longrightarrow> worker_affinity (workers p w) = Some a \<Longrightarrow>
       v \<noteq> w \<Longrightarrow> a = NO_AFFINITY"
    "counts (num_threads p) (card {w. inside (workers p w)})"
    "\<not> alive (num_threads p) \<Longrightarrow> closed (exec p)" "\<not> alive (num_threads p) \<Longrightarrow> workers p w \<noteq> Entering a"
  using assms unfolding staff_ok_def by blast+

lemma staff_okI:
  assumes "length (thread_exists_for_affinity p) = MAX_THREADS"
    "\<And>a. unat a < MAX_THREADS \<Longrightarrow> thread_exists_for_affinity p ! unat a \<longleftrightarrow>
       (\<exists>w. inside (workers p w) \<and> worker_affinity (workers p w) = Some a)"
    "\<And>w a. worker_affinity (workers p w) = Some a \<Longrightarrow> w < max_workers"
    "\<And>w a. worker_affinity (workers p w) = Some a \<Longrightarrow> a = NO_AFFINITY \<or> unat a < MAX_THREADS"
    "\<And>v w a. worker_affinity (workers p v) = Some a \<Longrightarrow> worker_affinity (workers p w) = Some a \<Longrightarrow>
       v \<noteq> w \<Longrightarrow> a = NO_AFFINITY"
    "counts (num_threads p) (card {w. inside (workers p w)})"
    "\<not> alive (num_threads p) \<Longrightarrow> closed (exec p)"
    "\<And>w a. \<not> alive (num_threads p) \<Longrightarrow> workers p w \<noteq> Entering a"
  shows "staff_ok p"
  unfolding staff_ok_def using assms by blast

lemma inside_affinity: "inside s \<Longrightarrow> \<exists>a. worker_affinity s = Some a"
  by (cases s) auto

lemma inside_bound:
  assumes "staff_ok p"
  shows "{w. inside (workers p w)} \<subseteq> {..<max_workers}"
  using staff_okD(3) [OF assms] inside_affinity by blast

lemma finite_inside: "staff_ok p \<Longrightarrow> finite {w. inside (workers p w)}"
  using inside_bound finite_subset by blast

lemma unat_NO_AFFINITY [simp]: "\<not> unat NO_AFFINITY < MAX_THREADS"
  by (simp add: NO_AFFINITY_def MAX_THREADS_def unsigned_minus_1_eq_mask mask_eq_exp_minus_1)

lemma set_worker_sel [simp]:
  "exec (set_worker w s p) = exec p" "num_threads (set_worker w s p) = num_threads p"
  "thread_exists_for_affinity (set_worker w s p) = thread_exists_for_affinity p"
  "workers (set_worker w s p) = (workers p)(w := s)"
  by (simp_all add: set_worker_def)

text \<open>A worker that stays on the same side of the registration changes nothing.\<close>

lemma staff_same:
  assumes ok: "staff_ok p" and s: "worker_affinity s = worker_affinity (workers p w)"
      "inside s = inside (workers p w)" "\<And>a. s = Entering a \<Longrightarrow> workers p w = Entering a"
    and p': "num_threads p' = num_threads p" "thread_exists_for_affinity p' = thread_exists_for_affinity p"
      "workers p' = (workers p)(w := s)" "closed (exec p) \<Longrightarrow> closed (exec p')"
  shows "staff_ok p'"
proof -
  have a: "worker_affinity (workers p' v) = worker_affinity (workers p v)" for v using s(1) p'(3) by simp
  have i: "inside (workers p' v) = inside (workers p v)" for v using s(2) p'(3) by simp
  have e: "workers p' v = Entering b \<Longrightarrow> workers p v = Entering b" for v b
    using s(3) p'(3) by (auto split: if_splits)
  show ?thesis unfolding staff_ok_def a i p'(1,2)
    using ok [unfolded staff_ok_def] e p'(4) by blast
qed

lemma staff_call:
  assumes ok: "staff_ok p" and c: "client_ok (Call_run w a) p"
  shows "staff_ok (call_run w a p)"
proof (cases "closed (exec p)")
  case False
  let ?p = "set_worker w (Entering a) p"
  have out: "workers p w = Outside" using c by simp
  note D = staff_okD [OF ok]
  have i: "inside (workers ?p v) = inside (workers p v)" for v using out by simp
  have al: "alive (num_threads p)" using D(7) False by blast
  have aff: "worker_affinity (workers ?p v) = Some b \<longleftrightarrow>
      (if v = w then b = a else worker_affinity (workers p v) = Some b)" for v b by auto
  have "(\<exists>v. inside (workers ?p v) \<and> worker_affinity (workers ?p v) = Some b) \<longleftrightarrow>
      (\<exists>v. inside (workers p v) \<and> worker_affinity (workers p v) = Some b)" for b
    unfolding i aff using out by (metis inside.simps(1))
  then have flag: "thread_exists_for_affinity ?p ! unat b \<longleftrightarrow>
      (\<exists>v. inside (workers ?p v) \<and> worker_affinity (workers ?p v) = Some b)" if "unat b < MAX_THREADS" for b
    using D(2) [OF that] by simp
  have "staff_ok ?p"
  proof (rule staff_okI)
    show "v < max_workers" if "worker_affinity (workers ?p v) = Some b" for v b
      using that D(3) [of v b] c unfolding aff by (auto split: if_splits)
    show "b = NO_AFFINITY \<or> unat b < MAX_THREADS" if "worker_affinity (workers ?p v) = Some b" for v b
      using that D(4) [of v b] c unfolding aff by (auto split: if_splits)
    show "b = NO_AFFINITY" if "worker_affinity (workers ?p u) = Some b" "worker_affinity (workers ?p v) = Some b"
      "u \<noteq> v" for u v b
      using that D(5) [of u b v] c unfolding aff by (auto split: if_splits)
    show "counts (num_threads ?p) (card {v. inside (workers ?p v)})" unfolding i using D(6) by simp
  qed (use D(1) al flag in \<open>simp_all only: set_worker_sel not_True_eq_False\<close>)
  then show ?thesis using False by (simp add: call_run_def)
qed (use ok in \<open>simp add: call_run_def\<close>)

lemma staff_entered:
  assumes ok: "staff_ok p" and w: "workers p w = Entering a"
    and p': "num_threads p' = increment 1 (num_threads p)" "workers p' = (workers p)(w := Looking a)" "exec p' = exec p"
      "length (thread_exists_for_affinity p') = MAX_THREADS"
      "\<And>b. unat b < MAX_THREADS \<Longrightarrow> thread_exists_for_affinity p' ! unat b \<longleftrightarrow>
        (\<exists>v. inside (((workers p)(w := Looking a)) v) \<and> worker_affinity (workers p v) = Some b)"
  shows "staff_ok p'"
proof -
  note D = staff_okD [OF ok]
  have al: "alive (num_threads p)" using D(8) w by blast
  have nin: "\<not> inside (workers p w)" using w by simp
  have aff: "worker_affinity (workers p w) = Some a" using w by simp
  have fin: "finite {v. inside (workers p v)}" using ok by (rule finite_inside)
  have sub: "{v. inside (workers p v)} \<subseteq> {..<max_workers} - {w}" using inside_bound [OF ok] nin by auto
  have "card {v. inside (workers p v)} \<le> card ({..<max_workers} - {w})" by (rule card_mono [OF _ sub]) simp
  also have "\<dots> = max_workers - 1" using D(3) [OF aff] by simp
  finally have lt: "card {v. inside (workers p v)} < 2 ^ 32 - 2" by (simp add: max_workers_def)
  let ?c = "increment 1 (num_threads p)"
  have ws: "{v. inside (((workers p)(w := Looking a)) v)} = insert w {v. inside (workers p v)}" by auto
  have cnt: "counts ?c (card {v. inside (((workers p)(w := Looking a)) v)})" "alive ?c"
    unfolding ws using bc.enter_ok [OF D(6) lt] fin nin al by auto
  have aff': "worker_affinity (((workers p)(w := Looking a)) v) = worker_affinity (workers p v)" for v
    using w by simp
  show ?thesis
  proof (rule staff_okI)
    have aff2: "worker_affinity (workers p' v) = worker_affinity (workers p v)" for v
      unfolding p'(2) by (rule aff')
    show "v < max_workers" if "worker_affinity (workers p' v) = Some b" for v b
      using that D(3) unfolding aff2 by blast
    show "b = NO_AFFINITY \<or> unat b < MAX_THREADS" if "worker_affinity (workers p' v) = Some b" for v b
      using that D(4) unfolding aff2 by blast
    show "b = NO_AFFINITY" if "worker_affinity (workers p' u) = Some b" "worker_affinity (workers p' v) = Some b"
      "u \<noteq> v" for u v b
      using that D(5) unfolding aff2 by blast
    show "length (thread_exists_for_affinity p') = MAX_THREADS" by (rule p'(4))
    show "thread_exists_for_affinity p' ! unat b \<longleftrightarrow>
      (\<exists>v. inside (workers p' v) \<and> worker_affinity (workers p' v) = Some b)" if "unat b < MAX_THREADS" for b
      using p'(5) [OF that] aff' p'(2) by metis
    show "counts (num_threads p') (card {v. inside (workers p' v)})" using cnt(1) unfolding p'(1,2) .
    show "closed (exec p')" "workers p' v \<noteq> Entering b" if "\<not> alive (num_threads p')" for v b
      using that cnt(2) unfolding p'(1) by blast+
  qed
qed

lemma staff_enter:
  assumes ok: "staff_ok p" and w: "workers p w = Entering a"
  obtains p' where "enter w a p = Inr p'" "staff_ok p'" "exec p' = exec p"
    "workers p' = (workers p)(w := Looking a)"
proof -
  note D = staff_okD [OF ok]
  have al: "alive (num_threads p)" using D(8) w by blast
  have nin: "\<not> inside (workers p w)" using w by simp
  have aff: "worker_affinity (workers p w) = Some a" using w by simp
  let ?c = "increment 1 (num_threads p)"
  note staff = staff_entered [OF ok w]
  show ?thesis
  proof (cases "a = NO_AFFINITY")
    case True
    let ?p = "set_worker w (Looking a) (p\<lparr>num_threads := ?c\<rparr>)"
    have flag: "(\<exists>v. inside (((workers p)(w := Looking a)) v) \<and> worker_affinity (workers p v) = Some b) \<longleftrightarrow>
       (\<exists>v. inside (workers p v) \<and> worker_affinity (workers p v) = Some b)" if "unat b < MAX_THREADS" for b
    proof -
      have "b \<noteq> a" using that True by auto
      then have "worker_affinity (workers p w) \<noteq> Some b" using aff by simp
      then show ?thesis by (metis fun_upd_other)
    qed
    have "staff_ok ?p" by (rule staff) (use D(1,2) flag in simp_all)
    then show ?thesis using that [of ?p] True al by (simp add: enter_def)
  next
    case False
    then have lt: "unat a < MAX_THREADS" using D(4) [OF aff] by blast
    let ?f = "(thread_exists_for_affinity p)[unat a := True]"
    let ?p = "set_worker w (Looking a) (p\<lparr>num_threads := ?c, thread_exists_for_affinity := ?f\<rparr>)"
    have no: "\<not> thread_exists_for_affinity p ! unat a"
      using D(2) [OF lt] D(5) [OF aff] nin False by blast
    have flag: "?f ! unat b \<longleftrightarrow>
        (\<exists>v. inside (((workers p)(w := Looking a)) v) \<and> worker_affinity (workers p v) = Some b)"
      if b: "unat b < MAX_THREADS" for b
    proof (cases "b = a")
      case True
      then show ?thesis using D(1) lt aff by auto
    next
      case False
      then have "unat a \<noteq> unat b" by (metis word_unat_eq_iff)
      then have "?f ! unat b = thread_exists_for_affinity p ! unat b" by simp
      moreover have "worker_affinity (workers p w) \<noteq> Some b" using aff False by simp
      ultimately show ?thesis using D(2) [OF b] by (metis fun_upd_other)
    qed
    have "staff_ok ?p" by (rule staff) (use D(1) flag in simp_all)
    then show ?thesis using that [of ?p] False al lt no D(1) by (simp add: enter_def Let_def)
  qed
qed

lemma staff_leave:
  assumes ok: "staff_ok p" and w: "workers p w = Sleeping a"
  shows "staff_ok (leave_loop w a p)"
proof -
  note D = staff_okD [OF ok]
  let ?p = "leave_loop w a p"
  have aff: "worker_affinity (workers p w) = Some a" and ins: "inside (workers p w)" using w by simp_all
  have fin: "finite {v. inside (workers p v)}" using ok by (rule finite_inside)
  have ws: "workers ?p = (workers p)(w := Outside)" by (simp add: leave_loop_def)
  have nt: "num_threads ?p = fst (decrement 1 (num_threads p))" by (simp add: leave_loop_def)
  have ex: "exec ?p = exec p" by (simp add: leave_loop_def)
  have "{v. inside (workers p v)} = insert w {v. inside (workers ?p v)}" unfolding ws using ins by auto
  moreover have "w \<notin> {v. inside (workers ?p v)}" "finite {v. inside (workers ?p v)}"
    using fin ws by (auto elim: rev_finite_subset)
  ultimately have "card {v. inside (workers p v)} = Suc (card {v. inside (workers ?p v)})" by simp
  then have cnt: "counts (num_threads ?p) (card {v. inside (workers ?p v)})"
    "alive (num_threads ?p) = alive (num_threads p)"
    unfolding nt using bc.leave_ok D(6) by auto
  have aff': "worker_affinity (workers ?p v) = Some b \<longleftrightarrow> v \<noteq> w \<and> worker_affinity (workers p v) = Some b" for v b
    unfolding ws by simp
  have ins': "inside (workers ?p v) \<longleftrightarrow> v \<noteq> w \<and> inside (workers p v)" for v unfolding ws by simp
  have flag: "thread_exists_for_affinity ?p ! unat b \<longleftrightarrow>
      (\<exists>v. inside (workers ?p v) \<and> worker_affinity (workers ?p v) = Some b)" if b: "unat b < MAX_THREADS" for b
  proof (cases "b = a")
    case True
    then have "a \<noteq> NO_AFFINITY" using b by auto
    then have "thread_exists_for_affinity ?p ! unat b = False"
      using True b D(1) by (simp add: leave_loop_def)
    moreover have "worker_affinity (workers ?p v) \<noteq> Some b" for v
      unfolding aff' using D(5) [of v a w] aff True \<open>a \<noteq> NO_AFFINITY\<close> by blast
    ultimately show ?thesis by blast
  next
    case False
    then have "unat a \<noteq> unat b" by (metis word_unat_eq_iff)
    then have "thread_exists_for_affinity ?p ! unat b = thread_exists_for_affinity p ! unat b"
      by (simp add: leave_loop_def)
    moreover have "worker_affinity (workers p w) \<noteq> Some b" using aff False by simp
    ultimately show ?thesis using D(2) [OF b] unfolding aff' ins' by metis
  qed
  have len: "length (thread_exists_for_affinity ?p) = MAX_THREADS" using D(1) by (simp add: leave_loop_def)
  have ent: "workers ?p v = Entering b \<Longrightarrow> workers p v = Entering b" for v b
    unfolding ws by (simp split: if_splits)
  show ?thesis
  proof (rule staff_okI)
    show "v < max_workers" if "worker_affinity (workers ?p v) = Some b" for v b
      using that D(3) unfolding aff' by blast
    show "b = NO_AFFINITY \<or> unat b < MAX_THREADS" if "worker_affinity (workers ?p v) = Some b" for v b
      using that D(4) unfolding aff' by blast
    show "b = NO_AFFINITY" if "worker_affinity (workers ?p u) = Some b" "worker_affinity (workers ?p v) = Some b"
      "u \<noteq> v" for u v b
      using that D(5) unfolding aff' by blast
    show "closed (exec ?p)" if "\<not> alive (num_threads ?p)" using that D(7) unfolding cnt(2) ex by blast
    show "workers ?p v \<noteq> Entering b" if "\<not> alive (num_threads ?p)" for v b
      using that D(8) ent unfolding cnt(2) by blast
  qed (rule len flag cnt(1); assumption)+
qed

lemma staff_disable:
  assumes "staff_ok p" "client_ok Disable_pool p"
  shows "staff_ok (p\<lparr>num_threads := fst (disable (num_threads p))\<rparr>)"
  using assms bc.shut_ok [OF staff_okD(6) [OF assms(1)]] by (simp add: staff_ok_def)

lemma staff_new: "new_pool = Inr p \<Longrightarrow> staff_ok p"
  by (auto simp: new_pool_def staff_ok_def res_Inr_iff counts_new) (simp add: new_counter_def)

end
