(* ===== verification/Executor_Refine.thy ===== *)
theory Executor_Refine
  imports Executor_Threads
begin

text \<open>
  What the executor promises, as an abstract machine: a graph of tasks with the dependencies
  that are still open; a task may start when nothing it waits for is left, and finishing a
  task removes what waited for it. Every step of the pool is a step of the graph.
\<close>

subsection \<open>The task graph\<close>

record graph =
  live :: "task_id set"
  doing :: "nat \<Rightarrow> task_id option"
  waits :: "(owner \<times> task_id) set"

definition empty_graph :: graph where
  "empty_graph = \<lparr>live = {}, doing = \<lambda>_. None, waits = {}\<rparr>"

definition take_over :: "nat \<Rightarrow> task_id \<Rightarrow> owner \<Rightarrow> owner" where
  "take_over w t v = (if v = Waiting t then Running w else v)"

inductive graph_step :: "event \<Rightarrow> graph \<Rightarrow> graph \<Rightarrow> bool" where
  quiet: "graph_step Quiet g g"
| added: "n \<notin> live g \<Longrightarrow> n \<notin> set us \<Longrightarrow> graph_step (Added n us) g
    (g\<lparr>live := insert n (live g), waits := waits g \<union> {(Waiting u, n) | u. u \<in> set us \<inter> live g}\<rparr>)"
| started: "t \<in> live g \<Longrightarrow> doing g w = None \<Longrightarrow> \<forall>v. (v, t) \<notin> waits g \<Longrightarrow> graph_step (Started w t) g
    \<lparr>live = live g - {t}, doing = (doing g)(w \<mapsto> t), waits = {(take_over w t v, n) | v n. (v, n) \<in> waits g}\<rparr>"
| finished: "doing g w = Some t \<Longrightarrow> graph_step (Finished w) g
    (g\<lparr>doing := (doing g)(w := None), waits := {(v, n) \<in> waits g. v \<noteq> Running w}\<rparr>)"

inductive_cases graph_stepE: "graph_step ev g g'"
inductive_simps graph_step_added: "graph_step (Added n us) g g'"
inductive_simps graph_step_started: "graph_step (Started w t) g g'"
inductive_simps graph_step_finished: "graph_step (Finished w) g g'"

subsection \<open>The abstraction\<close>

definition running :: "'c pool \<Rightarrow> 'c running" where
  "running p w = (case workers p w of Busy a t x \<Rightarrow> Some (t, x) | _ \<Rightarrow> None)"

definition represents :: "'c pool \<Rightarrow> graph \<Rightarrow> bool" where
  "represents p g \<longleftrightarrow> (\<exists>qs own rank. exec_inv (exec p) (running p) qs own rank \<and>
     live g = dom (tmap (exec p)) \<and> doing g = (\<lambda>w. map_option fst (running p w)) \<and>
     waits g = edges (dmap (exec p)) own)"

lemma representsI:
  "exec_inv e run qs own rank \<Longrightarrow> exec p = e \<Longrightarrow> running p = run \<Longrightarrow> live g = dom (tmap e) \<Longrightarrow>
    doing g = (\<lambda>w. map_option fst (run w)) \<Longrightarrow> waits g = edges (dmap e) own \<Longrightarrow> represents p g"
  unfolding represents_def by blast

lemma running_set_worker [simp]:
  "running (set_worker w s p) = (running p)(w := (case s of Busy a t x \<Rightarrow> Some (t, x) | _ \<Rightarrow> None))"
  by (rule ext) (simp add: running_def)

lemma running_upd [simp]:
  "running (p\<lparr>exec := e\<rparr>) = running p" "running (p\<lparr>num_threads := c\<rparr>) = running p"
  "running (p\<lparr>thread_exists_for_affinity := f\<rparr>) = running p"
  by (simp_all add: running_def fun_eq_iff)

lemma running_not_busy: "(\<And>a t x. workers p w \<noteq> Busy a t x) \<Longrightarrow> running p w = None"
  by (cases "workers p w") (auto simp: running_def)

lemma running_idle: "running p w = None \<Longrightarrow> (running p)(w := None) = running p"
  by (simp add: fun_upd_idem)

lemma edges_iff: "(u, n) \<in> edges D own \<longleftrightarrow> (\<exists>d. d \<in> set (own u) \<and> n = from_task (the (D d)))"
  by (auto simp: edges_def)

lemma edges_transfer:
  assumes "own (Running w) = []"
  shows "edges D (own(Waiting t := [], Running w := own (Waiting t))) =
    {(take_over w t v, n) | v n. (v, n) \<in> edges D own}"
proof (rule set_eqI)
  fix p :: "owner \<times> task_id"
  obtain u n where p: "p = (u, n)" by (cases p)
  let ?own = "own(Waiting t := [], Running w := own (Waiting t))"
  have "(\<exists>d. d \<in> set (?own u) \<and> n = from_task (the (D d))) \<longleftrightarrow>
      (\<exists>v. u = take_over w t v \<and> (\<exists>d. d \<in> set (own v) \<and> n = from_task (the (D d))))"
  proof (cases "u = Running w")
    case True
    then have "u = take_over w t v \<longleftrightarrow> v = Waiting t \<or> v = Running w" for v
      by (auto simp: take_over_def)
    then show ?thesis using True assms by auto
  next
    case False
    then have "u = take_over w t v \<longleftrightarrow> v = u \<and> u \<noteq> Waiting t" for v
      by (auto simp: take_over_def)
    then show ?thesis using False by auto
  qed
  then show "p \<in> edges D ?own \<longleftrightarrow> p \<in> {(take_over w t v, n) | v n. (v, n) \<in> edges D own}"
    unfolding p edges_iff [symmetric] by blast
qed

lemma own_idle: "exec_inv e run qs own rank \<Longrightarrow> run w = None \<Longrightarrow> own (Running w) = []"
  using lists_okD(1) [OF exec_invD(5), of e run qs own rank "Running w"] by simp

subsection \<open>Choosing and popping\<close>

lemma next_queue_ok:
  assumes inv: "queues_inv e {} qs" and a: "a = NO_AFFINITY \<or> unat a < MAX_THREADS"
  obtains r where "next_queue a e = Inr r"
    "r = None \<Longrightarrow> qs Global = [] \<and> qs (queue_of a) = []"
    "\<And>q. r = Some q \<Longrightarrow> valid_queue q \<and> qs q \<noteq> [] \<and> (q = Global \<or> q = queue_of a)"
proof (cases "a = NO_AFFINITY")
  case True
  have "valid_queue Global" by (simp add: valid_queue_def)
  from empty_task_list_ok(1) [OF inv this] have "next_queue a e = Inr (if qs Global = [] then None else Some Global)"
    using True by (simp add: next_queue_def queue_at_def)
  then show ?thesis using True by (intro that) (auto simp: queue_of_def valid_queue_def split: if_splits)
next
  case False
  then have "unat a < MAX_THREADS" using a by blast
  from choose_queue_ok [OF inv this] show ?thesis
    using False \<open>unat a < MAX_THREADS\<close>
    by (intro that) (auto simp: next_queue_def queue_of_def valid_queue_def split: if_splits)
qed

lemma queue_of_eq: "queue_of a = Global \<longleftrightarrow> a = NO_AFFINITY" "queue_of a = queue_of b \<longleftrightarrow> a = b"
  by (auto simp: queue_of_def word_unat_eq_iff)

lemma look_sim:
  assumes rel: "represents p g" and w: "running p w = None" and a: "a = NO_AFFINITY \<or> unat a < MAX_THREADS"
  obtains ev p' g' where "look w a p = Inr (ev, p')" "graph_step ev g g'" "represents p' g'"
    "closed (exec p') = closed (exec p)" "num_threads p' = num_threads p"
    "thread_exists_for_affinity p' = thread_exists_for_affinity p"
    "\<exists>s. workers p' = (workers p)(w := s) \<and> worker_affinity s = Some a \<and> inside s"
    "ev = Quiet \<and> p' = set_worker w (Sleeping a) p \<and>
       (\<forall>t x. tmap (exec p) t = Some x \<longrightarrow> num_unmet_dependencies x = 0 \<longrightarrow>
          affinity x \<noteq> NO_AFFINITY \<and> affinity x \<noteq> a) \<or>
     (\<exists>t x e'. ev = Started w t \<and> p' = set_worker w (Busy a t x) (p\<lparr>exec := e'\<rparr>) \<and>
       tmap (exec p) t = Some x \<and> (affinity x = NO_AFFINITY \<or> affinity x = a) \<and>
       tmap e' = (tmap (exec p))(t := None) \<and> dmap e' = dmap (exec p))"
proof -
  obtain qs own rank where inv: "exec_inv (exec p) (running p) qs own rank"
    and g: "live g = dom (tmap (exec p))" "doing g = (\<lambda>w. map_option fst (running p w))"
      "waits g = edges (dmap (exec p)) own" using rel by (auto simp: represents_def)
  note I = exec_invD [OF inv]
  obtain r where r: "next_queue a (exec p) = Inr r"
    "r = None \<Longrightarrow> qs Global = [] \<and> qs (queue_of a) = []"
    "\<And>q. r = Some q \<Longrightarrow> valid_queue q \<and> qs q \<noteq> [] \<and> (q = Global \<or> q = queue_of a)"
    using next_queue_ok [OF I(1) a] by metis
  have member: "t \<in> set (qs (queue_of (affinity x)))"
    if "tmap (exec p) t = Some x" "num_unmet_dependencies x = 0" for t x
    using queues_invD(5) [OF I(1) queues_invD(3) [OF I(1) that(1)]] that by (simp add: ready_def)
  show ?thesis
  proof (cases r)
    case None
    have "look w a p = Inr (Quiet, set_worker w (Sleeping a) p)" using r(1) None by (simp add: look_def)
    moreover have "represents (set_worker w (Sleeping a) p) g"
      using rel w by (simp add: represents_def running_idle)
    ultimately show ?thesis
    proof (rule that [OF _ graph_step.quiet])
      have none: "qs Global = []" "qs (queue_of a) = []" using r(2) None by auto
      have "affinity x \<noteq> NO_AFFINITY \<and> affinity x \<noteq> a"
        if "tmap (exec p) t = Some x" "num_unmet_dependencies x = 0" for t x
        using member [OF that] none queue_of_eq(1) [of "affinity x"] by (metis empty_iff list.set(1))
      then show "Quiet = Quiet \<and> set_worker w (Sleeping a) p = set_worker w (Sleeping a) p \<and>
         (\<forall>t x. tmap (exec p) t = Some x \<longrightarrow> num_unmet_dependencies x = 0 \<longrightarrow>
            affinity x \<noteq> NO_AFFINITY \<and> affinity x \<noteq> a) \<or>
       (\<exists>t x e'. Quiet = Started w t \<and> set_worker w (Sleeping a) p = set_worker w (Busy a t x) (p\<lparr>exec := e'\<rparr>) \<and>
         tmap (exec p) t = Some x \<and> (affinity x = NO_AFFINITY \<or> affinity x = a) \<and>
         tmap e' = (tmap (exec p))(t := None) \<and> dmap e' = dmap (exec p))" by blast
    qed (auto intro: exI [of _ "Sleeping a"])
  next
    case (Some q)
    then have q: "valid_queue q" "qs q \<noteq> []" "q = Global \<or> q = queue_of a" using r(3) by auto
    then obtain t xs where xs: "qs q = t # xs" by (cases "qs q") auto
    obtain x e' where pop: "pop_task q (exec p) = Inr (x, e')" "tmap (exec p) t = Some x"
      "exec_inv e' ((running p)(w \<mapsto> (t, x))) (qs(q := xs))
        (own(Waiting t := [], Running w := own (Waiting t))) rank"
      "tmap e' = (tmap (exec p))(t := None)" "dmap e' = dmap (exec p)" "closed e' = closed (exec p)"
      "\<forall>v. (v, t) \<notin> edges (dmap (exec p)) own"
      using pop_inv [OF inv q(1) xs w] by metis
    have "front (queue_at (exec p) q) = t" using empty_task_list_ok(2) [OF I(1) q(1)] xs by simp
    moreover have "t \<in> ready (tmap (exec p)) q" using queues_invD(5) [OF I(1) q(1)] xs by auto
    then have "num_unmet_dependencies x = 0" and qx: "queue_of (affinity x) = q"
      using pop(2) by (auto simp: ready_def)
    ultimately have "look w a p = Inr (Started w t, set_worker w (Busy a t x) (p\<lparr>exec := e'\<rparr>))"
      using r(1) Some pop(1) q(1) I(8) by (simp add: look_def get_queue_valid)
    moreover have "graph_step (Started w t) g \<lparr>live = live g - {t}, doing = (doing g)(w \<mapsto> t),
        waits = {(take_over w t v, n) | v n. (v, n) \<in> waits g}\<rparr>"
      using pop(2,7) w g by (intro graph_step.started) auto
    moreover have "represents (set_worker w (Busy a t x) (p\<lparr>exec := e'\<rparr>))
       \<lparr>live = live g - {t}, doing = (doing g)(w \<mapsto> t),
        waits = {(take_over w t v, n) | v n. (v, n) \<in> waits g}\<rparr>"
    proof (rule representsI [OF pop(3)])
      have "own (Running w) = []" by (rule own_idle [OF inv w])
      then show "waits \<lparr>live = live g - {t}, doing = (doing g)(w \<mapsto> t),
          waits = {(take_over w t v, n) | v n. (v, n) \<in> waits g}\<rparr> =
        edges (dmap e') (own(Waiting t := [], Running w := own (Waiting t)))"
        unfolding pop(5) graph.select_convs g(3) by (rule edges_transfer [symmetric])
      show "exec (set_worker w (Busy a t x) (p\<lparr>exec := e'\<rparr>)) = e'" by simp
      show "running (set_worker w (Busy a t x) (p\<lparr>exec := e'\<rparr>)) = (running p)(w \<mapsto> (t, x))" by simp
      show "live \<lparr>live = live g - {t}, doing = (doing g)(w \<mapsto> t),
          waits = {(take_over w t v, n) | v n. (v, n) \<in> waits g}\<rparr> = dom (tmap e')"
        unfolding pop(4) graph.select_convs g(1) by auto
      show "doing \<lparr>live = live g - {t}, doing = (doing g)(w \<mapsto> t),
          waits = {(take_over w t v, n) | v n. (v, n) \<in> waits g}\<rparr> =
        (\<lambda>v. map_option fst (((running p)(w \<mapsto> (t, x))) v))"
        unfolding graph.select_convs g(2) by (rule ext) simp
    qed
    ultimately show ?thesis
    proof (rule that)
      have "affinity x = NO_AFFINITY \<or> affinity x = a"
        using q(3) qx queue_of_eq(1) [of "affinity x"] queue_of_eq(2) [of "affinity x" a] by auto
      then show "Started w t = Quiet \<and> set_worker w (Busy a t x) (p\<lparr>exec := e'\<rparr>) = set_worker w (Sleeping a) p \<and>
         (\<forall>t x. tmap (exec p) t = Some x \<longrightarrow> num_unmet_dependencies x = 0 \<longrightarrow>
            affinity x \<noteq> NO_AFFINITY \<and> affinity x \<noteq> a) \<or>
       (\<exists>t' x' e''. Started w t = Started w t' \<and>
         set_worker w (Busy a t x) (p\<lparr>exec := e'\<rparr>) = set_worker w (Busy a t' x') (p\<lparr>exec := e''\<rparr>) \<and>
         tmap (exec p) t' = Some x' \<and> (affinity x' = NO_AFFINITY \<or> affinity x' = a) \<and>
         tmap e'' = (tmap (exec p))(t' := None) \<and> dmap e'' = dmap (exec p))"
        using pop(2,4,5) by blast
    qed (use pop(6) in \<open>auto intro: exI [of _ "Busy a t x"]\<close>)
  qed
qed

subsection \<open>Every step of the pool is a step of the graph\<close>

lemma finish_sim:
  assumes rel: "represents p g" and w: "workers p w = Busy a t x"
  obtains p' g' where "finish w a x p = Some (Inr (Finished w, p'))" "graph_step (Finished w) g g'"
    "represents p' g'" "closed (exec p') = closed (exec p)" "num_threads p' = num_threads p"
    "thread_exists_for_affinity p' = thread_exists_for_affinity p" "workers p' = (workers p)(w := Looking a)"
    "\<And>u. map_option affinity (tmap (exec p') u) = map_option affinity (tmap (exec p) u)"
    "card (dom (dmap (exec p'))) \<le> card (dom (dmap (exec p)))"
proof -
  obtain qs own rank where inv: "exec_inv (exec p) (running p) qs own rank"
    and g: "live g = dom (tmap (exec p))" "doing g = (\<lambda>w. map_option fst (running p w))"
      "waits g = edges (dmap (exec p)) own" using rel by (auto simp: represents_def)
  have r: "running p w = Some (t, x)" using w by (simp add: running_def)
  obtain e' qs' where e': "signal_dependents x (exec p) = Some (Inr e')"
    "exec_inv e' ((running p)(w := None)) qs' (own(Running w := [])) rank"
    "edges (dmap e') (own(Running w := [])) = {(v, t) \<in> edges (dmap (exec p)) own. v \<noteq> Running w}"
    "dom (tmap e') = dom (tmap (exec p))" "closed e' = closed (exec p)"
    "\<And>t. map_option affinity (tmap e' t) = map_option affinity (tmap (exec p) t)"
    "dmap e' = dmap (exec p) |` (- set (own (Running w)))"
    by (rule signal_dependents_inv [OF inv r]) (rule that)
  have "card (dom (dmap e')) \<le> card (dom (dmap (exec p)))"
    unfolding e'(7) using exec_invD(10) [OF inv] by (intro card_mono) auto
  let ?p = "set_worker w (Looking a) (p\<lparr>exec := e'\<rparr>)"
  let ?g = "g\<lparr>doing := (doing g)(w := None), waits := {(v, n) \<in> waits g. v \<noteq> Running w}\<rparr>"
  have "finish w a x p = Some (Inr (Finished w, ?p))" using e'(1) by (simp add: finish_def)
  moreover have "graph_step (Finished w) g ?g" using r g(2) by (intro graph_step.finished) simp
  moreover have "represents ?p ?g"
    unfolding represents_def
    by (intro exI [of _ qs'] exI [of _ "own(Running w := [])"] exI [of _ rank])
      (use e'(2-4) g in \<open>simp add: fun_eq_iff\<close>)
  ultimately show ?thesis
    by (rule that) (use e'(5,6) \<open>card (dom (dmap e')) \<le> card (dom (dmap (exec p)))\<close> in simp_all)
qed

lemma add_sim:
  assumes rel: "represents p g" and c: "client_ok (Add_task c us a) p"
  obtains ev p' g' where "perform (Add_task c us a) p = Some (Inr (ev, p'))" "graph_step ev g g'"
    "represents p' g'" "closed (exec p') = closed (exec p)" "num_threads p' = num_threads p"
    "thread_exists_for_affinity p' = thread_exists_for_affinity p" "workers p' = workers p"
    "closed (exec p) \<longrightarrow> ev = Quiet \<and> p' = p"
    "\<not> closed (exec p) \<longrightarrow> (\<exists>n. ev = Added n us \<and> tmap (exec p) n = None \<and>
       (\<forall>t. map_option affinity (tmap (exec p') t) =
          (if t = n then Some a else map_option affinity (tmap (exec p) t))))"
    "card (dom (dmap (exec p'))) \<le> card (dom (dmap (exec p))) + length us"
proof (cases "closed (exec p)")
  case True
  then have "perform (Add_task c us a) p = Some (Inr (Quiet, p))" by (simp add: add_task_def)
  then show ?thesis by (rule that [OF _ graph_step.quiet rel]) (use True in simp_all)
next
  case False
  obtain qs own rank where inv: "exec_inv (exec p) (running p) qs own rank"
    and g: "live g = dom (tmap (exec p))" "doing g = (\<lambda>w. map_option fst (running p w))"
      "waits g = edges (dmap (exec p)) own" using rel by (auto simp: represents_def)
  have q: "valid_queue (queue_of a)" using c False by (auto simp: queue_of_def valid_queue_def)
  have room: "card (dom (tmap (exec p))) < 2 ^ task_bits - 1"
    "card (dom (dmap (exec p))) + length us \<le> 2 ^ dependent_bits - 1" using c False by auto
  obtain n ts where n: "sv_emplace task_bits (tasks (exec p)) (new_task c a) = Inr (n, ts)"
    "tmap (exec p) n = None" and ex: "n \<notin> set us \<longrightarrow>
    (\<exists>e' qs' own' rank'. add_task c us a (exec p) = Inr (n, e') \<and> exec_inv e' (running p) qs' own' rank' \<and>
      edges (dmap e') own' = edges (dmap (exec p)) own \<union> {(Waiting u, n) | u. u \<in> set us \<inter> dom (tmap (exec p))} \<and>
      dom (tmap e') = insert n (dom (tmap (exec p))) \<and> closed e' = closed (exec p) \<and>
      card (dom (dmap e')) \<le> card (dom (dmap (exec p))) + length us \<and>
      (\<forall>t. map_option affinity (tmap e' t) = (if t = n then Some a else map_option affinity (tmap (exec p) t))) \<and>
      (\<forall>t. map_option closure (tmap e' t) = (if t = n then Some c else map_option closure (tmap (exec p) t))))"
    using add_task_ok [OF inv False q room, of c] by (elim exE conjE) (rule that)
  have "\<forall>t ts. sv_emplace task_bits (tasks (exec p)) (new_task c a) = Inr (t, ts) \<longrightarrow> t \<notin> set us"
    by (rule disjE [OF c [unfolded client_ok.simps]]) (use False in simp, elim conjE, assumption)
  then have us: "n \<notin> set us" using n(1) by (elim allE impE)
  obtain e' qs' own' rank' where e': "add_task c us a (exec p) = Inr (n, e')"
    "exec_inv e' (running p) qs' own' rank'"
    "edges (dmap e') own' = edges (dmap (exec p)) own \<union> {(Waiting u, n) | u. u \<in> set us \<inter> dom (tmap (exec p))}"
    "dom (tmap e') = insert n (dom (tmap (exec p)))" "closed e' = closed (exec p)"
    "card (dom (dmap e')) \<le> card (dom (dmap (exec p))) + length us"
    "\<forall>t. map_option affinity (tmap e' t) = (if t = n then Some a else map_option affinity (tmap (exec p) t))"
    using ex [rule_format, OF us] by (elim exE conjE) (rule that)
  let ?g = "g\<lparr>live := insert n (live g), waits := waits g \<union> {(Waiting u, n) | u. u \<in> set us \<inter> live g}\<rparr>"
  have "perform (Add_task c us a) p = Some (Inr (Added n us, p\<lparr>exec := e'\<rparr>))"
    using e'(1) False by simp
  moreover have "graph_step (Added n us) g ?g" using n(2) g(1) us by (intro graph_step.added) auto
  moreover have "represents (p\<lparr>exec := e'\<rparr>) ?g"
    by (rule representsI [OF e'(2)]) (simp_all add: e'(3,4) g)
  ultimately show ?thesis
  proof (rule that)
    show "\<not> closed (exec p) \<longrightarrow> (\<exists>n'. Added n us = Added n' us \<and> tmap (exec p) n' = None \<and>
       (\<forall>t. map_option affinity (tmap (exec (p\<lparr>exec := e'\<rparr>)) t) =
          (if t = n' then Some a else map_option affinity (tmap (exec p) t))))"
      using n(2) e'(7) by (intro impI exI [of _ n]) simp
  qed (use e'(5,6) False in simp_all)
qed

lemma represents_close: "represents p g \<Longrightarrow> represents (p\<lparr>exec := close (exec p)\<rparr>) g"
proof -
  assume "represents p g"
  then obtain qs own rank where "exec_inv (exec p) (running p) qs own rank \<and>
     live g = dom (tmap (exec p)) \<and> doing g = (\<lambda>w. map_option fst (running p w)) \<and>
     waits g = edges (dmap (exec p)) own" by (auto simp: represents_def)
  then show ?thesis unfolding represents_def
    by (intro exI [of _ qs] exI [of _ own] exI [of _ rank]) (simp add: close_ok)
qed

lemma perform_sim:
  assumes rel: "represents p g" and staff: "staff_ok p" and c: "client_ok act p"
  shows "\<exists>ev p' g'. perform act p = Some (Inr (ev, p')) \<and> graph_step ev g g' \<and> represents p' g' \<and> staff_ok p'"
proof (cases act)
  case (Call_run w a)
  have "represents (call_run w a p) g"
    using rel c Call_run running_idle [of p w] by (simp add: call_run_def represents_def running_not_busy)
  moreover have "staff_ok (call_run w a p)" using staff_call [OF staff] c Call_run by blast
  ultimately show ?thesis using Call_run graph_step.quiet by auto
next
  case (Proceed w)
  show ?thesis
  proof (cases "workers p w")
    case Outside
    then show ?thesis using Proceed rel staff graph_step.quiet by auto
  next
    case (Entering a)
    obtain p' where p': "enter w a p = Inr p'" "staff_ok p'" "exec p' = exec p"
      "workers p' = (workers p)(w := Looking a)" by (rule staff_enter [OF staff Entering])
    have "running p' = running p" using p'(4) Entering by (auto simp: running_def fun_eq_iff)
    then have "represents p' g" using rel p'(3) by (simp add: represents_def)
    then show ?thesis using Proceed Entering p'(1,2) graph_step.quiet by auto
  next
    case (Looking a)
    have a: "a = NO_AFFINITY \<or> unat a < MAX_THREADS" using staff_okD(4) [OF staff, of w a] Looking by simp
    have r: "running p w = None" using Looking by (simp add: running_def)
    obtain ev p' g' s where l: "look w a p = Inr (ev, p')" "graph_step ev g g'" "represents p' g'"
      "closed (exec p') = closed (exec p)" "num_threads p' = num_threads p"
      "thread_exists_for_affinity p' = thread_exists_for_affinity p"
      "workers p' = (workers p)(w := s)" "worker_affinity s = Some a" "inside s"
      by (rule look_sim [OF rel r a]) blast
    have "staff_ok p'" by (rule staff_same [OF staff _ _ _ l(5-7)]) (use l(4,8,9) Looking in auto)
    then show ?thesis using Proceed Looking l(1-3) by auto
  next
    case (Sleeping a)
    have a: "a = NO_AFFINITY \<or> unat a < MAX_THREADS" using staff_okD(4) [OF staff, of w a] Sleeping by simp
    have r: "running p w = None" using Sleeping by (simp add: running_def)
    show ?thesis
    proof (cases "closed (exec p)")
      case True
      have "represents (leave_loop w a p) g"
        using rel r by (simp add: leave_loop_def represents_def running_idle)
      moreover have "staff_ok (leave_loop w a p)" by (rule staff_leave [OF staff Sleeping])
      ultimately show ?thesis using Proceed Sleeping True graph_step.quiet by (auto simp: wake_def)
    next
      case False
      obtain ev p' g' s where l: "look w a p = Inr (ev, p')" "graph_step ev g g'" "represents p' g'"
        "closed (exec p') = closed (exec p)" "num_threads p' = num_threads p"
        "thread_exists_for_affinity p' = thread_exists_for_affinity p"
        "workers p' = (workers p)(w := s)" "worker_affinity s = Some a" "inside s"
        by (rule look_sim [OF rel r a]) blast
      have "staff_ok p'" by (rule staff_same [OF staff _ _ _ l(5-7)]) (use l(4,8,9) Sleeping in auto)
      then show ?thesis using Proceed Sleeping False l(1-3) by (auto simp: wake_def)
    qed
  next
    case (Busy a t x)
    obtain p' g' where f: "finish w a x p = Some (Inr (Finished w, p'))" "graph_step (Finished w) g g'"
      "represents p' g'" "closed (exec p') = closed (exec p)" "num_threads p' = num_threads p"
      "thread_exists_for_affinity p' = thread_exists_for_affinity p" "workers p' = (workers p)(w := Looking a)"
      by (rule finish_sim [OF rel Busy])
    have "staff_ok p'" by (rule staff_same [OF staff _ _ _ f(5-7)]) (use f(4) Busy in auto)
    then show ?thesis using Proceed Busy f(1-3) by auto
  qed
next
  case (Add_task c' us a)
  obtain ev p' g' where s: "perform act p = Some (Inr (ev, p'))" "graph_step ev g g'"
    "represents p' g'" "closed (exec p') = closed (exec p)" "num_threads p' = num_threads p"
    "thread_exists_for_affinity p' = thread_exists_for_affinity p" "workers p' = workers p"
    using add_sim [OF rel c [unfolded Add_task]] unfolding Add_task by metis
  have "staff_ok p'" using staff s(4-7) by (simp add: staff_ok_def)
  then show ?thesis using s(1-3) by blast
next
  case Close_pool
  have "staff_ok (p\<lparr>exec := close (exec p)\<rparr>)" using staff close_ok(4) by (auto simp: staff_ok_def)
  then show ?thesis using Close_pool represents_close [OF rel] graph_step.quiet by auto
next
  case Disable_pool
  then have "staff_ok (p\<lparr>num_threads := fst (disable (num_threads p))\<rparr>)" using staff_disable [OF staff] c by blast
  moreover have "represents (p\<lparr>num_threads := fst (disable (num_threads p))\<rparr>) g"
    using rel by (simp add: represents_def)
  ultimately show ?thesis using Disable_pool graph_step.quiet by auto
qed

lemma new_pool_ok:
  "\<exists>p :: 'c pool. new_pool = Inr p"
  "new_pool = Inr (p :: 'c pool) \<Longrightarrow> represents p empty_graph \<and> staff_ok p \<and> \<not> closed (exec p)"
proof -
  obtain e :: "'c executor" where e: "new_executor = Inr e"
    "exec_inv e (\<lambda>_. None) (\<lambda>_. []) (\<lambda>_. []) (\<lambda>_. 0)" "tmap e = (\<lambda>_. None)" "dmap e = (\<lambda>_. None)"
    "\<not> closed e" by (rule new_executor_ok)
  show "\<exists>p :: 'c pool. new_pool = Inr p" unfolding new_pool_def e(1) by simp
  assume p: "new_pool = Inr (p :: 'c pool)"
  then have x: "exec p = e" "running p = (\<lambda>_. None)"
    unfolding new_pool_def e(1) by (auto simp: running_def fun_eq_iff)
  have "represents p empty_graph"
    unfolding represents_def x
    by (intro exI [of _ "\<lambda>_. []"] exI [of _ "\<lambda>_. 0"]) (use e in \<open>simp add: empty_graph_def edges_def\<close>)
  then show "represents p empty_graph \<and> staff_ok p \<and> \<not> closed (exec p)"
    using staff_new [OF p] e(5) x(1) by simp
qed

inductive graph_run :: "event list \<Rightarrow> graph \<Rightarrow> bool" where
  start: "graph_run [] empty_graph"
| step: "graph_run h g \<Longrightarrow> graph_step ev g g' \<Longrightarrow> graph_run (h @ [ev]) g'"

inductive_cases graph_run_snoc: "graph_run (h @ [ev]) g"

lemma graph_run_last: "graph_run (h @ [ev]) g \<Longrightarrow> \<exists>g1. graph_run h g1 \<and> graph_step ev g1 g"
  by (erule graph_run_snoc) blast

lemma pool_run_sim: "pool_run h p \<Longrightarrow> \<exists>g. graph_run h g \<and> represents p g \<and> staff_ok p"
proof (induction rule: pool_run.induct)
  case (start p)
  then show ?case using new_pool_ok(2) graph_run.start by blast
next
  case (step h p act ev p')
  then obtain g where g: "graph_run h g" "represents p g" "staff_ok p" by blast
  from perform_sim [OF g(2,3) step.hyps(2)] step.hyps(3) obtain g'
    where "graph_step ev g g'" "represents p' g'" "staff_ok p'" by auto
  then show ?case using graph_run.step [OF g(1)] by blast
qed

end
