(* ===== verification/Executor_Props.thy ===== *)
theory Executor_Props
  imports Executor_Refine
begin

text \<open>
  What the executor guarantees in every run of its threads: nothing aborts, tasks run once
  and in dependency order, work that is ready is found, and one worker empties the queues;
  and the places where it falls short of its comments.
\<close>

subsection \<open>Histories\<close>

fun adds :: "event list \<Rightarrow> task_id list" where
  "adds [] = []"
| "adds (Added n us # h) = n # adds h"
| "adds (_ # h) = adds h"

fun starts :: "event list \<Rightarrow> task_id list" where
  "starts [] = []"
| "starts (Started w n # h) = n # starts h"
| "starts (_ # h) = starts h"

lemma adds_append [simp]: "adds (h @ k) = adds h @ adds k"
  by (induction h rule: adds.induct) auto

lemma starts_append [simp]: "starts (h @ k) = starts h @ starts k"
  by (induction h rule: starts.induct) auto

lemma graph_count:
  "graph_run h g \<Longrightarrow> count_list (adds h) n = count_list (starts h) n + (if n \<in> live g then 1 else 0)"
proof (induction rule: graph_run.induct)
  case start
  then show ?case by (simp add: empty_graph_def)
next
  case (step h g ev g')
  from step.hyps(2) show ?case using step.IH by (cases rule: graph_step.cases) auto
qed

lemma graph_order:
  assumes "graph_run (h1 @ Added n us # h2) g" "u \<in> set us" "n \<notin> set (starts h2)"
    "\<And>g1. graph_run h1 g1 \<Longrightarrow> u \<in> live g1"
  shows "(Waiting u, n) \<in> waits g \<or>
    (\<exists>v h3 h4. h2 = h3 @ Started v u # h4 \<and> Finished v \<notin> set h4 \<and> (Running v, n) \<in> waits g) \<or>
    (\<exists>v h3 h4 h5. h2 = h3 @ Started v u # h4 @ Finished v # h5 \<and> Finished v \<notin> set h4)"
  using assms(1,3)
proof (induction h2 arbitrary: g rule: rev_induct)
  case Nil
  then obtain g1 where "graph_run h1 g1" "graph_step (Added n us) g1 g"
    by (auto elim: graph_run_snoc)
  then show ?case using assms(2,4) by (auto simp: graph_step_added)
next
  case (snoc ev h2)
  have "graph_run ((h1 @ Added n us # h2) @ [ev]) g" using snoc.prems(1) by simp
  from graph_run_last [OF this]
  obtain g1 where g1: "graph_run (h1 @ Added n us # h2) g1" and step: "graph_step ev g1 g" by blast
  have no: "n \<notin> set (starts h2)" "\<And>w. ev \<noteq> Started w n" using snoc.prems(2) by auto
  have keep: "(x, n) \<in> waits g" if "(x, n) \<in> waits g1" "\<And>w. x = Waiting u \<Longrightarrow> ev \<noteq> Started w u"
    "\<And>v. x = Running v \<Longrightarrow> ev \<noteq> Finished v" "x = Waiting u \<or> (\<exists>v. x = Running v)" for x
    using step
  proof (cases rule: graph_step.cases)
    case (started t w)
    have "take_over w t x = x" using that(2,4) started(1) by (auto simp: take_over_def)
    then show ?thesis using that(1) started(2) by force
  qed (use that in auto)
  from snoc.IH [OF g1 no(1)] consider
      "(Waiting u, n) \<in> waits g1"
    | v h3 h4 where "h2 = h3 @ Started v u # h4" "Finished v \<notin> set h4" "(Running v, n) \<in> waits g1"
    | v h3 h4 h5 where "h2 = h3 @ Started v u # h4 @ Finished v # h5" "Finished v \<notin> set h4" by blast
  then show ?case
  proof cases
    case 1
    show ?thesis
    proof (cases "\<exists>w. ev = Started w u")
      case True
      then obtain w where w: "ev = Started w u" ..
      then have "(Running w, n) \<in> waits g" using 1 step by (auto simp: graph_step_started take_over_def)
      then show ?thesis using w by (intro disjI2 disjI1 exI [of _ w] exI [of _ h2] exI [of _ "[]"]) simp
    next
      case False
      then show ?thesis using keep [OF 1] by auto
    qed
  next
    case (2 v h3 h4)
    show ?thesis
    proof (cases "ev = Finished v")
      case True
      then show ?thesis using 2 by (intro disjI2 exI [of _ v] exI [of _ h3] exI [of _ h4] exI [of _ "[]"]) simp
    next
      case False
      then have "(Running v, n) \<in> waits g" using keep [OF 2(3)] by auto
      then show ?thesis using 2 False
        by (intro disjI2 disjI1 exI [of _ v] exI [of _ h3] exI [of _ "h4 @ [ev]"]) simp
    qed
  next
    case (3 v h3 h4 h5)
    then show ?thesis by (intro disjI2 exI [of _ v] exI [of _ h3] exI [of _ h4] exI [of _ "h5 @ [ev]"]) simp
  qed
qed

subsection \<open>Ready tasks\<close>

text \<open>If tasks are left and no worker runs one, the task that was added first is ready: whatever
  it waits for was added before it.\<close>

lemma ready_exists:
  assumes inv: "exec_inv e run qs own rank" and idle: "\<And>w. run w = None" and ne: "tmap e u \<noteq> None"
  obtains t x where "tmap e t = Some x" "num_unmet_dependencies x = 0"
proof -
  note I = exec_invD [OF inv]
  obtain t where t: "t \<in> dom (tmap e)" and least: "\<And>v. v \<in> dom (tmap e) \<Longrightarrow> rank t \<le> rank v"
    using ex_has_least_nat [of "\<lambda>t. t \<in> dom (tmap e)" u rank] ne by auto
  obtain x where x: "tmap e t = Some x" using t by blast
  have "map_option from_task (dmap e d) \<noteq> Some t" for d
  proof
    assume d: "map_option from_task (dmap e d) = Some t"
    then have "d \<in> (\<Union>w. set (own w))" unfolding lists_okD(5) [OF I(5)] by auto
    then obtain w where w: "d \<in> set (own w)" by blast
    have h: "owns (tmap e) run w \<noteq> None" using lists_okD(1) [OF I(5), of w] w
      by (metis empty_iff list.set(1))
    then obtain v where v: "w = Waiting v" "v \<in> dom (tmap e)" using idle by (cases w) auto
    have "rank v < rank (from_task (the (dmap e d)))" using I(7) w v(1) by (auto simp: rank_ok_def)
    moreover have "from_task (the (dmap e d)) = t" using d by auto
    ultimately show False using least [OF v(2)] by simp
  qed
  then have "unat (num_unmet_dependencies x) = 0" using count_okD(1) [OF I(6) x] by simp
  then show ?thesis using that [OF x] by (simp add: unat_eq_0)
qed

lemma look_starts:
  assumes rel: "represents p g" and staff: "staff_ok p" and w: "workers p w = Looking b"
    and t: "tmap (exec p) t = Some x" "num_unmet_dependencies x = 0" "affinity x = NO_AFFINITY \<or> affinity x = b"
  obtains n y e' where "perform (Proceed w) p = Some (Inr (Started w n, set_worker w (Busy b n y) (p\<lparr>exec := e'\<rparr>)))"
    "tmap (exec p) n = Some y" "tmap e' = (tmap (exec p))(n := None)" "dmap e' = dmap (exec p)"
    "closed e' = closed (exec p)"
proof -
  have b: "b = NO_AFFINITY \<or> unat b < MAX_THREADS" using staff_okD(4) [OF staff, of w b] w by simp
  have r: "running p w = None" using w by (simp add: running_def)
  show ?thesis
    by (rule look_sim [OF rel r b], elim disjE conjE exE)
      (use t w that in \<open>auto\<close>)
qed

subsection \<open>Small runs for the witnesses\<close>

text \<open>Runs with one worker and no affinities, with what is stored after them.\<close>

definition small_run :: "event list \<Rightarrow> 'c pool \<Rightarrow> task_id set \<Rightarrow> nat \<Rightarrow> bool" where
  "small_run h p S k \<longleftrightarrow> pool_run h p \<and> \<not> closed (exec p) \<and> dom (tmap (exec p)) = S \<and>
     (\<forall>t x. tmap (exec p) t = Some x \<longrightarrow> affinity x = NO_AFFINITY) \<and> card (dom (dmap (exec p))) \<le> k"

lemma small_runD:
  assumes "small_run h p S k"
  obtains g where "pool_run h p" "\<not> closed (exec p)" "dom (tmap (exec p)) = S" "graph_run h g" "represents p g"
    "staff_ok p" "live g = S" "card (dom (dmap (exec p))) \<le> k"
    "\<And>t. map_option affinity (tmap (exec p) t) = (if t \<in> S then Some NO_AFFINITY else None)"
proof -
  have s: "pool_run h p" "\<not> closed (exec p)" "dom (tmap (exec p)) = S"
     "\<forall>t x. tmap (exec p) t = Some x \<longrightarrow> affinity x = NO_AFFINITY" "card (dom (dmap (exec p))) \<le> k"
    using assms by (auto simp: small_run_def)
  obtain g where g: "graph_run h g" "represents p g" "staff_ok p" using pool_run_sim [OF s(1)] by blast
  then have "live g = S" using s(3) by (auto simp: represents_def)
  moreover have "map_option affinity (tmap (exec p) t) = (if t \<in> S then Some NO_AFFINITY else None)" for t
    using s(3,4) by (cases "tmap (exec p) t") auto
  ultimately show ?thesis using that s g by blast
qed

lemma small_runI:
  assumes "small_run h p S k" "client_ok act p" "perform act p = Some (Inr (ev, p'))"
    "\<not> closed (exec p')" "card (dom (dmap (exec p'))) \<le> k'"
    "\<And>t. map_option affinity (tmap (exec p') t) = (if t \<in> S' then Some NO_AFFINITY else None)"
  shows "small_run (h @ [ev]) p' S' k'"
proof -
  have *: "(\<exists>x. tmap (exec p') t = Some x) \<longleftrightarrow> t \<in> S'" "tmap (exec p') t = Some x \<Longrightarrow> affinity x = NO_AFFINITY" for t x
    using assms(6) [of t] by (auto split: if_splits)
  have "dom (tmap (exec p')) = S'" using *(1) by (auto simp: dom_def)
  then show ?thesis
    using assms(1,4,5) pool_run.step [OF _ assms(2,3)] *(2) by (simp add: small_run_def)
qed

lemma pool_run_start:
  obtains p :: "'c pool" where "pool_run [] p" "small_run [] p {} 0" "workers p = (\<lambda>_. Outside)"
    "alive (num_threads p)" "\<not> closed (exec p)"
proof -
  obtain p :: "'c pool" where p: "new_pool = Inr p" using new_pool_ok(1) by blast
  obtain e :: "'c executor" where e: "new_executor = Inr e" "tmap e = (\<lambda>_. None)" "dmap e = (\<lambda>_. None)" "\<not> closed e"
    using new_executor_ok by metis
  have x: "exec p = e" "workers p = (\<lambda>_. Outside)" "alive (num_threads p)" using p
    unfolding new_pool_def e(1) by (auto simp: new_counter_def)
  have "small_run [] p {} 0" using pool_run.start [OF p] e x by (simp add: small_run_def)
  then show ?thesis using that pool_run.start [OF p] x e(4) by blast
qed

lemma small_run_enter:
  assumes s: "small_run h p S k" and w: "workers p w = Outside" "w < max_workers"
  obtains p' where "small_run (h @ [Quiet, Quiet]) p' S k" "workers p' = (workers p)(w := Looking NO_AFFINITY)"
    "exec p' = exec p" "perform (Call_run w NO_AFFINITY) p = Some (Inr (Quiet, set_worker w (Entering NO_AFFINITY) p))"
    "small_run (h @ [Quiet]) (set_worker w (Entering NO_AFFINITY) p) S k"
proof -
  obtain g where D: "\<not> closed (exec p)" "card (dom (dmap (exec p))) \<le> k"
    "\<And>t. map_option affinity (tmap (exec p) t) = (if t \<in> S then Some NO_AFFINITY else None)"
    by (rule small_runD [OF s]) (rule that)
  let ?p1 = "set_worker w (Entering NO_AFFINITY) p"
  have c: "client_ok (Call_run w NO_AFFINITY) p" using w by simp
  have f: "perform (Call_run w NO_AFFINITY) p = Some (Inr (Quiet, ?p1))" using D(1) by (simp add: call_run_def)
  have s1: "small_run (h @ [Quiet]) ?p1 S k"
    by (rule small_runI [OF s c f]) (use D in auto)
  obtain g where st: "staff_ok ?p1" by (rule small_runD [OF s1]) (rule that)
  have e: "workers ?p1 w = Entering NO_AFFINITY" by simp
  obtain p' where p': "enter w NO_AFFINITY ?p1 = Inr p'" "exec p' = exec ?p1"
    "workers p' = (workers ?p1)(w := Looking NO_AFFINITY)" by (rule staff_enter [OF st e])
  have c2: "client_ok (Proceed w) ?p1" by simp
  have f2: "perform (Proceed w) ?p1 = Some (Inr (Quiet, p'))" using p'(1) by simp
  have "small_run ((h @ [Quiet]) @ [Quiet]) p' S k"
    by (rule small_runI [OF s1 c2 f2]) (use D p'(2) in auto)
  then show ?thesis using that [of p'] p'(2,3) f s1 by simp
qed

lemma small_run_new:
  obtains p :: "'c pool" where "small_run [Quiet, Quiet] p {} 0" "workers p = (\<lambda>_. Outside)(0 := Looking NO_AFFINITY)"
proof -
  obtain p :: "'c pool" where p: "small_run [] p {} 0" "workers p = (\<lambda>_. Outside)" by (rule pool_run_start)
  have w: "workers p 0 = Outside" "0 < max_workers" using p(2) by (simp_all add: max_workers_def)
  obtain p' where "small_run ([] @ [Quiet, Quiet]) p' {} 0" "workers p' = (workers p)(0 := Looking NO_AFFINITY)"
    by (rule small_run_enter [OF p(1) w])
  then show ?thesis using that [of p'] p(2) by simp
qed

lemma small_run_client_ok:
  assumes s: "small_run h p S k" and small: "card S < 1000" "k + length us < 1000"
    and us: "\<And>t ts. sv_emplace task_bits (tasks (exec p)) (new_task c NO_AFFINITY) = Inr (t, ts) \<Longrightarrow> t \<notin> set us"
  shows "client_ok (Add_task c us NO_AFFINITY) p"
  using assms by (auto simp: small_run_def)

lemma small_run_inv:
  assumes "small_run h p S k"
  shows "sv_inv task_bits (tasks (exec p))" "S = {t. sv_is_valid_id task_bits (tasks (exec p)) t}" "finite S"
proof -
  obtain g where D: "dom (tmap (exec p)) = S" "represents p g" by (rule small_runD [OF assms]) (rule that)
  obtain qs own rank where "exec_inv (exec p) (running p) qs own rank" using D(2) by (auto simp: represents_def)
  then show *: "sv_inv task_bits (tasks (exec p))" by (rule exec_invD(3))
  show "S = {t. sv_is_valid_id task_bits (tasks (exec p)) t}" using D(1) sv.valid_iff [OF *] by auto
  show "finite S" using D(1) sv.finite_lookup [OF *] by simp
qed

lemma small_run_add:
  assumes s: "small_run h p S k" and small: "card S < 1000" "k + length us < 1000" and us: "set us \<subseteq> S"
  obtains n p' where "perform (Add_task c us NO_AFFINITY) p = Some (Inr (Added n us, p'))"
    "small_run (h @ [Added n us]) p' (insert n S) (k + length us)" "n \<notin> S" "workers p' = workers p"
proof -
  obtain g where D: "\<not> closed (exec p)" "dom (tmap (exec p)) = S" "represents p g"
    "card (dom (dmap (exec p))) \<le> k"
    "\<And>t. map_option affinity (tmap (exec p) t) = (if t \<in> S then Some NO_AFFINITY else None)"
    by (rule small_runD [OF s]) (rule that)
  note inv = small_run_inv(1) [OF s]
  have room: "card (dom (tmap (exec p))) < 2 ^ task_bits - 1" using small(1) D(2) by simp
  have "t \<notin> set us" if t: "sv_emplace task_bits (tasks (exec p)) (new_task c NO_AFFINITY) = Inr (t, ts)" for t ts
  proof -
    have "tmap (exec p) t = None" using sv.emplace_ok [OF inv room, of "new_task c NO_AFFINITY"] t by auto
    then show ?thesis using us D(2) by auto
  qed
  then have c: "client_ok (Add_task c us NO_AFFINITY) p" by (rule small_run_client_ok [OF s small])
  obtain ev p' where p': "perform (Add_task c us NO_AFFINITY) p = Some (Inr (ev, p'))"
    "closed (exec p') = closed (exec p)" "workers p' = workers p"
    "\<not> closed (exec p) \<longrightarrow> (\<exists>n. ev = Added n us \<and> tmap (exec p) n = None \<and>
       (\<forall>t. map_option affinity (tmap (exec p') t) =
          (if t = n then Some NO_AFFINITY else map_option affinity (tmap (exec p) t))))"
    "card (dom (dmap (exec p'))) \<le> card (dom (dmap (exec p))) + length us"
    by (rule add_sim [OF D(3) c]) (rule that)
  then obtain n where n: "ev = Added n us" "tmap (exec p) n = None"
    "\<forall>t. map_option affinity (tmap (exec p') t) =
          (if t = n then Some NO_AFFINITY else map_option affinity (tmap (exec p) t))" using D(1) by blast
  have "small_run (h @ [Added n us]) p' (insert n S) (k + length us)"
    by (rule small_runI [OF s c p'(1) [unfolded n(1)]]) (use p'(2,5) n(3) D(1,4,5) in auto)
  moreover have "n \<notin> S" using n(2) D(2) by auto
  ultimately show ?thesis using that p'(1,3) n(1) by simp
qed

lemma small_run_start:
  assumes s: "small_run h p S k" and w: "workers p w = Looking NO_AFFINITY" and idle: "\<And>v a t x. workers p v \<noteq> Busy a t x"
    and ne: "S \<noteq> {}"
  obtains n x p' where "perform (Proceed w) p = Some (Inr (Started w n, p'))" "n \<in> S"
    "small_run (h @ [Started w n]) p' (S - {n}) k" "workers p' = (workers p)(w := Busy NO_AFFINITY n x)"
proof -
  obtain g where D: "\<not> closed (exec p)" "dom (tmap (exec p)) = S" "represents p g" "staff_ok p"
    "card (dom (dmap (exec p))) \<le> k"
    "\<And>t. map_option affinity (tmap (exec p) t) = (if t \<in> S then Some NO_AFFINITY else None)"
    by (rule small_runD [OF s]) (rule that)
  obtain qs own rank where inv: "exec_inv (exec p) (running p) qs own rank" using D(3) by (auto simp: represents_def)
  obtain u where "tmap (exec p) u \<noteq> None" using ne D(2) by auto
  then obtain t x where t: "tmap (exec p) t = Some x" "num_unmet_dependencies x = 0"
    by (rule ready_exists [OF inv running_not_busy [OF idle]])
  have "affinity x = NO_AFFINITY \<or> affinity x = NO_AFFINITY" using D(6) [of t] t(1) by (auto split: if_splits)
  then obtain n y e' where n: "perform (Proceed w) p =
      Some (Inr (Started w n, set_worker w (Busy NO_AFFINITY n y) (p\<lparr>exec := e'\<rparr>)))"
    "tmap (exec p) n = Some y" "tmap e' = (tmap (exec p))(n := None)" "dmap e' = dmap (exec p)"
    "closed e' = closed (exec p)"
    by (rule look_starts [OF D(3,4) w t])
  let ?p = "set_worker w (Busy NO_AFFINITY n y) (p\<lparr>exec := e'\<rparr>)"
  have c: "client_ok (Proceed w) p" by simp
  have "map_option affinity (tmap e' t) = (if t \<in> S - {n} then Some NO_AFFINITY else None)" for t
    using D(6) [of t] n(3) by auto
  then have "small_run (h @ [Started w n]) ?p (S - {n}) k"
    by (intro small_runI [OF s c n(1)]) (use n(4,5) D(1,5) in simp_all)
  then show ?thesis using that [of n ?p y] n(1,2) D(2) by auto
qed

lemma small_run_finish:
  assumes s: "small_run h p S k" and w: "workers p w = Busy a t x"
  obtains p' where "perform (Proceed w) p = Some (Inr (Finished w, p'))"
    "small_run (h @ [Finished w]) p' S k" "workers p' = (workers p)(w := Looking a)"
proof -
  obtain g where D: "\<not> closed (exec p)" "represents p g" "card (dom (dmap (exec p))) \<le> k"
    "\<And>t. map_option affinity (tmap (exec p) t) = (if t \<in> S then Some NO_AFFINITY else None)"
    by (rule small_runD [OF s]) (rule that)
  obtain p' where p': "finish w a x p = Some (Inr (Finished w, p'))" "closed (exec p') = closed (exec p)"
    "workers p' = (workers p)(w := Looking a)"
    "\<And>u. map_option affinity (tmap (exec p') u) = map_option affinity (tmap (exec p) u)"
    "card (dom (dmap (exec p'))) \<le> card (dom (dmap (exec p)))"
    by (rule finish_sim [OF D(2) w]) (rule that)
  have f: "perform (Proceed w) p = Some (Inr (Finished w, p'))" using p'(1) w by simp
  have c: "client_ok (Proceed w) p" by simp
  have "small_run (h @ [Finished w]) p' S k"
    by (rule small_runI [OF s c f]) (use p'(2,4,5) D(1,3,4) in auto)
  then show ?thesis using that f p'(3) by blast
qed

text \<open>One task, and a task that depends on it, run by the worker.\<close>

lemma small_run_two:
  obtains p :: "'c pool" and u n where
    "small_run [Quiet, Quiet, Added u [], Added n [u]] p {u, n} 1" "n \<noteq> u"
    "workers p = (\<lambda>_. Outside)(0 := Looking NO_AFFINITY)"
proof -
  obtain p0 :: "'c pool" where p0: "small_run [Quiet, Quiet] p0 {} 0"
    "workers p0 = (\<lambda>_. Outside)(0 := Looking NO_AFFINITY)" by (rule small_run_new)
  obtain u p1 where p1: "small_run ([Quiet, Quiet] @ [Added u []]) p1 {u} (0 + length [])" "workers p1 = workers p0"
    by (rule small_run_add [OF p0(1), of "[]" None]) auto
  obtain n p2 where p2: "small_run (([Quiet, Quiet] @ [Added u []]) @ [Added n [u]]) p2 (insert n {u})
      (0 + length [] + length [u])" "n \<notin> {u}" "workers p2 = workers p1"
    by (rule small_run_add [OF p1(1), of "[u]" None]) auto
  show ?thesis by (rule that [of u n p2]) (use p2 p1(2) p0(2) in \<open>simp_all add: insert_commute\<close>)
qed

lemma small_run_three:
  obtains p :: "'c pool" and u n where
    "pool_run ([Quiet, Quiet, Added u []] @ Added n [u] # [Started 0 u, Finished 0] @ [Started 0 n]) p" "n \<noteq> u"
proof -
  obtain p :: "'c pool" and u n where p: "small_run [Quiet, Quiet, Added u [], Added n [u]] p {u, n} 1" "n \<noteq> u"
    "workers p = (\<lambda>_. Outside)(0 := Looking NO_AFFINITY)" by (rule small_run_two)
  have w: "workers p 0 = Looking NO_AFFINITY" "workers p v \<noteq> Busy a t x" for v a t x using p(3) by auto
  obtain m x p1 where m: "m \<in> {u, n}" "small_run ([Quiet, Quiet, Added u [], Added n [u]] @ [Started 0 m]) p1 ({u, n} - {m}) 1"
    "workers p1 = (workers p)(0 := Busy NO_AFFINITY m x)"
    by (rule small_run_start [OF p(1) w]) auto
  have "m \<noteq> n"
  proof
    assume "m = n"
    obtain g where g: "graph_run ([Quiet, Quiet, Added u [], Added n [u]] @ [Started 0 n]) g"
      using small_runD [OF m(2)] \<open>m = n\<close> by metis
    from graph_run_last [OF g] obtain g1 where
      "graph_run ([Quiet, Quiet, Added u []] @ Added n [u] # []) g1" "graph_step (Started 0 n) g1 g" by auto
    moreover have "u \<in> live g0" if "graph_run [Quiet, Quiet, Added u []] g0" for g0
      using graph_count [OF that, of u] by (auto split: if_splits)
    ultimately show False using graph_order [of "[Quiet, Quiet, Added u []]" n "[u]" "[]" g1 u]
      by (auto simp: graph_step_started)
  qed
  then have mu: "m = u" using m(1) by blast
  have w1: "workers p1 0 = Busy NO_AFFINITY m x" using m(3) by simp
  obtain p2 where p2: "small_run (([Quiet, Quiet, Added u [], Added n [u]] @ [Started 0 m]) @ [Finished 0]) p2 ({u, n} - {m}) 1"
    "workers p2 = (workers p1)(0 := Looking NO_AFFINITY)"
    by (rule small_run_finish [OF m(2) w1]) 
  have w2: "workers p2 0 = Looking NO_AFFINITY" "workers p2 v \<noteq> Busy a t x" for v a t x
    using p2(2) m(3) p(3) by auto
  have ne: "{u, n} - {m} \<noteq> {}" using mu p(2) by auto
  obtain k and p3 :: "'c pool" where p3: "k \<in> {u, n} - {m}"
    "small_run ((([Quiet, Quiet, Added u [], Added n [u]] @ [Started 0 m]) @ [Finished 0]) @ [Started 0 k]) p3 ({u, n} - {m} - {k}) 1"
    by (rule small_run_start [OF p2(1) w2 ne])
  have "k = n" using p3(1) mu by auto
  then show ?thesis using that [of u n p3] p3(2) mu p(2) by (simp add: small_run_def)
qed

subsection \<open>Properties\<close>



text \<open>C8. The executor implements the task graph: every history of the threads is a history of
  the graph, whose live tasks are the stored ones and whose running tasks are those the
  workers hold.\<close>

theorem executor_refines_graph:
  assumes "pool_run h p"
  shows "\<exists>g. graph_run h g \<and> live g = {t. sv_is_valid_id task_bits (tasks (exec p)) t} \<and>
    (\<forall>w t. doing g w = Some t \<longleftrightarrow> (\<exists>a x. workers p w = Busy a t x))"
proof -
  obtain g where g: "graph_run h g" "represents p g" using pool_run_sim [OF assms] by blast
  then obtain qs own rank where r: "exec_inv (exec p) (running p) qs own rank"
    "live g = dom (tmap (exec p))" "doing g = (\<lambda>w. map_option fst (running p w))"
    by (auto simp: represents_def)
  have "live g = {t. sv_is_valid_id task_bits (tasks (exec p)) t}"
    unfolding r(2) using sv.valid_iff [OF exec_invD(3) [OF r(1)]] by auto
  moreover have "doing g w = Some t \<longleftrightarrow> (\<exists>a x. workers p w = Busy a t x)" for w t
    by (auto simp: r(3) running_def split: worker.split)
  ultimately show ?thesis using g(1) by blast
qed

theorem executor_refines_graph_witness:
  "\<exists>(p :: unit pool) u n g. graph_run [Quiet, Quiet, Added u [], Added n [u]] g \<and> live g = {u, n} \<and> u \<noteq> n"
proof -
  obtain p :: "unit pool" and u n where p: "small_run [Quiet, Quiet, Added u [], Added n [u]] p {u, n} 1" "n \<noteq> u"
    by (rule small_run_two)
  have r: "pool_run [Quiet, Quiet, Added u [], Added n [u]] p" using p by (simp add: small_run_def)
  from executor_refines_graph [OF r] small_run_inv(2) [OF p(1)] p(2) show ?thesis by metis
qed

text \<open>C12. No task is lost and none runs twice: for every id, the number of times a task with
  that id was started is the number of times one was added, less one if it is still
  stored.\<close>

theorem tasks_run_once:
  assumes "pool_run h p"
  shows "count_list (adds h) n =
    count_list (starts h) n + (if sv_is_valid_id task_bits (tasks (exec p)) n then 1 else 0)"
proof -
  obtain g where g: "graph_run h g" "represents p g" using pool_run_sim [OF assms] by blast
  then obtain qs own rank where r: "exec_inv (exec p) (running p) qs own rank"
    "live g = dom (tmap (exec p))" by (auto simp: represents_def)
  have "n \<in> live g \<longleftrightarrow> sv_is_valid_id task_bits (tasks (exec p)) n"
    unfolding r(2) using sv.valid_iff [OF exec_invD(3) [OF r(1)]] by auto
  then show ?thesis using graph_count [OF g(1), of n] by simp
qed

theorem tasks_run_once_witness:
  "\<exists>(p :: unit pool) u n. pool_run [Quiet, Quiet, Added u [], Added n [u]] p \<and> u \<noteq> n \<and>
    sv_is_valid_id task_bits (tasks (exec p)) n"
proof -
  obtain p :: "unit pool" and u n where p: "small_run [Quiet, Quiet, Added u [], Added n [u]] p {u, n} 1" "n \<noteq> u"
    by (rule small_run_two)
  have r: "pool_run [Quiet, Quiet, Added u [], Added n [u]] p" using p by (simp add: small_run_def)
  have "sv_is_valid_id task_bits (tasks (exec p)) n"
    using tasks_run_once [OF r, of n] p(2) by (simp split: if_splits)
  then show ?thesis using r p(2) by blast
qed




text \<open>C11. Work that is ready is found: when tasks are left and no worker runs one, there is an
  affinity such that every worker of that affinity - and, for a task without affinity,
  every worker - starts a task at its next look at the queues. The executor cannot
  deadlock on its dependencies.\<close>

theorem executor_progress:
  assumes run: "pool_run h p" and idle: "\<And>w a t x. workers p w \<noteq> Busy a t x"
    and left: "sv_is_valid_id task_bits (tasks (exec p)) u"
  shows "\<exists>a. \<forall>w b. workers p w = Looking b \<longrightarrow> a = NO_AFFINITY \<or> a = b \<longrightarrow>
    (\<exists>n p'. perform (Proceed w) p = Some (Inr (Started w n, p')))"
proof -
  obtain g where g: "represents p g" "staff_ok p" using pool_run_sim [OF run] by blast
  obtain qs own rank where inv: "exec_inv (exec p) (running p) qs own rank" using g(1) by (auto simp: represents_def)
  have "tmap (exec p) u \<noteq> None" using left sv.valid_iff [OF exec_invD(3) [OF inv]] by blast
  then obtain t x where t: "tmap (exec p) t = Some x" "num_unmet_dependencies x = 0"
    by (rule ready_exists [OF inv running_not_busy [OF idle]])
  have "\<exists>n p'. perform (Proceed w) p = Some (Inr (Started w n, p'))"
    if "workers p w = Looking b" "affinity x = NO_AFFINITY \<or> affinity x = b" for w b
    using look_starts [OF g that(1) t that(2)] by metis
  then show ?thesis by blast
qed

theorem executor_progress_witness:
  "\<exists>(p :: unit pool) n p'. pool_run [Quiet, Quiet, Added n []] p \<and> (\<exists>a. \<forall>w b. workers p w = Looking b \<longrightarrow> a = NO_AFFINITY \<or> a = b \<longrightarrow>
    (\<exists>n p'. perform (Proceed w) p = Some (Inr (Started w n, p')))) \<and> workers p 0 = Looking NO_AFFINITY"
proof -
  obtain p0 :: "unit pool" where p0: "small_run [Quiet, Quiet] p0 {} 0"
    "workers p0 = (\<lambda>_. Outside)(0 := Looking NO_AFFINITY)" by (rule small_run_new)
  obtain u p1 where p1: "small_run ([Quiet, Quiet] @ [Added u []]) p1 {u} (0 + length [])" "workers p1 = workers p0"
    by (rule small_run_add [OF p0(1), of "[]" None]) auto
  have r: "pool_run [Quiet, Quiet, Added u []] p1" using p1(1) by (simp add: small_run_def)
  have i: "workers p1 w \<noteq> Busy a t x" for w a t x using p1(2) p0(2) by simp
  have v: "sv_is_valid_id task_bits (tasks (exec p1)) u" using small_run_inv(2) [OF p1(1)] by blast
  from executor_progress [OF r i v] r p1(2) p0(2) show ?thesis by auto
qed

text \<open>A worker goes to sleep only when no task it may run is ready, and never takes a task
  of another affinity.\<close>

theorem worker_choice:
  assumes run: "pool_run h p" and w: "workers p w = Looking b"
    and s: "perform (Proceed w) p = Some (Inr (ev, p'))"
  shows "ev = Quiet \<and> workers p' w = Sleeping b \<and>
      (\<forall>t x. sv_get task_bits (tasks (exec p)) t = Inr x \<longrightarrow> num_unmet_dependencies x = 0 \<longrightarrow>
        affinity x \<noteq> NO_AFFINITY \<and> affinity x \<noteq> b) \<or>
    (\<exists>t x. ev = Started w t \<and> workers p' w = Busy b t x \<and>
      sv_get task_bits (tasks (exec p)) t = Inr x \<and> (affinity x = NO_AFFINITY \<or> affinity x = b))"
proof -
  obtain g where g: "represents p g" "staff_ok p" using pool_run_sim [OF run] by blast
  obtain qs own rank where inv: "exec_inv (exec p) (running p) qs own rank" using g(1) by (auto simp: represents_def)
  have b: "b = NO_AFFINITY \<or> unat b < MAX_THREADS" using staff_okD(4) [OF g(2), of w b] w by simp
  have r: "running p w = None" using w by (simp add: running_def)
  have l: "look w b p = Inr (ev, p')" using s w by simp
  have get: "sv_get task_bits (tasks (exec p)) t = Inr x \<longleftrightarrow> tmap (exec p) t = Some x" for t x
    by (rule sv.get_iff [OF exec_invD(3) [OF inv]])
  obtain ev0 p0 where e: "look w b p = Inr (ev0, p0)" and
    d: "ev0 = Quiet \<and> p0 = set_worker w (Sleeping b) p \<and>
       (\<forall>t x. tmap (exec p) t = Some x \<longrightarrow> num_unmet_dependencies x = 0 \<longrightarrow>
          affinity x \<noteq> NO_AFFINITY \<and> affinity x \<noteq> b) \<or>
     (\<exists>t x e'. ev0 = Started w t \<and> p0 = set_worker w (Busy b t x) (p\<lparr>exec := e'\<rparr>) \<and>
       tmap (exec p) t = Some x \<and> (affinity x = NO_AFFINITY \<or> affinity x = b) \<and>
       tmap e' = (tmap (exec p))(t := None) \<and> dmap e' = dmap (exec p))"
    by (rule look_sim [OF g(1) r b]) (rule that)
  have "ev0 = ev" "p0 = p'" using e l by auto
  then show ?thesis using d unfolding get by (elim disjE exE conjE) auto
qed

theorem worker_choice_witness:
  "\<exists>(p :: unit pool) ev p'. pool_run [Quiet, Quiet] p \<and> perform (Proceed 0) p = Some (Inr (ev, p')) \<and>
    ev = Quiet \<and> workers p' 0 = Sleeping NO_AFFINITY"
proof -
  obtain p :: "unit pool" where p: "small_run [Quiet, Quiet] p {} 0"
    "workers p = (\<lambda>_. Outside)(0 := Looking NO_AFFINITY)" by (rule small_run_new)
  have r: "pool_run [Quiet, Quiet] p" using p(1) by (simp add: small_run_def)
  have w: "workers p 0 = Looking NO_AFFINITY" using p(2) by simp
  obtain g where "represents p g" "staff_ok p" using pool_run_sim [OF r] by blast
  from perform_sim [OF this, of "Proceed 0"] obtain ev p' where e: "perform (Proceed 0) p = Some (Inr (ev, p'))"
    by auto
  have none: "sv_get task_bits (tasks (exec p)) t \<noteq> Inr x" for t x
    using small_run_inv(1,2) [OF p(1)] sv.get_iff sv.valid_iff by fastforce
  from worker_choice [OF r w e] none e r show ?thesis by blast
qed

text \<open>C13. \<open>wait_and_disable\<close> lets the closing thread go on exactly when no worker is left in its
  loop.\<close>

theorem close_waits_for_workers:
  assumes "pool_run h p" "\<not> alive (num_threads p)"
  shows "wait_over (num_threads p) \<longleftrightarrow> (\<forall>w. \<not> inside (workers p w))"
proof -
  have s: "staff_ok p" using pool_run_sim [OF assms(1)] by blast
  show ?thesis
    using bc.passes_iff [OF staff_okD(6) [OF s] assms(2)] finite_inside [OF s] by auto
qed

theorem close_waits_for_workers_witness:
  "\<exists>p :: unit pool. pool_run [Quiet, Quiet] p \<and> wait_over (num_threads p)"
proof -
  obtain p :: "unit pool" where p: "pool_run [] p" "workers p = (\<lambda>_. Outside)" by (rule pool_run_start)
  let ?p1 = "p\<lparr>exec := close (exec p)\<rparr>"
  let ?p2 = "?p1\<lparr>num_threads := fst (disable (num_threads ?p1))\<rparr>"
  have "pool_run ([] @ [Quiet]) ?p1" by (rule pool_run.step [OF p(1), of Close_pool]) simp_all
  then have r: "pool_run (([] @ [Quiet]) @ [Quiet]) ?p2"
    by (rule pool_run.step [of _ _ Disable_pool]) (use p(2) close_ok(4) in simp_all)
  have "\<not> alive (num_threads ?p2)" by (simp add: disable_def)
  from close_waits_for_workers [OF r this] p(2) r show ?thesis by auto
qed

subsection \<open>Where the code falls short\<close>

lemma add_dependencies_dead:
  "sv_inv task_bits (tasks e) \<Longrightarrow> \<forall>u \<in> set us. tmap e u = None \<Longrightarrow> add_dependencies n us e = Inr e"
proof (induction us)
  case (Cons u us)
  have "\<not> sv_is_valid_id task_bits (tasks e) u" using sv.valid_iff [OF Cons.prems(1)] Cons.prems(2) by auto
  then show ?case using Cons by (simp add: add_dependency_def)
qed simp

lemma add_ready:
  assumes inv: "exec_inv e run qs own rank" and op: "\<not> closed e" and a: "a = NO_AFFINITY \<or> unat a < MAX_THREADS"
    and room: "card (dom (tmap e)) < 2 ^ task_bits - 1" and us: "\<forall>u \<in> set us. tmap e u = None"
    and fresh: "\<forall>t ts. sv_emplace task_bits (tasks e) (new_task c a) = Inr (t, ts) \<longrightarrow> t \<notin> set us"
  obtains n e' x where "add_task c us a e = Inr (n, e')" "closed e' = closed e"
    "queues_inv e' {} (qs(queue_of a := n # qs (queue_of a)))"
    "tmap e' n = Some x" "num_unmet_dependencies x = 0" "affinity x = a" "closure x = c"
    "\<And>t. t \<noteq> n \<Longrightarrow> tmap e' t = tmap e t" "tmap e n = None"
proof -
  note I = exec_invD [OF inv]
  have a1: "valid_queue (queue_of a)" and a2: "a = NO_AFFINITY \<or> unat a \<le> MAX_THREADS"
    using a by (auto simp: valid_queue_def queue_of_def)
  obtain n ts where n: "sv_emplace task_bits (tasks e) (new_task c a) = Inr (n, ts)" "sv_inv task_bits ts"
    "tmap e n = None" "sv_lookup task_bits ts = (tmap e)(n \<mapsto> new_task c a)"
    by (rule sv.emplaceE [OF I(3) room])
  let ?e1 = "e\<lparr>tasks := ts\<rparr>"
  have q1: "queues_inv ?e1 {n} qs" using new_task_ok [OF inv n(3,2,4) a1] by metis
  have dead: "\<forall>u \<in> set us. tmap ?e1 u = None" using us fresh n(1,4) by (auto simp: fun_upd_apply)
  have deps: "add_dependencies n us ?e1 = Inr ?e1"
    by (rule add_dependencies_dead [OF _ dead]) (use n(2) in simp)
  have x: "tmap ?e1 n = Some (new_task c a)" using n(4) by simp
  have get: "sv_get task_bits ts n = Inr (new_task c a)" using sv.get_ok [OF n(2)] n(4) by simp
  have z: "num_unmet_dependencies (new_task c a) = 0" "affinity (new_task c a) = a" "closure (new_task c a) = c"
    by (simp_all add: new_task_def)
  obtain e2 where e2: "schedule n ?e1 = Inr e2"
    "queues_inv e2 ({n} - {n}) (qs(queue_of (affinity (new_task c a)) :=
       n # qs (queue_of (affinity (new_task c a)))))"
    "tmap e2 = (tmap ?e1)(n \<mapsto> new_task c a\<lparr>stamp := next_stamp ?e1,
       next_in_list := front (queue_at ?e1 (queue_of (affinity (new_task c a))))\<rparr>)"
    "closed e2 = closed ?e1"
    by (rule schedule_ok [OF q1 x z(1) singletonI])
  have "add_task c us a e = Inr (n, e2)"
    using op a2 by (simp add: add_task_def n(1) deps get z(1) e2(1))
  moreover have "queues_inv e2 {} (qs(queue_of a := n # qs (queue_of a)))" using e2(2) z(2) by simp
  moreover have "tmap e2 t = tmap e t" if "t \<noteq> n" for t using that e2(3) n(4) by simp
  ultimately show ?thesis using e2(3,4) z n(3)
    by (intro that [of n e2 "new_task c a\<lparr>stamp := next_stamp ?e1,
       next_in_list := front (queue_at ?e1 (queue_of (affinity (new_task c a))))\<rparr>"]) simp_all
qed

lemma add_then_start:
  assumes run: "pool_run h p" and op: "\<not> closed (exec p)" and c: "client_ok (Add_task c us NO_AFFINITY) p"
    and us: "\<forall>u \<in> set us. \<not> sv_is_valid_id task_bits (tasks (exec p)) u" and w: "workers p w = Looking NO_AFFINITY"
  obtains n x e e2 where "perform (Add_task c us NO_AFFINITY) p = Some (Inr (Added n us, p\<lparr>exec := e\<rparr>))"
    "perform (Proceed w) (p\<lparr>exec := e\<rparr>) =
       Some (Inr (Started w n, set_worker w (Busy NO_AFFINITY n x) (p\<lparr>exec := e2\<rparr>)))" "closure x = c"
proof -
  obtain g where g: "represents p g" "staff_ok p" using pool_run_sim [OF run] by blast
  obtain qs own rank where inv: "exec_inv (exec p) (running p) qs own rank" using g(1) by (auto simp: represents_def)
  have room: "card (dom (tmap (exec p))) < 2 ^ task_bits - 1" using c op by simp
  have fresh: "\<forall>t ts. sv_emplace task_bits (tasks (exec p)) (new_task c NO_AFFINITY) = Inr (t, ts) \<longrightarrow> t \<notin> set us"
    by (rule disjE [OF c [unfolded client_ok.simps]]) (use op in simp, elim conjE, assumption)
  have dead: "\<forall>u \<in> set us. tmap (exec p) u = None" using us sv.valid_iff [OF exec_invD(3) [OF inv]] by blast
  obtain n e x where e: "add_task c us NO_AFFINITY (exec p) = Inr (n, e)" "closed e = closed (exec p)"
    "queues_inv e {} (qs(queue_of NO_AFFINITY := n # qs (queue_of NO_AFFINITY)))"
    "tmap e n = Some x" "num_unmet_dependencies x = 0" "affinity x = NO_AFFINITY" "closure x = c"
    using add_ready [OF inv op disjI1 [OF refl] room dead fresh] by metis
  have q: "queue_of NO_AFFINITY = Global" "valid_queue Global" by (simp_all add: queue_of_def valid_queue_def)
  let ?qs = "qs(Global := n # qs Global)"
  have Q: "queues_inv e {} ?qs" using e(3) q(1) by simp
  have ne: "next_queue NO_AFFINITY e = Inr (Some Global)"
    using empty_task_list_ok(1) [OF Q q(2)] by (simp add: next_queue_def queue_at_def)
  have f: "front (global_task_queue e) = n"
    using empty_task_list_ok(2) [OF Q q(2)] by (simp add: queue_at_def)
  obtain y e2 where y: "pop_task Global e = Inr (y, e2)" "tmap e n = Some y"
    using pop_task_ok [OF Q q(2), of n "qs Global"] by (metis fun_upd_same)
  have "look w NO_AFFINITY (p\<lparr>exec := e\<rparr>) =
      Inr (Started w n, set_worker w (Busy NO_AFFINITY n x) (p\<lparr>exec := e2\<rparr>))"
    using ne f y e(4,5) by (simp add: look_def get_queue_def)
  then show ?thesis
    by (intro that [of n e x e2]) (use e(1,7) op w in auto)
qed

text \<open>The queues are stacks: whatever is queued, a new task without open dependencies is the
  one the next free worker starts. (The comment at \<open>push_task\<close> says FIFO; a queued task can
  be overtaken for ever.)\<close>

theorem newest_task_first:
  assumes "pool_run h p" "\<not> closed (exec p)" "client_ok (Add_task c [] NO_AFFINITY) p"
    "workers p w = Looking NO_AFFINITY"
  shows "\<exists>n p1 p2. perform (Add_task c [] NO_AFFINITY) p = Some (Inr (Added n [], p1)) \<and>
    perform (Proceed w) p1 = Some (Inr (Started w n, p2))"
proof -
  have "\<forall>u \<in> set []. \<not> sv_is_valid_id task_bits (tasks (exec p)) u" by simp
  from add_then_start [OF assms(1-3) this assms(4)] show ?thesis by metis
qed

theorem newest_task_first_witness:
  "\<exists>(p :: unit pool) u m p' n p1 p2. pool_run [Quiet, Quiet, Added u [], Added m [u]] p \<and>
    perform (Add_task None [] NO_AFFINITY) p = Some (Inr (Added n [], p1)) \<and>
    perform (Proceed 0) p1 = Some (Inr (Started 0 n, p2))"
proof -
  obtain p :: "unit pool" and u n where p: "small_run [Quiet, Quiet, Added u [], Added n [u]] p {u, n} 1" "n \<noteq> u"
    "workers p = (\<lambda>_. Outside)(0 := Looking NO_AFFINITY)" by (rule small_run_two)
  have r: "pool_run [Quiet, Quiet, Added u [], Added n [u]] p" "\<not> closed (exec p)"
    using p(1) by (simp_all add: small_run_def)
  have c: "client_ok (Add_task None [] NO_AFFINITY) p"
    by (rule small_run_client_ok [OF p(1)]) (simp_all add: card_insert_if)
  have "workers p 0 = Looking NO_AFFINITY" using p(3) by simp
  from newest_task_first [OF r c this] r(1) show ?thesis by blast
qed

text \<open>A dependency on a task that is being run counts as met, because popping a task already
  takes it out of the id vector: the new task starts while the task it depends on is still
  running.\<close>

theorem running_dependency_ignored:
  assumes run: "pool_run h p" "\<not> closed (exec p)" "client_ok (Add_task c [u] NO_AFFINITY) p"
    and v: "workers p v = Busy b u x" "\<not> sv_is_valid_id task_bits (tasks (exec p)) u"
    and w: "workers p w = Looking NO_AFFINITY"
  shows "\<exists>n p1 p2. perform (Add_task c [u] NO_AFFINITY) p = Some (Inr (Added n [u], p1)) \<and>
    perform (Proceed w) p1 = Some (Inr (Started w n, p2)) \<and> workers p2 v = Busy b u x"
proof -
  have "\<forall>u \<in> set [u]. \<not> sv_is_valid_id task_bits (tasks (exec p)) u" using v(2) by simp
  from add_then_start [OF run this w] obtain n e e2 y where
    e: "perform (Add_task c [u] NO_AFFINITY) p = Some (Inr (Added n [u], p\<lparr>exec := e\<rparr>))"
    "perform (Proceed w) (p\<lparr>exec := e\<rparr>) =
       Some (Inr (Started w n, set_worker w (Busy NO_AFFINITY n y) (p\<lparr>exec := e2\<rparr>)))" by metis
  moreover have "v \<noteq> w" using v(1) w by auto
  ultimately show ?thesis using e v(1) by auto
qed

lemma look_erases:
  assumes "look w b p = Inr (Started w n, p')"
  shows "sv_erase task_bits (tasks (exec p)) n = Inr (tasks (exec p'))"
proof -
  obtain q where q: "next_queue b (exec p) = Inr (Some q)"
    using assms by (auto simp: look_def bind_res_def split: sum.splits option.splits)
  show ?thesis
    using assms by (cases q) (auto simp: look_def q get_queue_def pop_task_def set_queue_def res_Inr_iff Let_def)
qed

theorem running_dependency_ignored_witness:
  "\<exists>h (p :: unit pool) u x n p1 p2. pool_run h p \<and> workers p 0 = Busy NO_AFFINITY u x \<and>
    perform (Add_task None [u] NO_AFFINITY) p = Some (Inr (Added n [u], p1)) \<and>
    perform (Proceed 1) p1 = Some (Inr (Started 1 n, p2)) \<and> workers p2 0 = Busy NO_AFFINITY u x"
proof -
  obtain p0 :: "unit pool" where p0: "small_run [Quiet, Quiet] p0 {} 0"
    "workers p0 = (\<lambda>_. Outside)(0 := Looking NO_AFFINITY)" by (rule small_run_new)
  obtain m p1 where p1: "small_run ([Quiet, Quiet] @ [Added m []]) p1 {m} 0" "workers p1 = workers p0"
    by (rule small_run_add [OF p0(1), of "[]" None]) auto
  have w1: "workers p1 0 = Looking NO_AFFINITY" "workers p1 v \<noteq> Busy a t x" for v a t x
    using p1(2) p0(2) by simp_all
  obtain u x and p2 :: "unit pool" where p2: "perform (Proceed 0) p1 = Some (Inr (Started 0 u, p2))" "u \<in> {m}"
    "small_run (([Quiet, Quiet] @ [Added m []]) @ [Started 0 u]) p2 ({m} - {u}) 0"
    "workers p2 = (workers p1)(0 := Busy NO_AFFINITY u x)"
    by (rule small_run_start [OF p1(1) w1]) auto
  have o: "workers p2 1 = Outside" "1 < max_workers"
    using p2(4) p1(2) p0(2) by (simp_all add: max_workers_def)
  obtain p3 where p3: "small_run ((([Quiet, Quiet] @ [Added m []]) @ [Started 0 u]) @ [Quiet, Quiet]) p3 ({m} - {u}) 0"
    "workers p3 = (workers p2)(1 := Looking NO_AFFINITY)" "exec p3 = exec p2"
    by (rule small_run_enter [OF p2(3) o]) (rule that)
  have e: "sv_erase task_bits (tasks (exec p1)) u = Inr (tasks (exec p3))"
    using look_erases [of 0 NO_AFFINITY p1 u p2] p2(1) w1(1) p3(3) by simp
  have S: "{m} - {u} = {}" using p2(2) by blast
  have d: "dom (tmap (exec p3)) = {}" using p3(1) S by (auto simp: small_run_def)
  have fresh: "t \<noteq> u" if "sv_emplace task_bits (tasks (exec p3)) (new_task None NO_AFFINITY) = Inr (t, ts)" for t ts
    by (rule sv_erase_emplace_ne [OF small_run_inv(1) [OF p1(1)] e that]) (use d in simp_all)
  have c: "client_ok (Add_task None [u] NO_AFFINITY) p3"
    by (rule small_run_client_ok [OF p3(1)]) (use S fresh in auto)
  have r: "pool_run ((([Quiet, Quiet] @ [Added m []]) @ [Started 0 u]) @ [Quiet, Quiet]) p3" "\<not> closed (exec p3)"
    using p3(1) by (simp_all add: small_run_def)
  have b: "workers p3 0 = Busy NO_AFFINITY u x" "workers p3 1 = Looking NO_AFFINITY"
    using p3(2) p2(4) by simp_all
  have v: "\<not> sv_is_valid_id task_bits (tasks (exec p3)) u" using small_run_inv(2) [OF p3(1)] S by blast
  from running_dependency_ignored [OF r c b(1) v b(2)] r(1) b(1) show ?thesis by blast
qed

text \<open>The \<open>DCHECK\<close> on the affinity of a new task is off by one: affinity \<open>MAX_THREADS\<close>
  passes it and indexes the queues out of bounds.\<close>

theorem affinity_check_off_by_one:
  assumes run: "pool_run h p" and op: "\<not> closed (exec p)"
    and room: "card (dom (tmap (exec p))) < 2 ^ task_bits - 1"
  shows "perform (Add_task c [] 16) p = Some (Inl Out_of_bounds)"
proof -
  obtain g where g: "represents p g" using pool_run_sim [OF run] by blast
  obtain qs own rank where inv: "exec_inv (exec p) (running p) qs own rank" using g by (auto simp: represents_def)
  note I = exec_invD [OF inv]
  let ?x = "new_task c (16 :: thread_id)"
  obtain n ts where n: "sv_emplace task_bits (tasks (exec p)) ?x = Inr (n, ts)" "sv_inv task_bits ts"
    "tmap (exec p) n = None" "sv_lookup task_bits ts = (tmap (exec p))(n \<mapsto> ?x)"
    by (rule sv.emplaceE [OF I(3) room])
  have x: "sv_lookup task_bits ts n = Some ?x" using n(4) by simp
  obtain t1 where t1: "sv_put task_bits ts n (?x\<lparr>stamp := next_stamp (exec p)\<rparr>) = Inr t1"
    by (rule sv.putE [OF n(2) x])
  have "(16 :: thread_id) \<noteq> NO_AFFINITY" by (simp add: NO_AFFINITY_def)
  then have q: "queue_of (16 :: thread_id) = Affine 16" by (simp add: queue_of_def)
  have z: "num_unmet_dependencies ?x = 0" "affinity ?x = 16" by (simp_all add: new_task_def)
  have "add_task c [] 16 (exec p) = Inl Out_of_bounds"
    using op I(8) by (simp add: add_task_def n(1) MAX_THREADS_def sv.get_ok [OF n(2) x] z schedule_def t1
        push_task_def q get_queue_def)
  then show ?thesis by simp
qed

theorem affinity_check_off_by_one_witness:
  "\<exists>p :: unit pool. pool_run [Quiet, Quiet] p \<and> perform (Add_task None [] 16) p = Some (Inl Out_of_bounds)"
proof -
  obtain p :: "unit pool" where p: "small_run [Quiet, Quiet] p {} 0" by (rule small_run_new)
  have r: "pool_run [Quiet, Quiet] p" "\<not> closed (exec p)" "card (dom (tmap (exec p))) < 2 ^ task_bits - 1"
    using p by (simp_all add: small_run_def)
  from affinity_check_off_by_one [OF r] r(1) show ?thesis by blast
qed

text \<open>C15. A thread that has passed the unlocked test of \<open>closed_\<close> aborts the program if the
  executor is closed and waited for before the thread takes the lock.\<close>

theorem closing_race_aborts:
  assumes "pool_run h p" "workers p w = Entering a"
  shows "\<exists>p1 p2. perform Close_pool p = Some (Inr (Quiet, p1)) \<and>
    perform Disable_pool p1 = Some (Inr (Quiet, p2)) \<and> perform (Proceed w) p2 = Some (Inl Check_failed)"
proof -
  have "alive (num_threads p)" using pool_run_sim [OF assms(1)] staff_okD(8) assms(2) by blast
  then show ?thesis using assms(2) by (simp add: enter_def disable_def)
qed

theorem closing_race_aborts_witness:
  "\<exists>h (p :: unit pool). pool_run h p \<and> (\<exists>p1 p2. perform Close_pool p = Some (Inr (Quiet, p1)) \<and>
    perform Disable_pool p1 = Some (Inr (Quiet, p2)) \<and> perform (Proceed 0) p2 = Some (Inl Check_failed))"
proof -
  obtain p :: "unit pool" where p: "small_run [] p {} 0" "workers p = (\<lambda>_. Outside)" by (rule pool_run_start)
  have "small_run ([] @ [Quiet]) (set_worker 0 (Entering NO_AFFINITY) p) {} 0"
    by (rule small_run_enter [OF p(1), of 0]) (use p(2) in \<open>simp_all add: max_workers_def\<close>)
  then have r: "pool_run ([] @ [Quiet]) (set_worker 0 (Entering NO_AFFINITY) p)" by (simp add: small_run_def)
  have "workers (set_worker 0 (Entering NO_AFFINITY) p) 0 = Entering NO_AFFINITY" by simp
  from closing_race_aborts [OF r this] r show ?thesis by blast
qed

end
