(* ===== verification/Executor_Drain.thy ===== *)
theory Executor_Drain
  imports Executor_Props
begin

text \<open>
  One worker on its own: the loop of \<open>run_tasks_no_affinity\<close> from a state in which no other
  thread runs anything and whose closures do not touch the executor. It ends, with every
  task run, once each and after everything it depends on.
\<close>

text \<open>The loop until it finds the queue empty; \<open>past\<close> lists the tasks run. \<open>None\<close> stands for a
  loop that does not end.\<close>

partial_function (option) drain ::
  "task_id list \<Rightarrow> 'c executor \<Rightarrow> (task_id list \<times> 'c executor) res option" where
  "drain past e =
     (case empty_task_list (global_task_queue e) of
        Inl err \<Rightarrow> Some (Inl err)
      | Inr is_empty \<Rightarrow>
          if is_empty then Some (Inr (past, e))
          else case pop_task Global e of
            Inl err \<Rightarrow> Some (Inl err)
          | Inr (task, e1) \<Rightarrow>
              Option.bind (signal_dependents task e1) (\<lambda>r. case r of
                Inl err \<Rightarrow> Some (Inl err)
              | Inr e2 \<Rightarrow> drain (past @ [front (global_task_queue e)]) e2))"

text \<open>Task \<open>n\<close> waits for task \<open>u\<close>: it is on the dependent list of \<open>u\<close>.\<close>

definition depends :: "'c executor \<Rightarrow> task_id \<Rightarrow> task_id \<Rightarrow> bool" where
  "depends e u n \<longleftrightarrow> (\<exists>x ds d y. tmap e u = Some x \<and>
     linked (\<lambda>d. next_dependent (the (dmap e d))) (first_dependent x) ds INVALID_DEPENDENT \<and>
     set ds \<subseteq> dom (dmap e) \<and> d \<in> set ds \<and> dmap e d = Some y \<and> from_task y = n)"

definition before :: "'a \<Rightarrow> 'a \<Rightarrow> 'a list \<Rightarrow> bool" where
  "before u n ts \<longleftrightarrow> (\<exists>xs ys zs. ts = xs @ u # ys @ n # zs)"

lemma depends_edges:
  assumes inv: "exec_inv e run qs own rank" and d: "depends e u n"
  shows "(Waiting u, n) \<in> edges (dmap e) own" "n \<in> dom (tmap e)" "u \<in> dom (tmap e)"
proof -
  note I = exec_invD [OF inv]
  obtain x ds d y where D: "tmap e u = Some x"
     "linked (\<lambda>d. next_dependent (the (dmap e d))) (first_dependent x) ds INVALID_DEPENDENT"
     "d \<in> set ds" "dmap e d = Some y" "from_task y = n" "set ds \<subseteq> dom (dmap e)" using d by (auto simp: depends_def)
  have h: "owns (tmap e) run (Waiting u) = Some (first_dependent x)" using D(1) by simp
  have "dmap e INVALID_DEPENDENT = None" by (rule sv_lookup_INVALID_DEPENDENT [OF I(4)])
  moreover from this have "INVALID_DEPENDENT \<notin> set (own (Waiting u))" using lists_okD(6) [OF I(5)] by fastforce
  moreover have "INVALID_DEPENDENT \<notin> set ds" using D(6) calculation(1) by auto
  ultimately have "ds = own (Waiting u)"
    using linked_unique [OF lists_okD(2) [OF I(5) h] D(2)] by blast
  then show "(Waiting u, n) \<in> edges (dmap e) own" using D(3-5) by (auto simp: edges_iff)
  show "n \<in> dom (tmap e)" using count_okD(2) [OF I(6) D(4)] D(5) by blast
  show "u \<in> dom (tmap e)" using D(1) by blast
qed

lemma before_Cons: "before u n ts \<Longrightarrow> before u n (t # ts)"
  unfolding before_def by (metis append_Cons)

lemma before_head: "n \<in> set ts \<Longrightarrow> before u n (u # ts)"
  unfolding before_def by (metis append_Nil split_list)

lemma drain_empty:
  assumes inv: "exec_inv e (\<lambda>_. None) qs own rank" and none: "tmap e = Map.empty"
  shows "drain past e = Some (Inr (past, e))" "dmap e = Map.empty" "edges (dmap e) own = {}"
proof -
  note I = exec_invD [OF inv]
  have q: "valid_queue Global" by (simp add: valid_queue_def)
  have "set (qs Global) = {}" using queues_invD(5) [OF I(1) q] none by (auto simp: ready_def)
  then have "empty_task_list (global_task_queue e) = Inr True"
    using empty_task_list_ok(1) [OF I(1) q] by (simp add: queue_at_def)
  then show "drain past e = Some (Inr (past, e))" by (simp add: drain.simps [of past e])
  have "owns (tmap e) (\<lambda>_. None) w = None" for w using none by (cases w) auto
  then have "own w = []" for w using lists_okD(1) [OF I(5)] by blast
  then show "dmap e = Map.empty" "edges (dmap e) own = {}" using lists_okD(5) [OF I(5)] by (auto simp: edges_def)
qed

text \<open>The first task comes before those that wait for it, and the order of the others is that of the rest.\<close>

lemma order_after_first:
  assumes inv: "exec_inv e (\<lambda>_. None) qs own rank" and t: "\<forall>v. (v, t) \<notin> edges (dmap e) own"
    and ts: "set ts = dom (tmap e) - {t}" and e: "(Waiting u, n) \<in> edges (dmap e) own"
    and rest: "u \<noteq> t \<Longrightarrow> before u n ts"
  shows "before u n (t # ts)"
proof (cases "u = t")
  case True
  note I = exec_invD [OF inv]
  obtain d where d: "d \<in> set (own (Waiting u))" "n = from_task (the (dmap e d))"
    using e by (auto simp: edges_iff)
  obtain y where y: "dmap e d = Some y" using lists_okD(6) [OF I(5) d(1)] by blast
  have "n \<in> dom (tmap e)" using count_okD(2) [OF I(6) y] d(2) y by auto
  moreover have "n \<noteq> t" using e t by auto
  ultimately have "n \<in> set ts" using ts by simp
  then show ?thesis unfolding True by (rule before_head)
next
  case False
  then show ?thesis by (intro before_Cons rest)
qed

lemma drain_ok:
  assumes "exec_inv e (\<lambda>_. None) qs own rank" "\<forall>t x. tmap e t = Some x \<longrightarrow> affinity x = NO_AFFINITY"
  shows "\<exists>ts e'. drain past e = Some (Inr (past @ ts, e')) \<and> distinct ts \<and> set ts = dom (tmap e) \<and>
    tmap e' = Map.empty \<and> dmap e' = Map.empty \<and> closed e' = closed e \<and>
    sv_inv task_bits (tasks e') \<and> sv_inv dependent_bits (dependents e') \<and>
    (\<forall>u n. (Waiting u, n) \<in> edges (dmap e) own \<longrightarrow> before u n ts)"
  using assms
proof (induction "card (dom (tmap e))" arbitrary: e qs own past)
  case 0
  note inv = "0.prems"(1)
  note I = exec_invD [OF inv]
  have none: "tmap e = Map.empty" using 0(1) I(9) by (auto simp: dom_def)
  show ?case using drain_empty [OF inv none] none I(3,4) by (intro exI [of _ "[]"] exI [of _ e]) simp
next
  case (Suc k)
  note inv = Suc.prems(1)
  note I = exec_invD [OF inv]
  have q: "valid_queue Global" by (simp add: valid_queue_def)
  have "dom (tmap e) \<noteq> {}" using Suc.hyps(2) by auto
  then obtain u where "tmap e u \<noteq> None" by blast
  then obtain r y where r: "tmap e r = Some y" "num_unmet_dependencies y = 0"
    by (rule ready_exists [OF inv refl])
  then have "r \<in> set (qs Global)"
    using queues_invD(5) [OF I(1) q] Suc.prems(2) by (auto simp: ready_def queue_of_def)
  then obtain t xs where xs: "qs Global = t # xs" by (cases "qs Global") auto
  have front: "front (global_task_queue e) = t" "empty_task_list (global_task_queue e) = Inr False"
    using empty_task_list_ok(1,2) [OF I(1) q] xs by (simp_all add: queue_at_def)
  obtain x e1 where pop: "pop_task Global e = Inr (x, e1)" "tmap e t = Some x"
    "exec_inv e1 ((\<lambda>_. None)(0 \<mapsto> (t, x))) (qs(Global := xs)) (own(Waiting t := [], Running 0 := own (Waiting t))) rank"
    "tmap e1 = (tmap e)(t := None)" "dmap e1 = dmap e" "closed e1 = closed e"
    "\<forall>v. (v, t) \<notin> edges (dmap e) own"
    using pop_inv [OF inv q xs refl] by metis
  let ?own1 = "own(Waiting t := [], Running 0 := own (Waiting t))"
  have j: "((\<lambda>_. None)(0 \<mapsto> (t, x))) 0 = Some (t, x)" by simp
  obtain e2 qs2 where sg: "signal_dependents x e1 = Some (Inr e2)"
    "exec_inv e2 ((\<lambda>_. None)(0 \<mapsto> (t, x), 0 := None)) qs2 (?own1(Running 0 := [])) rank"
    "edges (dmap e2) (?own1(Running 0 := [])) = {(v, n) \<in> edges (dmap e1) ?own1. v \<noteq> Running 0}"
    "dom (tmap e2) = dom (tmap e1)" "closed e2 = closed e1"
    "\<And>t. map_option affinity (tmap e2 t) = map_option affinity (tmap e1 t)"
    by (rule signal_dependents_inv [OF pop(3) j]) (rule that)
  have inv2: "exec_inv e2 (\<lambda>_. None) qs2 (?own1(Running 0 := [])) rank" using sg(2) by simp
  have dom2: "dom (tmap e2) = dom (tmap e) - {t}" using sg(4) pop(4) by simp
  moreover have "card (dom (tmap e) - {t}) = card (dom (tmap e)) - 1"
    by (rule card_Diff_singleton) (use pop(2) in blast)
  ultimately have "k = card (dom (tmap e2))" using Suc.hyps(2) by simp
  moreover have "affinity z = NO_AFFINITY" if "tmap e2 s = Some z" for s z
  proof -
    have "map_option affinity (tmap e1 s) = Some (affinity z)" using sg(6) [of s] that by simp
    then show ?thesis using pop(4) Suc.prems(2) by (auto split: if_splits)
  qed
  ultimately obtain ts e' where ts: "drain (past @ [t]) e2 = Some (Inr ((past @ [t]) @ ts, e'))" "distinct ts"
    "set ts = dom (tmap e2)" "tmap e' = Map.empty" "dmap e' = Map.empty" "closed e' = closed e2"
    "sv_inv task_bits (tasks e')" "sv_inv dependent_bits (dependents e')"
    "\<forall>u n. (Waiting u, n) \<in> edges (dmap e2) (?own1(Running 0 := [])) \<longrightarrow> before u n ts"
    using Suc.hyps(1) [OF _ inv2] by metis
  have "drain past e = Some (Inr (past @ t # ts, e'))"
    using front pop(1) sg(1) ts(1) by (simp add: drain.simps [of past e])
  moreover have "before u n (t # ts)" if e: "(Waiting u, n) \<in> edges (dmap e) own" for u n
  proof (rule order_after_first [OF inv pop(7) _ e])
    show "set ts = dom (tmap e) - {t}" using ts(3) dom2 by simp
    assume "u \<noteq> t"
    then have "(Waiting u, n) \<in> edges (dmap e1) ?own1" using e unfolding pop(5) by (simp add: edges_iff)
    then have "(Waiting u, n) \<in> edges (dmap e2) (?own1(Running 0 := []))" unfolding sg(3) by simp
    then show "before u n ts" using ts(9) by blast
  qed
  ultimately show ?case
    using ts(2-8) dom2 pop(2,6) sg(5) by (intro exI [of _ "t # ts"] exI [of _ e']) auto
qed



end
