(* ===== verification/Frame_Demo.thy ===== *)
theory Frame_Demo
  imports Executor_Drain
begin

text \<open>
  The demo of \<open>core/test.cpp\<close>: a frame of fifteen dependent tasks, of which the last one adds the next
  frame, and a \<open>main\<close> that starts four workers.
\<close>

subsection \<open>The tasks of a frame\<close>

text \<open>The global variables; \<open>perf_freq\<close> is only used in the time comparison, whose outcome is an argument below.\<close>

record demo =
  frame_counter :: "32 word"
  total_frames :: "32 word"
  last_frame_reset :: "64 word"
  silly_counter :: "32 word"

datatype job =
    Frame_start | Scene | Anim | Ai | Ctrl | Game | Audio | Gui | Render_start
  | Render nat
  | Render_end | Frame_end

text \<open>The loop that most tasks run on \<open>silly_counter\<close>.\<close>

definition churn :: "32 word \<Rightarrow> 32 word" where
  "churn c = fold (\<lambda>i c. c + of_nat i * c) [0..<1000] c"

text \<open>What each closure does to the counter; \<open>Frame_end\<close> then calls \<open>new_frame\<close>.\<close>

definition run_job :: "job \<Rightarrow> demo \<Rightarrow> demo" where
  "run_job j d = d\<lparr>silly_counter :=
     (if j \<in> {Frame_start, Render_start, Render_end, Frame_end} then silly_counter d + 1 else churn (silly_counter d))\<rparr>"

text \<open>The frame counters; \<open>elapsed\<close> is whether two seconds have passed since the last reset. The result
  says if the executor is closed.\<close>

definition count_frame :: "64 word \<Rightarrow> bool \<Rightarrow> demo \<Rightarrow> demo \<times> bool" where
  "count_frame now elapsed d =
     (let d = d\<lparr>frame_counter := frame_counter d + 1\<rparr> in
      if elapsed then
        let d = d\<lparr>last_frame_reset := now, total_frames := total_frames d + frame_counter d, frame_counter := 0\<rparr>
        in (d, total_frames d \<ge> 5000000)
      else (d, False))"

definition add_job :: "job \<Rightarrow> task_id list \<Rightarrow> job executor \<Rightarrow> (task_id \<times> job executor) res" where
  "add_job j depends_on e = add_task (Some j) depends_on NO_AFFINITY e"

text \<open>\<open>new_frame\<close> after the first task; the four render tasks are arguments of the call that adds \<open>render_end\<close>.\<close>

definition add_frame :: "task_id \<Rightarrow> job executor \<Rightarrow> job executor res" where
  "add_frame frame_start e =
     bind_res (add_job Scene [frame_start] e) (\<lambda>(scene, e).
     bind_res (add_job Anim [scene] e) (\<lambda>(anim, e).
     bind_res (add_job Ai [frame_start] e) (\<lambda>(ai, e).
     bind_res (add_job Ctrl [frame_start] e) (\<lambda>(ctrl, e).
     bind_res (add_job Game [scene, anim, ai, ctrl] e) (\<lambda>(gameplay, e).
     bind_res (add_job Audio [gameplay] e) (\<lambda>(audio, e).
     bind_res (add_job Gui [frame_start] e) (\<lambda>(gui, e).
     bind_res (add_job Render_start [scene, anim, gui, gameplay] e) (\<lambda>(render_start, e).
     bind_res (add_job (Render 1) [render_start] e) (\<lambda>(render1, e).
     bind_res (add_job (Render 2) [render_start] e) (\<lambda>(render2, e).
     bind_res (add_job (Render 3) [render_start] e) (\<lambda>(render3, e).
     bind_res (add_job (Render 4) [render_start] e) (\<lambda>(render4, e).
     bind_res (add_job Render_end [render1, render2, render3, render4] e) (\<lambda>(render_end, e).
     bind_res (add_job Frame_end [frame_start, scene, anim, ai, ctrl, gameplay, audio, gui, render_start, render_end] e)
       (\<lambda>(frame_end, e). Inr e))))))))))))))"

definition new_frame :: "64 word \<Rightarrow> bool \<Rightarrow> demo \<Rightarrow> job executor \<Rightarrow> (demo \<times> job executor) res" where
  "new_frame now elapsed d e =
     bind_res (add_job Frame_start [] e) (\<lambda>(frame_start, e).
     let (d, ending) = count_frame now elapsed d in
     bind_res (add_frame frame_start (if ending then close e else e)) (\<lambda>e. Inr (d, e)))"

subsection \<open>The counters\<close>

lemma frames_counted:
  "count_frame now elapsed d = (d', ending) \<Longrightarrow>
    total_frames d' + frame_counter d' = total_frames d + frame_counter d + 1 \<and> silly_counter d' = silly_counter d"
  by (auto simp: count_frame_def Let_def split: if_splits)

text \<open>After 34 rounds of the loop nothing is left of the counter: 34 factorial is a multiple of \<open>2 ^ 32\<close>.\<close>

lemma churn_fold: "fold (\<lambda>i c. c + of_nat i * c) [0..<n] c = of_nat (fact n) * (c :: 32 word)"
proof (induction n)
  case (Suc n)
  then show ?case by (simp add: algebra_simps)
qed simp

lemma churn_zero: "churn c = 0"
proof -
  have "fact 34 = (2 ^ 32 :: nat) * (fact 34 div 2 ^ 32)" by (simp add: fact_numeral)
  moreover have "fact 34 dvd (fact 1000 :: nat)" by (rule fact_dvd) simp
  ultimately have "(2 ^ 32 :: nat) dvd fact 1000" by (metis dvd_triv_left dvd_trans)
  then have "of_nat (fact 1000) = (0 :: 32 word)" by (simp only: word_of_nat_eq_0_iff) simp
  then show ?thesis unfolding churn_def churn_fold by simp
qed

lemma run_job_counter:
  "silly_counter (run_job j d) = (if j \<in> {Frame_start, Render_start, Render_end, Frame_end} then silly_counter d + 1 else 0)"
  by (simp add: run_job_def churn_zero)

subsection \<open>A frame as a plan\<close>

text \<open>The tasks with the positions of those they depend on.\<close>

definition plan :: "(job \<times> nat list) list" where
  "plan = [(Frame_start, []), (Scene, [0]), (Anim, [1]), (Ai, [0]), (Ctrl, [0]), (Game, [1, 2, 3, 4]), (Audio, [5]), (Gui, [0]),
     (Render_start, [1, 2, 7, 5]), (Render 1, [8]), (Render 2, [8]), (Render 3, [8]), (Render 4, [8]),
     (Render_end, [9, 10, 11, 12]), (Frame_end, [0, 1, 2, 3, 4, 5, 6, 7, 8, 13])]"

fun add_jobs :: "(job \<times> nat list) list \<Rightarrow> task_id list \<Rightarrow> job executor \<Rightarrow> (task_id list \<times> job executor) res" where
  "add_jobs [] ids e = Inr (ids, e)"
| "add_jobs ((j, ks) # js) ids e =
     bind_res (add_job j (map (\<lambda>k. ids ! k) ks) e) (\<lambda>(t, e). add_jobs js (ids @ [t]) e)"

lemma add_frame_plan: "add_frame t e = bind_res (add_jobs (tl plan) [t] e) (\<lambda>(ids, e). Inr e)"
  by (simp add: add_frame_def plan_def bind_res_assoc case_prod_unfold)

lemma new_frame_plan:
  assumes "\<not> snd (count_frame now elapsed d)"
  shows "new_frame now elapsed d e = bind_res (add_jobs plan [] e) (\<lambda>(ids, e). Inr (fst (count_frame now elapsed d), e))"
proof -
  have plan: "plan = (Frame_start, []) # tl plan" by (simp add: plan_def)
  have "add_jobs plan [] e = bind_res (add_job Frame_start [] e) (\<lambda>(t, e). add_jobs (tl plan) [t] e)"
    by (subst plan) simp
  then show ?thesis using assms by (simp add: new_frame_def add_frame_plan case_prod_unfold bind_res_assoc Let_def)
qed

text \<open>The frame that closes the executor adds its first task only.\<close>

lemma add_frame_closed: "closed e \<Longrightarrow> add_frame t e = Inr e"
  by (simp add: add_frame_def add_job_def add_task_def)

lemma new_frame_last:
  assumes "snd (count_frame now elapsed d)" "add_job Frame_start [] e = Inr (t, e')"
  shows "new_frame now elapsed d e = Inr (fst (count_frame now elapsed d), close e')"
  using assms add_frame_closed [of "close e'" t] by (simp add: new_frame_def case_prod_unfold Let_def close_ok)

subsection \<open>Adding the tasks\<close>

lemma add_job_ok:
  assumes inv: "exec_inv e run qs own rank" and opn: "\<not> closed e" and us: "set us \<subseteq> dom (tmap e)"
    and room: "card (dom (tmap e)) < 2 ^ task_bits - 1" "card (dom (dmap e)) + length us \<le> 2 ^ dependent_bits - 1"
  obtains n e' qs' own' rank' where "add_job j us e = Inr (n, e')" "exec_inv e' run qs' own' rank'" "\<not> closed e'"
    "n \<notin> dom (tmap e)" "dom (tmap e') = insert n (dom (tmap e))"
    "edges (dmap e') own' = edges (dmap e) own \<union> {(Waiting u, n) | u. u \<in> set us}"
    "card (dom (dmap e')) \<le> card (dom (dmap e)) + length us"
    "\<And>t. map_option affinity (tmap e' t) = (if t = n then Some NO_AFFINITY else map_option affinity (tmap e t))"
    "\<And>t. map_option closure (tmap e' t) = (if t = n then Some (Some j) else map_option closure (tmap e t))"
proof -
  have q: "valid_queue (queue_of NO_AFFINITY)" by (simp add: queue_of_def valid_queue_def)
  obtain n where n: "tmap e n = None" and ex: "n \<notin> set us \<longrightarrow>
    (\<exists>e' qs' own' rank'. add_task (Some j) us NO_AFFINITY e = Inr (n, e') \<and> exec_inv e' run qs' own' rank' \<and>
      edges (dmap e') own' = edges (dmap e) own \<union> {(Waiting u, n) | u. u \<in> set us \<inter> dom (tmap e)} \<and>
      dom (tmap e') = insert n (dom (tmap e)) \<and> closed e' = closed e \<and>
      card (dom (dmap e')) \<le> card (dom (dmap e)) + length us \<and>
      (\<forall>t. map_option affinity (tmap e' t) = (if t = n then Some NO_AFFINITY else map_option affinity (tmap e t))) \<and>
      (\<forall>t. map_option closure (tmap e' t) = (if t = n then Some (Some j) else map_option closure (tmap e t))))"
    using add_task_ok [OF inv opn q room, of "Some j"] by (elim exE conjE) (rule that)
  have "n \<notin> set us" using us n by auto
  then obtain e' qs' own' rank' where e': "add_task (Some j) us NO_AFFINITY e = Inr (n, e')" "exec_inv e' run qs' own' rank'"
    "edges (dmap e') own' = edges (dmap e) own \<union> {(Waiting u, n) | u. u \<in> set us \<inter> dom (tmap e)}"
    "dom (tmap e') = insert n (dom (tmap e))" "closed e' = closed e"
    "card (dom (dmap e')) \<le> card (dom (dmap e)) + length us"
    "\<forall>t. map_option affinity (tmap e' t) = (if t = n then Some NO_AFFINITY else map_option affinity (tmap e t))"
    "\<forall>t. map_option closure (tmap e' t) = (if t = n then Some (Some j) else map_option closure (tmap e t))"
    using ex by (elim impE exE conjE) (assumption, rule that)
  have "set us \<inter> dom (tmap e) = set us" using us by blast
  then show ?thesis
    by (intro that [OF e'(1) [folded add_job_def] e'(2)]) (use e' n opn in auto)
qed

text \<open>Dependencies refer to tasks that were added before.\<close>

fun plan_ok :: "nat \<Rightarrow> (job \<times> nat list) list \<Rightarrow> bool" where
  "plan_ok n [] \<longleftrightarrow> True"
| "plan_ok n ((j, ks) # js) \<longleftrightarrow> (\<forall>k \<in> set ks. k < n) \<and> plan_ok (Suc n) js"

definition plan_deps :: "(job \<times> nat list) list \<Rightarrow> nat" where
  "plan_deps js = sum_list (map (length \<circ> snd) js)"

text \<open>What adding the tasks of a plan to an executor makes of it.\<close>

definition planned :: "(job \<times> nat list) list \<Rightarrow> task_id list \<Rightarrow> task_id list \<Rightarrow> job executor \<Rightarrow> job executor \<Rightarrow>
    (owner \<times> task_id) set \<Rightarrow> (owner \<times> task_id) set \<Rightarrow> bool" where
  "planned js ids new e e' E E' \<longleftrightarrow> length new = length js \<and> distinct new \<and> set new \<inter> dom (tmap e) = {} \<and>
     dom (tmap e') = dom (tmap e) \<union> set new \<and> E \<subseteq> E' \<and>
     (\<forall>i < length js. \<forall>k \<in> set (snd (js ! i)). (Waiting ((ids @ new) ! k), new ! i) \<in> E') \<and>
     (\<forall>t. map_option affinity (tmap e' t) = (if t \<in> set new then Some NO_AFFINITY else map_option affinity (tmap e t))) \<and>
     (\<forall>t. t \<notin> set new \<longrightarrow> map_option closure (tmap e' t) = map_option closure (tmap e t)) \<and>
     (\<forall>i < length js. map_option closure (tmap e' (new ! i)) = Some (Some (fst (js ! i))))"

lemma planned_Cons:
  assumes ks: "\<forall>k \<in> set ks. k < length ids"
    and n: "n \<notin> dom (tmap e)" "dom (tmap e1) = insert n (dom (tmap e))" "E1 = E \<union> {(Waiting u, n) | u. u \<in> set (map (\<lambda>k. ids ! k) ks)}"
      "\<And>t. map_option affinity (tmap e1 t) = (if t = n then Some NO_AFFINITY else map_option affinity (tmap e t))"
      "\<And>t. map_option closure (tmap e1 t) = (if t = n then Some (Some j) else map_option closure (tmap e t))"
    and rest: "planned js (ids @ [n]) new e1 e2 E1 E2"
  shows "planned ((j, ks) # js) ids (n # new) e e2 E E2"
proof -
  have nn: "n \<notin> set new" using rest n(2) by (auto simp: planned_def)
  have dep: "(Waiting ((ids @ n # new) ! k), (n # new) ! i) \<in> E2" if "i < Suc (length js)" "k \<in> set (snd (((j, ks) # js) ! i))" for i k
  proof (cases i)
    case 0
    then have "k < length ids" "k \<in> set ks" using that(2) ks by simp_all
    then have "(Waiting ((ids @ n # new) ! k), n) \<in> E1" using n(3) by (auto simp: nth_append)
    then show ?thesis using rest 0 by (auto simp: planned_def)
  next
    case (Suc l)
    then show ?thesis using that rest by (simp add: planned_def)
  qed
  have clo: "map_option closure (tmap e2 ((n # new) ! i)) = Some (Some (fst (((j, ks) # js) ! i)))" if "i < Suc (length js)" for i
  proof (cases i)
    case 0
    then show ?thesis using rest nn n(5) [of n] by (simp add: planned_def)
  next
    case (Suc l)
    then show ?thesis using that rest by (simp add: planned_def)
  qed
  have aff: "map_option affinity (tmap e2 t) = (if t \<in> set (n # new) then Some NO_AFFINITY else map_option affinity (tmap e t))"
    and old: "t \<notin> set (n # new) \<Longrightarrow> map_option closure (tmap e2 t) = map_option closure (tmap e t)" for t
    using rest n(4,5) [of t] by (cases "t = n"; simp add: planned_def del: map_option_eq_Some)+
  have "length (n # new) = length ((j, ks) # js)" "distinct (n # new)" "set (n # new) \<inter> dom (tmap e) = {}"
    "dom (tmap e2) = dom (tmap e) \<union> set (n # new)" "E \<subseteq> E2"
    using rest nn n(1-3) by (auto simp: planned_def)
  then show ?thesis using dep clo aff old unfolding planned_def by simp
qed

lemma add_jobs_ok:
  assumes "exec_inv e run qs own rank" "\<not> closed e" "plan_ok (length ids) js" "set ids \<subseteq> dom (tmap e)"
    "card (dom (tmap e)) + length js \<le> 2 ^ task_bits - 1" "card (dom (dmap e)) + plan_deps js \<le> 2 ^ dependent_bits - 1"
  shows "\<exists>new e' qs' own' rank'. add_jobs js ids e = Inr (ids @ new, e') \<and> exec_inv e' run qs' own' rank' \<and> \<not> closed e' \<and>
    planned js ids new e e' (edges (dmap e) own) (edges (dmap e') own')"
  using assms
proof (induction js arbitrary: ids e qs own rank)
  case Nil
  then show ?case
    by (intro exI [of _ "[]"] exI [of _ e] exI [of _ qs] exI [of _ own] exI [of _ rank]) (simp add: planned_def)
next
  case (Cons jk js)
  obtain j ks where jk: "jk = (j, ks)" by (cases jk)
  let ?us = "map (\<lambda>k. ids ! k) ks"
  have fin: "finite (dom (tmap e))" using exec_invD(9) [OF Cons.prems(1)] .
  have us: "set ?us \<subseteq> dom (tmap e)" using Cons.prems(3,4) jk nth_mem [of _ ids] by (auto simp del: nth_mem)
  have room: "card (dom (tmap e)) < 2 ^ task_bits - 1" "card (dom (dmap e)) + length ?us \<le> 2 ^ dependent_bits - 1"
    using Cons.prems(5,6) jk by (simp_all add: plan_deps_def)
  obtain n e1 qs1 own1 rank1 where n: "add_job j ?us e = Inr (n, e1)" "exec_inv e1 run qs1 own1 rank1" "\<not> closed e1"
    "n \<notin> dom (tmap e)" "dom (tmap e1) = insert n (dom (tmap e))"
    "edges (dmap e1) own1 = edges (dmap e) own \<union> {(Waiting u, n) | u. u \<in> set ?us}"
    "card (dom (dmap e1)) \<le> card (dom (dmap e)) + length ?us"
    "\<And>t. map_option affinity (tmap e1 t) = (if t = n then Some NO_AFFINITY else map_option affinity (tmap e t))"
    "\<And>t. map_option closure (tmap e1 t) = (if t = n then Some (Some j) else map_option closure (tmap e t))"
    by (rule add_job_ok [OF Cons.prems(1,2) us room]) (rule that)
  have "card (dom (tmap e1)) = Suc (card (dom (tmap e)))" using n(4,5) fin by simp
  then have "\<exists>new e' qs' own' rank'. add_jobs js (ids @ [n]) e1 = Inr ((ids @ [n]) @ new, e') \<and> exec_inv e' run qs' own' rank' \<and>
      \<not> closed e' \<and> planned js (ids @ [n]) new e1 e' (edges (dmap e1) own1) (edges (dmap e') own')"
    using Cons.prems n(5,7) jk by (intro Cons.IH [OF n(2,3)]) (auto simp: plan_deps_def)
  then obtain new e' qs' own' rank' where new: "add_jobs js (ids @ [n]) e1 = Inr ((ids @ [n]) @ new, e')"
    "exec_inv e' run qs' own' rank'" "\<not> closed e'" "planned js (ids @ [n]) new e1 e' (edges (dmap e1) own1) (edges (dmap e') own')"
    by (elim exE conjE) (rule that)
  have "\<forall>k \<in> set ks. k < length ids" using Cons.prems(3) jk by simp
  then have "planned (jk # js) ids (n # new) e e' (edges (dmap e) own) (edges (dmap e') own')"
    unfolding jk by (rule planned_Cons [OF _ n(4,5,6,8,9) new(4)])
  moreover have "add_jobs (jk # js) ids e = Inr (ids @ n # new, e')" using n(1) new(1) jk by simp
  ultimately show ?case using new(2,3) by blast
qed

subsection \<open>A frame, run by one worker\<close>

lemma before_iff: "distinct ts \<Longrightarrow> before u n ts \<longleftrightarrow> (\<exists>i j. i < j \<and> j < length ts \<and> ts ! i = u \<and> ts ! j = n)"
proof
  assume "before u n ts"
  then obtain xs ys zs where ts: "ts = xs @ u # ys @ n # zs" by (auto simp: before_def)
  then show "\<exists>i j. i < j \<and> j < length ts \<and> ts ! i = u \<and> ts ! j = n"
    by (intro exI [of _ "length xs"] exI [of _ "Suc (length xs + length ys)"]) (simp add: nth_append)
next
  assume "\<exists>i j. i < j \<and> j < length ts \<and> ts ! i = u \<and> ts ! j = n"
  then obtain i j where ij: "i < j" "j < length ts" "ts ! i = u" "ts ! j = n" by blast
  have "ts = take i ts @ ts ! i # drop (Suc i) ts" using ij by (intro id_take_nth_drop) simp
  moreover have "drop (Suc i) ts = take (j - Suc i) (drop (Suc i) ts) @ drop (Suc i) ts ! (j - Suc i) # drop (Suc (j - Suc i)) (drop (Suc i) ts)"
    using ij by (intro id_take_nth_drop) simp
  moreover have "drop (Suc i) ts ! (j - Suc i) = n" using ij by simp
  ultimately show "before u n ts" unfolding before_def using ij(3) by metis
qed

lemma before_trans: "distinct ts \<Longrightarrow> before a b ts \<Longrightarrow> before b c ts \<Longrightarrow> before a c ts"
  unfolding before_iff by (metis less_trans nth_eq_iff_index_eq)

lemma planned_closure:
  assumes "planned js [] ids e e' E E'" "sv_inv task_bits (tasks e')" "i < length js"
  shows "\<exists>x. sv_get task_bits (tasks e') (ids ! i) = Inr x \<and> closure x = Some (fst (js ! i))"
  using assms sv.get_iff [OF assms(2)] by (auto simp: planned_def)

text \<open>A pool in which nothing is stored and nothing runs.\<close>

lemma idle_empty:
  assumes run: "pool_run h p" and idle: "\<And>w a t x. workers p w \<noteq> Busy a t x"
    and empty: "\<And>t. \<not> sv_is_valid_id task_bits (tasks (exec p)) t"
  obtains qs own rank where "exec_inv (exec p) (\<lambda>_. None) qs own rank" "tmap (exec p) = Map.empty" "dmap (exec p) = Map.empty"
proof -
  obtain g where "represents p g" using pool_run_sim [OF run] by blast
  then obtain qs own rank where "exec_inv (exec p) (running p) qs own rank" by (auto simp: represents_def)
  moreover have "running p = (\<lambda>_. None)" using running_not_busy [OF idle] by blast
  ultimately have inv: "exec_inv (exec p) (\<lambda>_. None) qs own rank" by simp
  note I = exec_invD [OF inv]
  have none: "tmap (exec p) = Map.empty" using empty sv.valid_iff [OF I(3)] by (auto simp: fun_eq_iff)
  moreover have "owns (tmap (exec p)) (\<lambda>_. None) w = None" for w using none by (cases w) auto
  then have "own w = []" for w using lists_okD(1) [OF I(5)] by blast
  then have "dom (dmap (exec p)) = {}" using lists_okD(5) [OF I(5)] by simp
  then have "dmap (exec p) = Map.empty" by simp
  ultimately show ?thesis by (intro that [OF inv])
qed

lemma plan_simps: "length plan = 15" "plan_ok 0 plan" "plan_deps plan = 32"
  by (simp_all add: plan_def plan_deps_def)

text \<open>The order in which a plan has to run.\<close>

definition in_order :: "(job \<times> nat list) list \<Rightarrow> task_id list \<Rightarrow> task_id list \<Rightarrow> bool" where
  "in_order js ids ts \<longleftrightarrow> (\<forall>i < length js. \<forall>k \<in> set (snd (js ! i)). before (ids ! k) (ids ! i) ts)"

lemma plan_first_last:
  assumes "in_order plan ids ts" "distinct ts"
  shows "0 < k \<Longrightarrow> k < 15 \<Longrightarrow> before (ids ! 0) (ids ! k) ts" "k < 14 \<Longrightarrow> before (ids ! k) (ids ! 14) ts"
proof -
  have edge: "before (ids ! k) (ids ! i) ts" if "i < 15" "k \<in> set (snd (plan ! i))" for i k
    using assms(1) that by (simp add: in_order_def plan_simps)
  note trans = before_trans [OF assms(2)]
  have e: "before (ids ! 0) (ids ! 1) ts" "before (ids ! 1) (ids ! 2) ts" "before (ids ! 0) (ids ! 3) ts" "before (ids ! 0) (ids ! 4) ts"
    "before (ids ! 4) (ids ! 5) ts" "before (ids ! 5) (ids ! 6) ts" "before (ids ! 0) (ids ! 7) ts" "before (ids ! 7) (ids ! 8) ts"
    "before (ids ! 8) (ids ! 9) ts" "before (ids ! 8) (ids ! 10) ts" "before (ids ! 8) (ids ! 11) ts" "before (ids ! 8) (ids ! 12) ts"
    "before (ids ! 9) (ids ! 13) ts" "before (ids ! 10) (ids ! 13) ts" "before (ids ! 11) (ids ! 13) ts" "before (ids ! 12) (ids ! 13) ts"
    by (rule edge; simp add: plan_def)+
  have l: "before (ids ! k) (ids ! 14) ts" if "k \<in> {0, 1, 2, 3, 4, 5, 6, 7, 8, 13}" for k
    by (rule edge) (use that in \<open>auto simp: plan_def\<close>)
  have r: "k = 1 \<or> k = 2 \<or> k = 3 \<or> k = 4 \<or> k = 5 \<or> k = 6 \<or> k = 7 \<or> k = 8 \<or> k = 9 \<or> k = 10 \<or> k = 11 \<or> k = 12 \<or> k = 13 \<or> k = 14"
    if "0 < k" "k < 15" for k :: nat using that by arith
  have f8: "before (ids ! 0) (ids ! 8) ts" using e(7,8) by (rule trans)
  then have f9: "before (ids ! 0) (ids ! 9) ts" using e(9) by (rule trans)
  note first = e f8 f9 l [of 0] trans [OF e(1,2)] trans [OF e(4,5)] trans [OF trans [OF e(4,5)] e(6)] trans [OF f8 e(10)]
    trans [OF f8 e(11)] trans [OF f8 e(12)] trans [OF f9 e(13)]
  show "before (ids ! 0) (ids ! k) ts" if "0 < k" "k < 15"
    using r [OF that] by (elim disjE) (use first in simp_all)
  have s: "k \<in> {0, 1, 2, 3, 4, 5, 6, 7, 8, 13} \<or> k = 9 \<or> k = 10 \<or> k = 11 \<or> k = 12" if "k < 14" for k :: nat
    unfolding insert_iff empty_iff using that by arith
  have l13: "before (ids ! 13) (ids ! 14) ts" by (rule l) simp
  show "before (ids ! k) (ids ! 14) ts" if "k < 14"
    using s [OF that] l trans [OF e(13) l13] trans [OF e(14) l13] trans [OF e(15) l13] trans [OF e(16) l13] by (elim disjE) blast+
qed

subsection \<open>The program as it stands\<close>

text \<open>In \<open>main\<close> the call of \<open>new_frame\<close> is commented out: three threads and the main thread run
  \<open>run_tasks_no_affinity\<close> on an executor to which nobody adds a task.\<close>

inductive demo_main_step :: "job pool \<Rightarrow> job pool \<Rightarrow> bool" where
  call: "w < 4 \<Longrightarrow> client_ok (Call_run w NO_AFFINITY) p \<Longrightarrow> perform (Call_run w NO_AFFINITY) p = Some (Inr (ev, p')) \<Longrightarrow>
    demo_main_step p p'"
| proceed: "w < 4 \<Longrightarrow> perform (Proceed w) p = Some (Inr (ev, p')) \<Longrightarrow> demo_main_step p p'"

inductive demo_main :: "job pool \<Rightarrow> bool" where
  start: "new_pool = Inr p \<Longrightarrow> demo_main p"
| step: "demo_main p \<Longrightarrow> demo_main_step p p' \<Longrightarrow> demo_main p'"

fun waits_for_work :: "job worker \<Rightarrow> bool" where
  "waits_for_work (Busy a t x) \<longleftrightarrow> False"
| "waits_for_work (Entering a) \<longleftrightarrow> a = NO_AFFINITY"
| "waits_for_work (Looking a) \<longleftrightarrow> a = NO_AFFINITY"
| "waits_for_work (Sleeping a) \<longleftrightarrow> a = NO_AFFINITY"
| "waits_for_work Outside \<longleftrightarrow> True"

definition waiting_pool :: "job pool \<Rightarrow> bool" where
  "waiting_pool p \<longleftrightarrow> \<not> closed (exec p) \<and> global_task_queue (exec p) = empty_list \<and>
     (\<forall>w. waits_for_work (workers p w))"

lemma waiting_set_worker:
  "waiting_pool p \<Longrightarrow> waits_for_work s \<Longrightarrow> exec p' = exec p \<Longrightarrow> workers p' = (workers p)(v := s) \<Longrightarrow> waiting_pool p'"
  by (simp add: waiting_pool_def)

lemma demo_main_step_waiting:
  assumes ok: "waiting_pool p" and step: "demo_main_step p p'"
  shows "waiting_pool p'" "inside (workers p w) \<Longrightarrow> inside (workers p' w)"
proof -
  have none: "next_queue NO_AFFINITY (exec p) = Inr None"
    using ok by (simp add: next_queue_def empty_task_list_def waiting_pool_def)
  from step obtain v s where s: "exec p' = exec p" "workers p' = (workers p)(v := s)" "waits_for_work s"
    "inside (workers p v) \<longrightarrow> inside s"
  proof cases
    case (call v ev)
    then have "p' = set_worker v (Entering NO_AFFINITY) p" "workers p v = Outside"
      using ok by (auto simp: call_run_def waiting_pool_def)
    then show ?thesis using that [of v "Entering NO_AFFINITY"] by simp
  next
    case (proceed v ev)
    have "waits_for_work (workers p v)" using ok by (simp add: waiting_pool_def)
    then consider "workers p v = Outside" | "workers p v = Entering NO_AFFINITY"
      | "workers p v = Looking NO_AFFINITY \<or> workers p v = Sleeping NO_AFFINITY" by (cases "workers p v") auto
    then show ?thesis
    proof cases
      case 1
      then show ?thesis using proceed that [of v Outside] by (simp add: fun_upd_idem)
    next
      case 2
      then have "exec p' = exec p" "workers p' = (workers p)(v := Looking NO_AFFINITY)"
        using proceed by (auto simp: enter_def res_Inr_iff Let_def set_worker_def)
      then show ?thesis using that 2 by simp
    next
      case 3
      then have "p' = set_worker v (Sleeping NO_AFFINITY) p"
        using proceed ok none by (auto simp: wake_def look_def waiting_pool_def)
      then show ?thesis using that [of v "Sleeping NO_AFFINITY"] by simp
    qed
  qed
  show "waiting_pool p'" by (rule waiting_set_worker [OF ok s(3,1,2)])
  show "inside (workers p w) \<Longrightarrow> inside (workers p' w)" using s(2,4) by (cases "w = v") simp_all
qed

lemma demo_main_waiting: "demo_main p \<Longrightarrow> waiting_pool p"
proof (induction rule: demo_main.induct)
  case (start p)
  obtain e :: "job executor" where e: "new_executor = Inr e" "\<not> closed e" by (rule new_executor_ok)
  then have "global_task_queue e = empty_list" by (auto simp: new_executor_def res_Inr_iff)
  moreover have "exec p = e" "workers p = (\<lambda>_. Outside)" using start unfolding new_pool_def e(1) by auto
  ultimately show ?case using e(2) by (simp add: waiting_pool_def)
next
  case (step p p')
  then show ?case using demo_main_step_waiting(1) by blast
qed

text \<open>No worker that has entered its loop ever leaves it, so \<open>main\<close> does not return.\<close>

lemma demo_main_never_returns:
  "demo_main p \<Longrightarrow> demo_main_step p p' \<Longrightarrow> inside (workers p w) \<Longrightarrow> inside (workers p' w)"
  using demo_main_step_waiting(2) [OF demo_main_waiting] .

subsection \<open>Properties\<close>



end
