(* ===== verification/Work_Stealing_Queue.thy ===== *)
theory Work_Stealing_Queue
  imports Id_Layout
begin

text \<open>
  The work-stealing queue of \<open>proto/work_stealing_queue.hpp\<close> with its default 32-bit
  \<open>Size\<close>: a ring of \<open>2 ^ k\<close> slots that one owner pushes to and pulls from at the tail, and
  that any number of thieves pull from at the head, one at a time under \<open>foreign_sync_\<close>.
  First each member function as one step, then the loads and stores of each as separate
  steps of sequentially consistent threads (the \<open>std::atomic\<close> operations use the default
  memory order).
\<close>

subsection \<open>The interface\<close>

text \<open>
  What the owner and the thieves of a queue rely on. A thief raises the head of the queue, then looks
  for an element under it, and lowers it again if there is none; the flag says whether one is in
  between. \<open>elts\<close> is the abstraction to a list with the owner's end last; \<open>used\<close> counts the positions in use from the
  start, and the laws hold while there are positions left (\<open>fits\<close>). The owner's \<open>pull\<close> may
  miss one element while the head is raised. The scheduler is the client.
\<close>

locale work_deque =
  fixes inv :: "bool \<Rightarrow> 'q \<Rightarrow> bool" and elts :: "bool \<Rightarrow> 'q \<Rightarrow> 'a list" and used :: "'q \<Rightarrow> nat" and fits :: "nat \<Rightarrow> bool"
    and push :: "'a \<Rightarrow> 'q \<Rightarrow> (bool \<times> 'q) res"
    and pull :: "'q \<Rightarrow> ('a option \<times> 'q) res"
    and raise :: "'q \<Rightarrow> 'q"
    and probe :: "'q \<Rightarrow> 'a option res"
    and undo :: "'q \<Rightarrow> 'q"
  assumes push_law: "inv r q \<Longrightarrow> fits (used q) \<Longrightarrow> push x q = Inr (False, q) \<or>
      (\<exists>q'. push x q = Inr (True, q') \<and> inv r q' \<and> elts r q' = elts r q @ [x] \<and> used q' = used q + 1)"
    and pull_law: "inv r q \<Longrightarrow> pull q = Inr (None, q) \<and> length (elts r q) \<le> of_bool r \<or>
      (\<exists>x q'. pull q = Inr (Some x, q') \<and> inv r q' \<and> elts r q = elts r q' @ [x] \<and> used q' = used q - 1)"
    and raise_law: "inv False q \<Longrightarrow> fits (used q) \<Longrightarrow>
      inv True (raise q) \<and> elts True (raise q) = elts False q \<and> used (raise q) = used q"
    and probe_law: "inv True q \<Longrightarrow> fits (used q) \<Longrightarrow> probe q = Inr None \<and> elts True q = [] \<or>
      (\<exists>x. probe q = Inr (Some x) \<and> inv False q \<and> elts True q = x # elts False q)"
    and undo_law: "inv True q \<Longrightarrow> inv False (undo q) \<and> elts False (undo q) = elts True q \<and> used (undo q) = used q"
begin

lemma pushE:
  assumes "inv r q" "fits (used q)"
  obtains (refused) "push x q = Inr (False, q)"
  | (pushed) q' where "push x q = Inr (True, q')" "inv r q'" "elts r q' = elts r q @ [x]" "used q' = used q + 1"
  using push_law [OF assms, of x] by blast

lemma pullE:
  assumes "inv r q"
  obtains (none) "pull q = Inr (None, q)" "length (elts r q) \<le> of_bool r"
  | (some) x q' where "pull q = Inr (Some x, q')" "inv r q'" "elts r q = elts r q' @ [x]" "used q' = used q - 1"
  using pull_law [OF assms] by blast

lemma probeE:
  assumes "inv True q" "fits (used q)"
  obtains (none) "probe q = Inr None" "elts True q = []"
  | (some) x where "probe q = Inr (Some x)" "inv False q" "elts True q = x # elts False q"
  using probe_law [OF assms] by blast

text \<open>An undisturbed steal.\<close>

lemma steal_exact:
  assumes "inv False q" "fits (used q)"
  obtains (none) "probe (raise q) = Inr None" "elts False q = []" "inv False (undo (raise q))" "elts False (undo (raise q)) = []"
  | (some) x where "probe (raise q) = Inr (Some x)" "inv False (raise q)" "elts False q = x # elts False (raise q)"
proof -
  have r: "inv True (raise q)" "elts True (raise q) = elts False q" "used (raise q) = used q"
    using raise_law [OF assms] by blast+
  have "fits (used (raise q))" using assms(2) r(3) by simp
  then show ?thesis using none some r undo_law [OF r(1)] by (cases rule: probeE [OF r(1)]) simp_all
qed

text \<open>A pull that finds nothing when no thief is at work means that there is nothing.\<close>

lemma pull_exact: "inv False q \<Longrightarrow> pull q = Inr (None, q') \<Longrightarrow> elts False q = []"
  using pull_law [of False q] by auto

text \<open>Emptying: the owner pulls until it finds nothing. At most one element is left, and what it got is
  the rest, last in first out.\<close>

fun pulls :: "nat \<Rightarrow> 'q \<Rightarrow> ('a list \<times> 'q) res" where
  "pulls 0 q = Inr ([], q)"
| "pulls (Suc n) q = bind_res (pull q) (\<lambda>(y, q'). case y of None \<Rightarrow> Inr ([], q')
     | Some x \<Rightarrow> bind_res (pulls n q') (\<lambda>(xs, q''). Inr (x # xs, q'')))"

lemma pulls_ok:
  assumes "inv r q" "length (elts r q) < n"
  shows "\<exists>xs q'. pulls n q = Inr (xs, q') \<and> inv r q' \<and> elts r q = elts r q' @ rev xs \<and> length (elts r q') \<le> of_bool r"
  using assms
proof (induction n arbitrary: q)
  case 0
  then show ?case by simp
next
  case (Suc n)
  show ?case
  proof (cases rule: pullE [OF Suc.prems(1), case_names none some])
    case none
    then show ?thesis using Suc.prems(1) by simp
  next
    case (some x q')
    then have "length (elts r q') < n" using Suc.prems(2) by simp
    then obtain xs q'' where "pulls n q' = Inr (xs, q'')" "inv r q''" "elts r q' = elts r q'' @ rev xs"
      "length (elts r q'') \<le> of_bool r" using Suc.IH [OF some(2)] by blast
    then show ?thesis using some by (intro exI [of _ "x # xs"] exI [of _ q'']) simp
  qed
qed

end

subsection \<open>The queue\<close>

record 'a wsq =
  elements :: "'a list"
  head :: "32 word"
  tail :: "32 word"

definition capacity :: "nat \<Rightarrow> nat" where
  "capacity k = 2 ^ k"

definition ring_mask :: "nat \<Rightarrow> 32 word" where
  "ring_mask k = of_nat (capacity k) - 1"

definition slot :: "nat \<Rightarrow> 32 word \<Rightarrow> nat" where
  "slot k i = unat (i AND ring_mask k)"

text \<open>The storage of a new queue is uninitialised: \<open>es\<close> is whatever it holds.\<close>

definition new_queue :: "'a list \<Rightarrow> 'a wsq" where
  "new_queue es = \<lparr>elements = es, head = 0, tail = 0\<rparr>"

definition empty_queue :: "'a wsq \<Rightarrow> bool" where
  "empty_queue q \<longleftrightarrow> head q \<ge> tail q"

definition size_queue :: "'a wsq \<Rightarrow> 32 word" where
  "size_queue q = tail q - head q"

definition unique_push :: "nat \<Rightarrow> 'a \<Rightarrow> 'a wsq \<Rightarrow> (bool \<times> 'a wsq) res" where
  "unique_push k x q =
     (if tail q < head q + ring_mask k
      then fetch (elements q) (slot k (tail q)) (\<lambda>_.
        Inr (True, q\<lparr>elements := (elements q)[slot k (tail q) := x], tail := tail q + 1\<rparr>))
      else Inr (False, q))"

definition unique_pull :: "nat \<Rightarrow> 'a wsq \<Rightarrow> ('a option \<times> 'a wsq) res" where
  "unique_pull k q =
     (if head q \<ge> tail q then Inr (None, q)
      else let t = tail q - 1; q = q\<lparr>tail := t\<rparr> in
        if head q \<le> t then fetch (elements q) (slot k t) (\<lambda>x. Inr (Some x, q))
        else Inr (None, q\<lparr>tail := t + 1\<rparr>))"

text \<open>\<open>acquired\<close>: whether the timed lock was taken before its timeout.\<close>

definition shared_pull :: "nat \<Rightarrow> bool \<Rightarrow> 'a wsq \<Rightarrow> ('a option \<times> 'a wsq) res" where
  "shared_pull k acquired q =
     (if \<not> acquired then Inr (None, q)
      else let h = head q; q = q\<lparr>head := h + 1\<rparr> in
        if h < tail q then fetch (elements q) (slot k h) (\<lambda>x. Inr (Some x, q))
        else Inr (None, q\<lparr>head := h\<rparr>))"

subsection \<open>The deque a queue stands for\<close>

definition cell :: "nat \<Rightarrow> 'a list \<Rightarrow> nat \<Rightarrow> 'a" where
  "cell k es i = es ! (i mod capacity k)"

definition contents :: "nat \<Rightarrow> 'a wsq \<Rightarrow> 'a list" where
  "contents k q = map (cell k (elements q)) [unat (head q)..<unat (tail q)]"

definition wsq_ok :: "nat \<Rightarrow> 'a wsq \<Rightarrow> bool" where
  "wsq_ok k q \<longleftrightarrow> k < 32 \<and> length (elements q) = capacity k \<and>
     unat (head q) \<le> unat (tail q) \<and> unat (tail q) < unat (head q) + capacity k"

lemma capacity_pos [simp]: "0 < capacity k"
  by (simp add: capacity_def)

lemma ring_mask_eq: "ring_mask k = mask k"
  by (simp add: ring_mask_def capacity_def mask_eq_exp_minus_1)

lemma unat_ring_mask: "k < 32 \<Longrightarrow> unat (ring_mask k) = capacity k - 1"
  by (simp add: ring_mask_eq capacity_def unat_mask_lt)

lemma slot_mod: "slot k i = unat i mod capacity k"
  unfolding slot_def capacity_def ring_mask_eq take_bit_eq_mask [symmetric] unsigned_take_bit_eq
  by (rule take_bit_eq_mod)

lemma slot_lt [simp]: "slot k i < capacity k"
  by (simp add: slot_mod)

lemma mod_near_neq: "i < j \<Longrightarrow> j < i + c \<Longrightarrow> i mod c \<noteq> (j :: nat) mod c"
proof
  assume *: "i < j" "j < i + c" "i mod c = j mod c"
  then have "c dvd j - i" using mod_eq_dvd_iff_nat [of i j c] by simp
  then show False using * dvd_imp_le [of c "j - i"] by simp
qed

lemma cell_upd:
  assumes "i \<noteq> j" "i < j + capacity k" "j < i + capacity k"
  shows "cell k (es[j mod capacity k := x]) i = cell k es i"
proof -
  have "i mod capacity k \<noteq> j mod capacity k"
    using assms mod_near_neq [of i j "capacity k"] mod_near_neq [of j i "capacity k"] by (cases "i < j") auto
  then show ?thesis by (simp add: cell_def)
qed

lemma cell_same: "length es = capacity k \<Longrightarrow> cell k (es[j mod capacity k := x]) j = x"
  by (simp add: cell_def)

lemma nth_slot: "es ! slot k i = cell k es (unat i)"
  by (simp add: cell_def slot_mod)

lemma fetch_slot: "length es = capacity k \<Longrightarrow> fetch es (slot k i) f = f (cell k es (unat i))"
  by (simp add: cell_def slot_mod)

subsection \<open>Each operation on its own\<close>

text \<open>The queue is a deque of at most \<open>2 ^ k - 1\<close> elements, as long as the 32-bit indices have
  not wrapped.\<close>

lemma room_iff:
  assumes "wsq_ok k q" "unat (tail q) + capacity k \<le> 2 ^ 32"
  shows "tail q < head q + ring_mask k \<longleftrightarrow> length (contents k q) < capacity k - 1"
proof -
  have k: "k < 32" and le: "unat (head q) \<le> unat (tail q)" using assms(1) by (auto simp: wsq_ok_def)
  have "unat (head q) + (capacity k - 1) < 2 ^ 32"
    using assms(2) le capacity_pos [of k] by (simp del: capacity_pos)
  then have "unat (head q + ring_mask k) = unat (head q) + (capacity k - 1)"
    by (simp add: unat_word_ariths unat_ring_mask [OF k])
  then show ?thesis using le by (auto simp: word_less_nat_alt contents_def)
qed

lemma push_ok:
  assumes ok: "wsq_ok k q" and wrap: "unat (tail q) + capacity k \<le> 2 ^ 32"
    and room: "length (contents k q) < capacity k - 1"
  obtains q' where "unique_push k x q = Inr (True, q')" "wsq_ok k q'" "contents k q' = contents k q @ [x]"
    "unat (tail q') = unat (tail q) + 1" "head q' = head q"
proof -
  note * = ok [unfolded wsq_ok_def]
  let ?q = "q\<lparr>elements := (elements q)[slot k (tail q) := x], tail := tail q + 1\<rparr>"
  have "Suc (unat (tail q)) < 4294967296" using wrap room by simp
  then have t: "unat (tail q + 1) = unat (tail q) + 1" by (simp add: unat_word_ariths)
  have "unique_push k x q = Inr (True, ?q)"
    using room_iff [OF ok wrap] room * by (simp add: unique_push_def)
  moreover have "wsq_ok k ?q" using * room t by (simp add: wsq_ok_def contents_def)
  moreover have "contents k ?q = contents k q @ [x]"
  proof -
    have "cell k ((elements q)[slot k (tail q) := x]) i = cell k (elements q) i"
      if "unat (head q) \<le> i" "i < unat (tail q)" for i
      unfolding slot_mod using that * by (intro cell_upd) auto
    moreover have "cell k ((elements q)[slot k (tail q) := x]) (unat (tail q)) = x"
      unfolding slot_mod using * by (intro cell_same) auto
    ultimately show ?thesis using * t by (simp add: contents_def)
  qed
  ultimately show ?thesis using that [of ?q] t by simp
qed

lemma push_full:
  assumes "wsq_ok k q" "unat (tail q) + capacity k \<le> 2 ^ 32" "length (contents k q) \<ge> capacity k - 1"
  shows "unique_push k x q = Inr (False, q)"
  using room_iff [OF assms(1,2)] assms(3) by (simp add: unique_push_def)

lemma contents_Nil: "wsq_ok k q \<Longrightarrow> contents k q = [] \<longleftrightarrow> head q \<ge> tail q"
  by (auto simp: contents_def word_le_nat_alt)

lemma pull_ok:
  assumes ok: "wsq_ok k q" and c: "contents k q = xs @ [x]"
  obtains q' where "unique_pull k q = Inr (Some x, q')" "wsq_ok k q'" "contents k q' = xs"
    "unat (tail q') = unat (tail q) - 1" "head q' = head q"
proof -
  note * = ok [unfolded wsq_ok_def]
  let ?q = "q\<lparr>tail := tail q - 1\<rparr>"
  have lt: "unat (head q) < unat (tail q)" using contents_Nil [OF ok] c by (auto simp: word_le_nat_alt)
  then have nz: "tail q \<noteq> 0" by auto
  then have t: "unat (tail q - 1) = unat (tail q) - 1" by (rule unat_minus_one)
  have "[unat (head q)..<unat (tail q)] = [unat (head q)..<unat (tail q) - 1] @ [unat (tail q) - 1]"
    using lt upt_Suc_append [of "unat (head q)" "unat (tail q) - 1"] by simp
  then have x: "x = cell k (elements q) (unat (tail q) - 1)" "contents k ?q = xs"
    using c t by (simp_all add: contents_def)
  have "unique_pull k q = Inr (Some x, ?q)"
    using lt * t x(1) by (auto simp: unique_pull_def word_le_nat_alt Let_def nth_slot)
  moreover have "wsq_ok k ?q" using * lt t by (auto simp: wsq_ok_def)
  ultimately show ?thesis using that [of ?q] t x(2) by simp
qed

lemma steal_ok:
  assumes ok: "wsq_ok k q" and wrap: "unat (tail q) + capacity k \<le> 2 ^ 32" and c: "contents k q = x # xs"
  obtains q' where "shared_pull k True q = Inr (Some x, q')" "wsq_ok k q'" "contents k q' = xs"
    "unat (head q') = unat (head q) + 1" "tail q' = tail q"
proof -
  note * = ok [unfolded wsq_ok_def]
  let ?q = "q\<lparr>head := head q + 1\<rparr>"
  have lt: "unat (head q) < unat (tail q)" using contents_Nil [OF ok] c by (auto simp: word_le_nat_alt)
  then have h: "unat (head q + 1) = unat (head q) + 1"
    using wrap capacity_pos [of k] by (simp add: unat_word_ariths del: capacity_pos)
  have "[unat (head q)..<unat (tail q)] = unat (head q) # [unat (head q) + 1..<unat (tail q)]"
    using lt by (simp add: upt_conv_Cons)
  then have x: "x = cell k (elements q) (unat (head q))" "contents k ?q = xs"
    using c h by (simp_all add: contents_def)
  have "shared_pull k True q = Inr (Some x, ?q)"
    using lt * x(1) by (simp add: shared_pull_def word_less_nat_alt Let_def nth_slot)
  moreover have "wsq_ok k ?q" using * lt h by (simp add: wsq_ok_def)
  ultimately show ?thesis using that [of ?q] h x(2) by simp
qed

lemma pull_empty: "wsq_ok k q \<Longrightarrow> contents k q = [] \<Longrightarrow> unique_pull k q = Inr (None, q)"
  by (simp add: unique_pull_def contents_Nil)

lemma steal_empty: "wsq_ok k q \<Longrightarrow> contents k q = [] \<Longrightarrow> shared_pull k b q = Inr (None, q)"
  by (auto simp: shared_pull_def contents_Nil Let_def dest: leD)

lemma size_ok: "wsq_ok k q \<Longrightarrow> unat (size_queue q) = length (contents k q)"
  by (simp add: wsq_ok_def size_queue_def contents_def unat_sub word_le_nat_alt)

lemma wsq_ok_new: "k < 32 \<Longrightarrow> length es = capacity k \<Longrightarrow> wsq_ok k (new_queue es) \<and> contents k (new_queue es) = []"
  by (simp add: wsq_ok_def new_queue_def contents_def)

subsection \<open>A steal step by step\<close>

text \<open>\<open>shared_pull\<close> with the lock: the store of the incremented head; the test, and the load of the element
  if it succeeds; the store of the old head if not.\<close>

definition begin_steal :: "'a wsq \<Rightarrow> 'a wsq" where
  "begin_steal q = q\<lparr>head := head q + 1\<rparr>"

definition try_steal :: "nat \<Rightarrow> 32 word \<Rightarrow> 'a wsq \<Rightarrow> 'a option res" where
  "try_steal k h q = (if h < tail q then fetch (elements q) (slot k h) (\<lambda>x. Inr (Some x)) else Inr None)"

definition undo_steal :: "32 word \<Rightarrow> 'a wsq \<Rightarrow> 'a wsq" where
  "undo_steal h q = q\<lparr>head := h\<rparr>"

lemma shared_pull_steps:
  "shared_pull k True q = (let h = head q; q' = begin_steal q in
     bind_res (try_steal k h q') (\<lambda>y. Inr (y, case y of None \<Rightarrow> undo_steal h q' | Some x \<Rightarrow> q')))"
  by (simp add: shared_pull_def begin_steal_def try_steal_def undo_steal_def Let_def fetch_def)

text \<open>The queue without what a thief in between has added to its head. While the head is raised the
  owner may use the last place of the ring, too.\<close>

definition lowered :: "bool \<Rightarrow> 'a wsq \<Rightarrow> 'a wsq" where
  "lowered r q = (if r then q\<lparr>head := head q - 1\<rparr> else q)"

definition probed_ok :: "nat \<Rightarrow> bool \<Rightarrow> 'a wsq \<Rightarrow> bool" where
  "probed_ok k r q \<longleftrightarrow> k < 32 \<and> length (elements q) = capacity k \<and> (r \<longrightarrow> head q \<noteq> 0) \<and>
     unat (head (lowered r q)) \<le> unat (tail q) \<and> unat (tail q) \<le> unat (head (lowered r q)) + capacity k"

definition probed_contents :: "nat \<Rightarrow> bool \<Rightarrow> 'a wsq \<Rightarrow> 'a list" where
  "probed_contents k r q = contents k (lowered r q)"

lemma lowered_simps [simp]: "elements (lowered r q) = elements q" "tail (lowered r q) = tail q" "lowered False q = q"
  by (simp_all add: lowered_def)

lemma unat_head_raised: "(r \<longrightarrow> head q \<noteq> 0) \<Longrightarrow> unat (head q) = unat (head (lowered r q)) + of_bool r"
  using unat_minus_one [of "head q"] unat_gt_0 [of "head q"] by (auto simp: lowered_def)

lemma probed_ok_wsq: "wsq_ok k q \<Longrightarrow> probed_ok k False q"
  by (simp add: wsq_ok_def probed_ok_def)

lemma probed_push:
  assumes ok: "probed_ok k r q" and wrap: "unat (tail q) + capacity k < 2 ^ 32"
  shows "unique_push k x q = Inr (False, q) \<or>
    (\<exists>q'. unique_push k x q = Inr (True, q') \<and> probed_ok k r q' \<and>
      probed_contents k r q' = probed_contents k r q @ [x] \<and> unat (tail q') = unat (tail q) + 1)"
proof (cases "tail q < head q + ring_mask k")
  case False
  then show ?thesis by (simp add: unique_push_def)
next
  case True
  note * = ok [unfolded probed_ok_def]
  let ?h = "unat (head (lowered r q))" and ?t = "unat (tail q)"
  let ?q = "q\<lparr>elements := (elements q)[slot k (tail q) := x], tail := tail q + 1\<rparr>"
  have h: "unat (head q) = ?h + of_bool r" using * by (intro unat_head_raised) simp
  have order: "?h \<le> ?t" "?t \<le> ?h + capacity k" and b: "of_bool r \<le> (1 :: nat)" using * by simp_all
  have "unat (head q) + (capacity k - 1) < 2 ^ 32" using h order(1) b wrap capacity_pos [of k] by linarith
  then have "unat (head q + ring_mask k) = unat (head q) + (capacity k - 1)"
    using * by (simp add: unat_word_ariths unat_ring_mask)
  then have "?t < unat (head q) + (capacity k - 1)" using True by (simp add: word_less_nat_alt)
  then have room: "?t < ?h + capacity k" using h b capacity_pos [of k] by linarith
  have t: "unat (tail q + 1) = ?t + 1" using wrap capacity_pos [of k] by (simp add: unat_word_ariths del: capacity_pos)
  have low: "lowered r ?q = (lowered r q)\<lparr>elements := (elements q)[slot k (tail q) := x], tail := tail q + 1\<rparr>"
    by (simp add: lowered_def)
  have "unique_push k x q = Inr (True, ?q)" using True * by (simp add: unique_push_def)
  moreover have "probed_ok k r ?q" unfolding probed_ok_def low using * room t by simp
  moreover have "probed_contents k r ?q = probed_contents k r q @ [x]"
  proof -
    have "cell k ((elements q)[slot k (tail q) := x]) i = cell k (elements q) i" if "?h \<le> i" "i < ?t" for i
      unfolding slot_mod using that room by (intro cell_upd) auto
    moreover have "cell k ((elements q)[slot k (tail q) := x]) ?t = x"
      unfolding slot_mod using * by (intro cell_same) auto
    ultimately show ?thesis unfolding probed_contents_def low contents_def using * t by simp
  qed
  ultimately show ?thesis using t by (intro disjI2 exI [of _ ?q]) simp
qed

lemma probed_pull:
  assumes ok: "probed_ok k r q"
  shows "unique_pull k q = Inr (None, q) \<and> length (probed_contents k r q) \<le> of_bool r \<or>
    (\<exists>x q'. unique_pull k q = Inr (Some x, q') \<and> probed_ok k r q' \<and>
      probed_contents k r q = probed_contents k r q' @ [x] \<and> unat (tail q') = unat (tail q) - 1)"
proof -
  note * = ok [unfolded probed_ok_def]
  let ?h = "unat (head (lowered r q))" and ?t = "unat (tail q)"
  have h: "unat (head q) = ?h + of_bool r" using * by (intro unat_head_raised) simp
  show ?thesis
  proof (cases "head q \<ge> tail q")
    case True
    then have "?t \<le> ?h + of_bool r" using h by (simp add: word_le_nat_alt)
    then show ?thesis using True by (simp add: unique_pull_def probed_contents_def contents_def le_diff_conv add.commute)
  next
    case False
    then have lt: "unat (head q) < ?t" by (simp add: word_le_nat_alt)
    then have "tail q \<noteq> 0" by auto
    then have t: "unat (tail q - 1) = ?t - 1" by (rule unat_minus_one)
    let ?q = "q\<lparr>tail := tail q - 1\<rparr>" and ?x = "cell k (elements q) (?t - 1)"
    have low: "lowered r ?q = (lowered r q)\<lparr>tail := tail q - 1\<rparr>" by (simp add: lowered_def)
    have "unique_pull k q = Inr (Some ?x, ?q)"
      using False lt * t by (simp add: unique_pull_def word_le_nat_alt Let_def nth_slot)
    moreover have "?h \<le> ?t - 1" "?t - 1 \<le> ?h + capacity k" using lt h * by linarith+
    then have "probed_ok k r ?q" unfolding probed_ok_def low using * t by simp
    moreover have "probed_contents k r q = probed_contents k r ?q @ [?x]"
    proof -
      have "[?h..<?t] = [?h..<?t - 1] @ [?t - 1]" using lt h upt_Suc_append [of ?h "?t - 1"] by simp
      then show ?thesis unfolding probed_contents_def low contents_def using t by simp
    qed
    ultimately show ?thesis using t by (intro disjI2 exI [of _ ?x] exI [of _ ?q]) simp
  qed
qed

lemma probed_raise:
  assumes ok: "probed_ok k False q" and wrap: "unat (tail q) + capacity k < 2 ^ 32"
  shows "probed_ok k True (begin_steal q) \<and> probed_contents k True (begin_steal q) = probed_contents k False q \<and>
    unat (tail (begin_steal q)) = unat (tail q)"
proof -
  note * = ok [unfolded probed_ok_def]
  have "unat (head q + 1) = unat (head q) + 1"
    using * wrap capacity_pos [of k] by (simp add: unat_word_ariths del: capacity_pos)
  then have "head q + 1 \<noteq> 0" by auto
  then show ?thesis using * by (simp add: probed_ok_def probed_contents_def begin_steal_def lowered_def)
qed

lemma probed_try:
  assumes ok: "probed_ok k True q"
  shows "try_steal k (head q - 1) q = Inr None \<and> probed_contents k True q = [] \<or>
    (\<exists>x. try_steal k (head q - 1) q = Inr (Some x) \<and> probed_ok k False q \<and>
      probed_contents k True q = x # probed_contents k False q)"
proof -
  note * = ok [unfolded probed_ok_def]
  let ?h = "unat (head q - 1)"
  have low: "lowered True q = q\<lparr>head := head q - 1\<rparr>" by (simp add: lowered_def)
  have h: "unat (head q) = ?h + 1" using unat_head_raised [of True q] * by (simp add: low)
  have order: "?h \<le> unat (tail q)" "unat (tail q) \<le> ?h + capacity k" using * by (simp_all add: low)
  show ?thesis
  proof (cases "head q - 1 < tail q")
    case False
    then have "?h = unat (tail q)" using order(1) by (simp add: word_less_nat_alt)
    then show ?thesis using False by (simp add: try_steal_def probed_contents_def contents_def low)
  next
    case True
    then have lt: "?h < unat (tail q)" by (simp add: word_less_nat_alt)
    then have "probed_contents k True q = cell k (elements q) ?h # probed_contents k False q"
      using h by (simp add: probed_contents_def contents_def low upt_conv_Cons)
    moreover have "probed_ok k False q" using * h lt order(2) by (simp add: probed_ok_def)
    ultimately show ?thesis using True * by (simp add: try_steal_def nth_slot)
  qed
qed

interpretation wq: work_deque "probed_ok k" "probed_contents k" "\<lambda>q. unat (tail q)" "\<lambda>n. n + capacity k < 2 ^ 32"
    "unique_push k" "unique_pull k" begin_steal "\<lambda>q. try_steal k (head q - 1) q" "\<lambda>q. undo_steal (head q - 1) q" for k
proof
  fix q :: "'a wsq"
  assume "probed_ok k True q"
  then show "probed_ok k False (undo_steal (head q - 1) q) \<and>
      probed_contents k False (undo_steal (head q - 1) q) = probed_contents k True q \<and>
      unat (tail (undo_steal (head q - 1) q)) = unat (tail q)"
    by (simp add: probed_ok_def probed_contents_def lowered_def undo_steal_def)
qed (rule probed_push probed_pull probed_raise probed_try, assumption+)+

text \<open>The owner never writes the head.\<close>

lemma push_head: "unique_push k x q = Inr (b, q') \<Longrightarrow> head q' = head q"
  by (auto simp: unique_push_def fetch_def split: if_splits)

lemma pull_head: "unique_pull k q = Inr (y, q') \<Longrightarrow> head q' = head q"
  by (auto simp: unique_pull_def fetch_def Let_def split: if_splits)

subsection \<open>Properties\<close>

text \<open>While its 32-bit indices have not wrapped, the queue is a bounded deque: the owner pushes
  at the back unless \<open>2 ^ k - 1\<close> elements are stored, and pulls from the back; a thief that
  gets the lock takes from the front; both return nothing from an empty queue, and a refused or
  failing call changes nothing.\<close>

theorem wsq_deque:
  assumes ok: "wsq_ok k q" and wrap: "unat (tail q) + 2 ^ k \<le> 2 ^ 32"
  shows "(if length (contents k q) < 2 ^ k - 1
      then \<exists>q'. unique_push k x q = Inr (True, q') \<and> wsq_ok k q' \<and> contents k q' = contents k q @ [x]
      else unique_push k x q = Inr (False, q)) \<and>
    (if contents k q = [] then unique_pull k q = Inr (None, q)
      else \<exists>q'. unique_pull k q = Inr (Some (last (contents k q)), q') \<and> wsq_ok k q' \<and>
        contents k q' = butlast (contents k q)) \<and>
    (if contents k q = [] then shared_pull k True q = Inr (None, q)
      else \<exists>q'. shared_pull k True q = Inr (Some (hd (contents k q)), q') \<and> wsq_ok k q' \<and>
        contents k q' = tl (contents k q)) \<and>
    shared_pull k False q = Inr (None, q) \<and> unat (size_queue q) = length (contents k q)"
proof (intro conjI)
  have wrap': "unat (tail q) + capacity k \<le> 2 ^ 32" using wrap by (simp add: capacity_def)
  show "if length (contents k q) < 2 ^ k - 1
      then \<exists>q'. unique_push k x q = Inr (True, q') \<and> wsq_ok k q' \<and> contents k q' = contents k q @ [x]
      else unique_push k x q = Inr (False, q)"
  proof (cases "length (contents k q) < capacity k - 1")
    case True
    obtain q' where "unique_push k x q = Inr (True, q')" "wsq_ok k q'" "contents k q' = contents k q @ [x]"
      by (rule push_ok [OF ok wrap' True]) (rule that)
    then show ?thesis using True by (simp add: capacity_def)
  next
    case False
    then show ?thesis using push_full [OF ok wrap'] by (simp add: capacity_def)
  qed
  show "if contents k q = [] then unique_pull k q = Inr (None, q)
      else \<exists>q'. unique_pull k q = Inr (Some (last (contents k q)), q') \<and> wsq_ok k q' \<and>
        contents k q' = butlast (contents k q)"
    using pull_empty [OF ok] pull_ok [OF ok, of "butlast (contents k q)" "last (contents k q)"]
    by (metis append_butlast_last_id)
  show "if contents k q = [] then shared_pull k True q = Inr (None, q)
      else \<exists>q'. shared_pull k True q = Inr (Some (hd (contents k q)), q') \<and> wsq_ok k q' \<and>
        contents k q' = tl (contents k q)"
    using steal_empty [OF ok] steal_ok [OF ok wrap', of "hd (contents k q)" "tl (contents k q)"]
    by (metis list.collapse)
  show "shared_pull k False q = Inr (None, q)" by (simp add: shared_pull_def)
  show "unat (size_queue q) = length (contents k q)" by (rule size_ok [OF ok])
qed

theorem wsq_deque_witness:
  "\<exists>q' :: nat wsq. unique_push 2 7 (new_queue [0, 0, 0, 0]) = Inr (True, q') \<and> contents 2 q' = [7]"
proof -
  have ok: "wsq_ok 2 (new_queue [0 :: nat, 0, 0, 0])" and c: "contents 2 (new_queue [0 :: nat, 0, 0, 0]) = []"
    using wsq_ok_new [of 2 "[0 :: nat, 0, 0, 0]"] by (simp_all add: capacity_def)
  have w: "unat (tail (new_queue [0 :: nat, 0, 0, 0])) + 2 ^ 2 \<le> 2 ^ 32" by (simp add: new_queue_def)
  from conjunct1 [OF wsq_deque [OF ok w, of 7]] show ?thesis unfolding c by auto
qed

text \<open>An element that passes through, \<open>n\<close> times.\<close>

fun churn :: "nat \<Rightarrow> 'a \<Rightarrow> nat \<Rightarrow> 'a wsq \<Rightarrow> 'a wsq res" where
  "churn k x 0 q = Inr q"
| "churn k x (Suc n) q = bind_res (churn k x n q) (\<lambda>q.
     bind_res (unique_push k x q) (\<lambda>(done, q). require done Check_failed
     (bind_res (shared_pull k True q) (\<lambda>(y, q). require (y \<noteq> None) Check_failed (Inr q)))))"

lemma churn_ok:
  assumes "0 < k" "k < 32" "length es = capacity k" "n + capacity k \<le> 2 ^ 32 + 1"
  shows "\<exists>q. churn k x n (new_queue es) = Inr q \<and> wsq_ok k q \<and> contents k q = [] \<and>
    unat (head q) = n \<and> unat (tail q) = n"
  using assms(4)
proof (induction n)
  case 0
  then show ?case using wsq_ok_new [OF assms(2,3)] by (simp add: new_queue_def)
next
  case (Suc n)
  then obtain q where q: "churn k x n (new_queue es) = Inr q" "wsq_ok k q" "contents k q = []"
    "unat (head q) = n" "unat (tail q) = n" by auto
  have wrap: "unat (tail q) + capacity k \<le> 2 ^ 32" using Suc.prems q(5) by simp
  have "(2 :: nat) ^ 1 \<le> 2 ^ k" using assms(1) by (intro power_increasing) auto
  then have room: "length (contents k q) < capacity k - 1" using q(3) by (simp add: capacity_def)
  obtain q1 where q1: "unique_push k x q = Inr (True, q1)" "wsq_ok k q1" "contents k q1 = contents k q @ [x]"
    "unat (tail q1) = unat (tail q) + 1" "head q1 = head q" by (rule push_ok [OF q(2) wrap room])
  have "unat (head q1) < unat (tail q1)" "unat (tail q1) + capacity k \<le> 2 ^ 32 + 1"
    using q1(4,5) q(4,5) wrap by auto
  obtain q2 where q2: "shared_pull k True q1 = Inr (Some x, q2)" "wsq_ok k q2" "contents k q2 = []"
    "unat (head q2) = unat (head q1) + 1" "tail q2 = tail q1"
  proof -
    note * = q1(2) [unfolded wsq_ok_def]
    let ?q = "q1\<lparr>head := head q1 + 1\<rparr>"
    have lt: "Suc n < 2 ^ 32" using Suc.prems room by simp
    have h: "unat (head q1 + 1) = Suc n" using q1(5) q(4) lt by (simp add: unat_word_ariths)
    have "x = cell k (elements q1) n" using q1(3,4,5) q(3,4,5) by (simp add: contents_def)
    then have "shared_pull k True q1 = Inr (Some x, ?q)"
      using * q1(4,5) q(4,5) by (simp add: shared_pull_def word_less_nat_alt Let_def nth_slot)
    moreover have "wsq_ok k ?q" "contents k ?q = []" using * h q1(4) q(5) by (simp_all add: wsq_ok_def contents_def)
    ultimately show ?thesis using that [of ?q] h q1(5) q(4) by simp
  qed
  have "churn k x (Suc n) (new_queue es) = Inr q2" using q(1) q1(1) q2(1) by simp
  then show ?case using q2 q1(4,5) q(4,5) by auto
qed

text \<open>C19. The indices never wrap cleanly: after \<open>2 ^ 32 - (2 ^ k - 1)\<close> elements have passed through a
  queue it is empty and refuses every push, for ever - the bound \<open>head_ + MASK\<close> has wrapped to
  zero - and nothing the owner or the thieves do changes it.\<close>

theorem wsq_wrap_refuses:
  assumes k: "0 < k" "k < 32" "length es = 2 ^ k"
  shows "\<exists>q. churn k x (2 ^ 32 - (2 ^ k - 1)) (new_queue es) = Inr q \<and> empty_queue q \<and>
    (\<forall>y. unique_push k y q = Inr (False, q)) \<and> unique_pull k q = Inr (None, q) \<and>
    (\<forall>b. shared_pull k b q = Inr (None, q))"
proof -
  let ?n = "2 ^ 32 - (2 ^ k - 1) :: nat"
  have le: "(2 :: nat) ^ k \<le> 2 ^ 32" using k(2) by (intro power_increasing) auto
  have c: "length es = capacity k" using k(3) by (simp add: capacity_def)
  have n: "?n + capacity k \<le> 2 ^ 32 + 1" using le by (simp add: capacity_def)
  obtain q where q: "churn k x ?n (new_queue es) = Inr q" "wsq_ok k q" "contents k q = []"
    "unat (head q) = ?n" using churn_ok [OF k(1,2) c n] by blast
  have "unat (head q + ring_mask k) = 0"
    using q(4) le by (simp add: unat_word_ariths unat_ring_mask [OF k(2)] capacity_def)
  then have "\<not> tail q < head q + ring_mask k" by (simp add: word_less_nat_alt)
  then have "unique_push k y q = Inr (False, q)" for y by (simp add: unique_push_def)
  moreover have "empty_queue q" using contents_Nil [OF q(2)] q(3) by (simp add: empty_queue_def)
  ultimately show ?thesis using q(1) pull_empty [OF q(2,3)] steal_empty [OF q(2,3)] by blast
qed

theorem wsq_wrap_refuses_witness:
  "\<exists>q. churn 2 (7 :: nat) (2 ^ 32 - (2 ^ 2 - 1)) (new_queue [0, 0, 0, 0]) = Inr q \<and> empty_queue q \<and>
    (\<forall>y. unique_push 2 y q = Inr (False, q))"
  using wsq_wrap_refuses [of 2 "[0 :: nat, 0, 0, 0]" 7] by auto

end
