(* ===== verification/Work_Stealing_Steps.thy ===== *)
theory Work_Stealing_Steps
  imports Work_Stealing_Queue "HOL-Library.Multiset"
begin

text \<open>
  The work-stealing queue with its owner and its thieves running at the same time: every
  atomic load and store of \<open>proto/work_stealing_queue.hpp\<close>, every access to \<open>elements_\<close> and
  every lock operation is a step. A failed \<open>timed_mutex\<close> acquisition changes nothing and has
  no step; the unlock at the end of a function is part of its last step. The ghost fields
  record what happened: \<open>pushed\<close> and \<open>pulled\<close> what went in and came out, \<open>owner_results\<close> and
  \<open>thief_results\<close> what the calls of the owner, and of the thieves that got the lock, returned.
\<close>

subsection \<open>Program points\<close>

datatype 'a owner_pc =
    O_idle
  | O_push 'a "32 word"      \<comment> \<open>\<open>tail_mirror\<close> loaded\<close>
  | O_write 'a "32 word"     \<comment> \<open>room found\<close>
  | O_publish 'a "32 word"   \<comment> \<open>element written\<close>
  | O_pull "32 word"         \<comment> \<open>\<open>tail_mirror\<close> loaded\<close>
  | O_claim "32 word"        \<comment> \<open>not empty; about to store the decremented tail\<close>
  | O_check "32 word"        \<comment> \<open>tail stored\<close>
  | O_take "32 word" bool    \<comment> \<open>about to read the element; whether the lock is held\<close>
  | O_wait "32 word"
  | O_locked "32 word"
  | O_restore "32 word"

datatype thief_pc =
    T_idle
  | T_locked
  | T_loaded "32 word"
  | T_stored "32 word"
  | T_take "32 word"
  | T_restore "32 word"

datatype agent = Owner | Thief nat

datatype 'a result = Pushed 'a bool | Got "'a option"

record 'a shared =
  queue :: "'a wsq"
  lock :: "agent option"
  owner_pc :: "'a owner_pc"
  thief_pc :: "nat \<Rightarrow> thief_pc"
  pushed :: "'a list"
  pulled :: "'a list"
  owner_results :: "'a result list"
  thief_results :: "(nat \<times> 'a option) list"

definition start_shared :: "'a list \<Rightarrow> 'a shared" where
  "start_shared es = \<lparr>queue = new_queue es, lock = None, owner_pc = O_idle, thief_pc = \<lambda>_. T_idle,
     pushed = [], pulled = [], owner_results = [], thief_results = []\<rparr>"

definition set_thief :: "nat \<Rightarrow> thief_pc \<Rightarrow> 'a shared \<Rightarrow> 'a shared" where
  "set_thief i pc s = s\<lparr>thief_pc := (thief_pc s)(i := pc)\<rparr>"

subsection \<open>Steps\<close>

inductive owner_step :: "nat \<Rightarrow> 'a shared \<Rightarrow> 'a shared \<Rightarrow> bool" for k where
  push_load: "owner_pc s = O_idle \<Longrightarrow> owner_step k s (s\<lparr>owner_pc := O_push x (tail (queue s))\<rparr>)"
| push_room: "owner_pc s = O_push x t \<Longrightarrow> t < head (queue s) + ring_mask k \<Longrightarrow>
    owner_step k s (s\<lparr>owner_pc := O_write x t\<rparr>)"
| push_full: "owner_pc s = O_push x t \<Longrightarrow> \<not> t < head (queue s) + ring_mask k \<Longrightarrow>
    owner_step k s (s\<lparr>owner_pc := O_idle, owner_results := owner_results s @ [Pushed x False]\<rparr>)"
| push_write: "owner_pc s = O_write x t \<Longrightarrow>
    owner_step k s (s\<lparr>owner_pc := O_publish x t,
      queue := (queue s)\<lparr>elements := (elements (queue s))[slot k t := x]\<rparr>\<rparr>)"
| push_store: "owner_pc s = O_publish x t \<Longrightarrow>
    owner_step k s (s\<lparr>owner_pc := O_idle, queue := (queue s)\<lparr>tail := t + 1\<rparr>, pushed := pushed s @ [x],
      owner_results := owner_results s @ [Pushed x True]\<rparr>)"
| pull_load: "owner_pc s = O_idle \<Longrightarrow> owner_step k s (s\<lparr>owner_pc := O_pull (tail (queue s))\<rparr>)"
| pull_empty: "owner_pc s = O_pull t \<Longrightarrow> head (queue s) \<ge> t \<Longrightarrow>
    owner_step k s (s\<lparr>owner_pc := O_idle, owner_results := owner_results s @ [Got None]\<rparr>)"
| pull_some: "owner_pc s = O_pull t \<Longrightarrow> \<not> head (queue s) \<ge> t \<Longrightarrow>
    owner_step k s (s\<lparr>owner_pc := O_claim (t - 1)\<rparr>)"
| pull_claim: "owner_pc s = O_claim t \<Longrightarrow>
    owner_step k s (s\<lparr>owner_pc := O_check t, queue := (queue s)\<lparr>tail := t\<rparr>\<rparr>)"
| pull_won: "owner_pc s = O_check t \<Longrightarrow> head (queue s) \<le> t \<Longrightarrow>
    owner_step k s (s\<lparr>owner_pc := O_take t False\<rparr>)"
| pull_contend: "owner_pc s = O_check t \<Longrightarrow> \<not> head (queue s) \<le> t \<Longrightarrow>
    owner_step k s (s\<lparr>owner_pc := O_wait t\<rparr>)"
| pull_lock: "owner_pc s = O_wait t \<Longrightarrow> lock s = None \<Longrightarrow>
    owner_step k s (s\<lparr>owner_pc := O_locked t, lock := Some Owner\<rparr>)"
| pull_won_locked: "owner_pc s = O_locked t \<Longrightarrow> head (queue s) \<le> t \<Longrightarrow>
    owner_step k s (s\<lparr>owner_pc := O_take t True\<rparr>)"
| pull_lost: "owner_pc s = O_locked t \<Longrightarrow> \<not> head (queue s) \<le> t \<Longrightarrow>
    owner_step k s (s\<lparr>owner_pc := O_restore t\<rparr>)"
| pull_take: "owner_pc s = O_take t b \<Longrightarrow>
    owner_step k s (s\<lparr>owner_pc := O_idle, lock := (if b then None else lock s),
      pulled := pulled s @ [elements (queue s) ! slot k t],
      owner_results := owner_results s @ [Got (Some (elements (queue s) ! slot k t))]\<rparr>)"
| pull_restore: "owner_pc s = O_restore t \<Longrightarrow>
    owner_step k s (s\<lparr>owner_pc := O_idle, lock := None, queue := (queue s)\<lparr>tail := t + 1\<rparr>,
      owner_results := owner_results s @ [Got None]\<rparr>)"

inductive thief_step :: "nat \<Rightarrow> nat \<Rightarrow> 'a shared \<Rightarrow> 'a shared \<Rightarrow> bool" for k i where
  lock: "thief_pc s i = T_idle \<Longrightarrow> lock s = None \<Longrightarrow>
    thief_step k i s (set_thief i T_locked s\<lparr>lock := Some (Thief i)\<rparr>)"
| load: "thief_pc s i = T_locked \<Longrightarrow> thief_step k i s (set_thief i (T_loaded (head (queue s))) s)"
| store: "thief_pc s i = T_loaded h \<Longrightarrow>
    thief_step k i s (set_thief i (T_stored h) s\<lparr>queue := (queue s)\<lparr>head := h + 1\<rparr>\<rparr>)"
| won: "thief_pc s i = T_stored h \<Longrightarrow> h < tail (queue s) \<Longrightarrow> thief_step k i s (set_thief i (T_take h) s)"
| lost: "thief_pc s i = T_stored h \<Longrightarrow> \<not> h < tail (queue s) \<Longrightarrow> thief_step k i s (set_thief i (T_restore h) s)"
| take: "thief_pc s i = T_take h \<Longrightarrow>
    thief_step k i s (set_thief i T_idle s\<lparr>lock := None, pulled := pulled s @ [elements (queue s) ! slot k h],
      thief_results := thief_results s @ [(i, Some (elements (queue s) ! slot k h))]\<rparr>)"
| restore: "thief_pc s i = T_restore h \<Longrightarrow>
    thief_step k i s (set_thief i T_idle s\<lparr>lock := None, queue := (queue s)\<lparr>head := h\<rparr>,
      thief_results := thief_results s @ [(i, None)]\<rparr>)"

definition shared_step :: "nat \<Rightarrow> 'a shared \<Rightarrow> 'a shared \<Rightarrow> bool" where
  "shared_step k s s' \<longleftrightarrow> owner_step k s s' \<or> (\<exists>i. thief_step k i s s')"

inductive shared_run :: "nat \<Rightarrow> 'a shared \<Rightarrow> bool" for k where
  init: "length es = capacity k \<Longrightarrow> shared_run k (start_shared es)"
| step: "shared_run k s \<Longrightarrow> shared_step k s s' \<Longrightarrow> shared_run k s'"

subsection \<open>The invariant\<close>

text \<open>The thief that holds the lock, if any.\<close>

definition active :: "'a shared \<Rightarrow> thief_pc" where
  "active s = (case lock s of Some (Thief i) \<Rightarrow> thief_pc s i | _ \<Rightarrow> T_idle)"

text \<open>Where the stored elements begin and end, apart from what a thread has provisionally
  written to \<open>head_\<close> or \<open>tail_\<close>.\<close>

definition low :: "'a shared \<Rightarrow> nat" where
  "low s = (case active s of T_stored h \<Rightarrow> unat h | T_take h \<Rightarrow> unat h | T_restore h \<Rightarrow> unat h
     | _ \<Rightarrow> unat (head (queue s)))"

definition high :: "'a shared \<Rightarrow> nat" where
  "high s = (case owner_pc s of O_check t \<Rightarrow> unat t + 1 | O_wait t \<Rightarrow> unat t + 1 | O_locked t \<Rightarrow> unat t + 1
     | O_restore t \<Rightarrow> unat t + 1 | _ \<Rightarrow> unat (tail (queue s)))"

definition in_flight :: "nat \<Rightarrow> 'a shared \<Rightarrow> 'a multiset" where
  "in_flight k s = (case owner_pc s of O_take t b \<Rightarrow> {#cell k (elements (queue s)) (unat t)#} | _ \<Rightarrow> {#})"

definition stored :: "nat \<Rightarrow> 'a shared \<Rightarrow> 'a list" where
  "stored k s = map (cell k (elements (queue s))) [low s..<high s]"

fun holds_lock :: "'a owner_pc \<Rightarrow> bool" where
  "holds_lock (O_locked t) = True"
| "holds_lock (O_take t b) = b"
| "holds_lock (O_restore t) = True"
| "holds_lock _ = False"

definition locks_ok :: "'a shared \<Rightarrow> bool" where
  "locks_ok s \<longleftrightarrow> (\<forall>i. thief_pc s i \<noteq> T_idle \<longleftrightarrow> lock s = Some (Thief i)) \<and>
     (lock s = Some Owner \<longleftrightarrow> holds_lock (owner_pc s))"

definition thief_ok :: "'a shared \<Rightarrow> bool" where
  "thief_ok s \<longleftrightarrow> (case active s of
       T_loaded h \<Rightarrow> head (queue s) = h
     | T_stored h \<Rightarrow> head (queue s) = h + 1
     | T_take h \<Rightarrow> head (queue s) = h + 1 \<and> unat h < high s
     | T_restore h \<Rightarrow> head (queue s) = h + 1
     | _ \<Rightarrow> True)"

definition owner_ok :: "nat \<Rightarrow> 'a shared \<Rightarrow> bool" where
  "owner_ok k s \<longleftrightarrow> (case owner_pc s of
       O_push x t \<Rightarrow> tail (queue s) = t
     | O_write x t \<Rightarrow> tail (queue s) = t \<and> unat t < low s + capacity k
     | O_publish x t \<Rightarrow> tail (queue s) = t \<and> unat t < low s + capacity k \<and>
         cell k (elements (queue s)) (unat t) = x
     | O_pull t \<Rightarrow> tail (queue s) = t
     | O_claim t \<Rightarrow> unat (tail (queue s)) = unat t + 1
     | O_check t \<Rightarrow> tail (queue s) = t
     | O_wait t \<Rightarrow> tail (queue s) = t
     | O_locked t \<Rightarrow> tail (queue s) = t
     | O_restore t \<Rightarrow> tail (queue s) = t
     | O_take t b \<Rightarrow> tail (queue s) = t
     | O_idle \<Rightarrow> True)"

definition shared_inv :: "nat \<Rightarrow> 'a shared \<Rightarrow> bool" where
  "shared_inv k s \<longleftrightarrow> length (elements (queue s)) = capacity k \<and> locks_ok s \<and> thief_ok s \<and> owner_ok k s \<and>
     low s \<le> high s \<and> high s \<le> low s + capacity k \<and> high s \<le> length (pushed s) \<and>
     mset (pushed s) = mset (pulled s) + mset (stored k s) + in_flight k s"

lemma shared_invD:
  assumes "shared_inv k s"
  shows "length (elements (queue s)) = capacity k" "locks_ok s" "thief_ok s" "owner_ok k s"
    "low s \<le> high s" "high s \<le> low s + capacity k" "high s \<le> length (pushed s)"
    "mset (pushed s) = mset (pulled s) + mset (stored k s) + in_flight k s"
  using assms by (auto simp: shared_inv_def)

lemma locks_okD:
  assumes "locks_ok s"
  shows "thief_pc s i \<noteq> T_idle \<longleftrightarrow> lock s = Some (Thief i)" "lock s = Some Owner \<longleftrightarrow> holds_lock (owner_pc s)"
  using assms unfolding locks_ok_def by blast+

lemma locks_okI:
  "(\<And>i. thief_pc s i \<noteq> T_idle \<longleftrightarrow> lock s = Some (Thief i)) \<Longrightarrow>
   lock s = Some Owner \<longleftrightarrow> holds_lock (owner_pc s) \<Longrightarrow> locks_ok s"
  unfolding locks_ok_def by blast

lemma locks_ok_same:
  "locks_ok s \<Longrightarrow> thief_pc s' = thief_pc s \<Longrightarrow> lock s' = lock s \<Longrightarrow>
    holds_lock (owner_pc s') = holds_lock (owner_pc s) \<Longrightarrow> locks_ok s'"
  unfolding locks_ok_def by simp

lemma locks_ok_owner:
  assumes "locks_ok s" "thief_pc s' = thief_pc s" "lock s = None \<and> lock s' = Some Owner \<or>
    lock s = Some Owner \<and> lock s' = None" "holds_lock (owner_pc s') \<longleftrightarrow> lock s' = Some Owner"
  shows "locks_ok s'"
proof (rule locks_okI)
  fix i
  have "thief_pc s i = T_idle" using locks_okD(1) [OF assms(1), of i] assms(3) by auto
  then show "thief_pc s' i \<noteq> T_idle \<longleftrightarrow> lock s' = Some (Thief i)" using assms(2,3) by auto
qed (use assms(4) in simp)

lemma locks_ok_thief:
  assumes "locks_ok s" "thief_pc s' = (thief_pc s)(i := pc)" "owner_pc s' = owner_pc s"
    "lock s = (if thief_pc s i = T_idle then None else Some (Thief i))"
    "lock s' = (if pc = T_idle then None else Some (Thief i))"
  shows "locks_ok s'"
proof (rule locks_okI)
  fix j
  show "thief_pc s' j \<noteq> T_idle \<longleftrightarrow> lock s' = Some (Thief j)"
    using locks_okD(1) [OF assms(1), of j] assms(2,4,5) by (cases "j = i") (auto split: if_splits)
  show "lock s' = Some Owner \<longleftrightarrow> holds_lock (owner_pc s')"
    using locks_okD(2) [OF assms(1)] assms(3-5) by (auto split: if_splits)
qed

lemma active_idle: "locks_ok s \<Longrightarrow> thief_pc s i \<noteq> T_idle \<Longrightarrow> active s = thief_pc s i \<and> lock s = Some (Thief i)"
  using locks_okD(1) [of s i] by (simp add: active_def)

lemma unat_suc: "unat h + 1 < 2 ^ 32 \<Longrightarrow> unat (h + 1 :: 32 word) = unat h + 1"
  by (simp add: unat_word_ariths)

lemma head_low: "thief_ok s \<Longrightarrow> low s + 1 < 2 ^ 32 \<Longrightarrow>
    unat (head (queue s)) = low s \<or> unat (head (queue s)) = low s + 1"
  by (auto simp: thief_ok_def low_def unat_suc split: thief_pc.splits)

lemma start_inv: "length es = capacity k \<Longrightarrow> shared_inv k (start_shared es)"
  by (simp add: shared_inv_def start_shared_def new_queue_def locks_ok_def thief_ok_def owner_ok_def
      low_def high_def stored_def in_flight_def active_def)

lemma active_same: "thief_pc s' = thief_pc s \<Longrightarrow> lock s' = lock s \<Longrightarrow> active s' = active s"
  unfolding active_def by (simp split: option.split agent.split)

lemma shared_invI:
  "length (elements (queue s)) = capacity k \<Longrightarrow> locks_ok s \<Longrightarrow> thief_ok s \<Longrightarrow> owner_ok k s \<Longrightarrow>
    low s \<le> high s \<Longrightarrow> high s \<le> low s + capacity k \<Longrightarrow> high s \<le> length (pushed s) \<Longrightarrow>
    mset (pushed s) = mset (pulled s) + mset (stored k s) + in_flight k s \<Longrightarrow> shared_inv k s"
  by (simp add: shared_inv_def)

subsection \<open>Steps of the owner\<close>

lemma owner_frame:
  assumes "owner_step k s s'" "locks_ok s"
  shows "active s' = active s" "low s' = low s" "head (queue s') = head (queue s)" "locks_ok s'"
    "length (elements (queue s')) = length (elements (queue s))"
proof -
  show 1: "active s' = active s"
    using assms(1)
  proof (cases rule: owner_step.cases)
    case (pull_take t b)
    show ?thesis
    proof (cases b)
      case True
      then have "lock s = Some Owner" using locks_okD(2) [OF assms(2)] pull_take(2) by simp
      then show ?thesis using True pull_take(1) by (simp add: active_def)
    next
      case False
      then show ?thesis using pull_take(1) by (intro active_same) simp_all
    qed
  next
    case (pull_restore t)
    then have "lock s = Some Owner" using locks_okD(2) [OF assms(2)] by simp
    then show ?thesis using pull_restore by (simp add: active_def)
  qed (simp_all add: active_def split: option.split agent.split)
  show 2: "head (queue s') = head (queue s)"
    and "length (elements (queue s')) = length (elements (queue s))"
    using assms(1) by (cases rule: owner_step.cases; simp)+
  show "low s' = low s" unfolding low_def 1 2 ..
  show "locks_ok s'"
    using assms(1)
  proof (cases rule: owner_step.cases)
    case (pull_lock t)
    then show ?thesis by (intro locks_ok_owner [OF assms(2)]) auto
  next
    case (pull_take t b)
    then have "b \<Longrightarrow> lock s = Some Owner" using locks_okD(2) [OF assms(2)] by simp
    then show ?thesis
      using pull_take locks_ok_owner [OF assms(2), of s'] locks_ok_same [OF assms(2), of s'] by (cases b) auto
  next
    case (pull_restore t)
    then have "lock s = Some Owner" using locks_okD(2) [OF assms(2)] by simp
    then show ?thesis using pull_restore by (intro locks_ok_owner [OF assms(2)]) auto
  qed (rule locks_ok_same [OF assms(2)]; simp)+
qed

lemma stored_snoc: "low s \<le> t \<Longrightarrow> high s = t + 1 \<Longrightarrow>
    mset (stored k s) = mset (map (cell k (elements (queue s))) [low s..<t]) + {#cell k (elements (queue s)) t#}"
  by (simp add: stored_def)

text \<open>A step that leaves the stored elements alone.\<close>

lemma owner_same:
  assumes inv: "shared_inv k s" and step: "owner_step k s s'"
    and same: "high s' = high s" "owner_ok k s'" "elements (queue s') = elements (queue s)"
      "pushed s' = pushed s" "pulled s' = pulled s" "in_flight k s = {#}" "in_flight k s' = {#}"
  shows "shared_inv k s'"
proof -
  note I = shared_invD [OF inv]
  note F = owner_frame [OF step I(2)]
  have "thief_ok s'" using I(3) unfolding thief_ok_def F(1,3) same(1) .
  then show ?thesis using same I(1,5-8) F(2,4,5) by (simp add: shared_inv_def stored_def)
qed

lemma head_bounds:
  assumes inv: "shared_inv k s" and hi: "high s + capacity k < 2 ^ 32"
  shows "low s + 1 < 2 ^ 32" "unat (head (queue s)) = low s \<or> unat (head (queue s)) = low s + 1"
proof -
  note I = shared_invD [OF inv]
  show lo: "low s + 1 < 2 ^ 32" using I(5) hi capacity_pos [of k] by linarith
  show "unat (head (queue s)) = low s \<or> unat (head (queue s)) = low s + 1" by (rule head_low [OF I(3) lo])
qed

text \<open>The owner has lowered the tail and sees that no thief can take the last element.\<close>

lemma owner_claim:
  assumes inv: "shared_inv k s" and step: "owner_step k s s'" and hi: "high s + capacity k < 2 ^ 32"
    and t: "high s = unat t + 1" "high s' = unat t" "head (queue s) \<le> t"
    and o: "owner_pc s' = O_take t b" "tail (queue s') = t" "elements (queue s') = elements (queue s)"
      "pushed s' = pushed s" "pulled s' = pulled s" "in_flight k s = {#}"
  shows "shared_inv k s'"
proof -
  note I = shared_invD [OF inv] and H = head_bounds [OF inv hi]
  note F = owner_frame [OF step I(2)]
  have h: "unat (head (queue s)) \<le> unat t" using t(3) by (simp add: word_le_nat_alt)
  then have l: "low s \<le> unat t" using H(2) by auto
  have "unat h < unat t" if "active s = T_take h" for h
  proof -
    have "head (queue s) = h + 1" "unat h = low s" using I(3) that by (auto simp: thief_ok_def low_def)
    then show ?thesis using h H(1) by (simp add: unat_suc)
  qed
  then have "thief_ok s'" using I(3) t(2) by (auto simp: thief_ok_def F(1,3) split: thief_pc.splits)
  moreover have "mset (pushed s') = mset (pulled s') + mset (stored k s') + in_flight k s'"
    using I(8) o stored_snoc [OF l t(1), of k] t(2) by (simp add: stored_def F(2) in_flight_def)
  moreover have "owner_ok k s'" using o by (simp add: owner_ok_def)
  ultimately show ?thesis using F(2,4,5) I(1,5-7) l t o by (simp add: shared_inv_def)
qed

lemma room_left:
  assumes inv: "shared_inv k s" and hi: "high s + capacity k < 2 ^ 32" and k: "k < 32" and t: "t < head (queue s) + ring_mask k"
  shows "unat t < low s + capacity k"
proof -
  note H = head_bounds [OF inv hi]
  have "unat (head (queue s)) + (capacity k - 1) < 2 ^ 32"
    using H(2) shared_invD(5) [OF inv] hi capacity_pos [of k] by linarith
  then have "unat (head (queue s) + ring_mask k) = unat (head (queue s)) + (capacity k - 1)"
    by (simp add: unat_word_ariths unat_ring_mask [OF k])
  then show ?thesis using t H(2) capacity_pos [of k] by (auto simp: word_less_nat_alt)
qed

lemmas owner_defs = high_def in_flight_def owner_ok_def

text \<open>Writing the element, then publishing it.\<close>

lemma push_write_inv:
  assumes inv: "shared_inv k s" and step: "owner_step k s s'" and pc: "owner_pc s = O_write x t"
    and s': "s' = s\<lparr>owner_pc := O_publish x t, queue := (queue s)\<lparr>elements := (elements (queue s))[slot k t := x]\<rparr>\<rparr>"
  shows "shared_inv k s'"
proof -
  note I = shared_invD [OF inv]
  note F = owner_frame [OF step I(2)]
  have t: "tail (queue s) = t" "unat t < low s + capacity k" "high s = unat t" using I(4) pc by (auto simp: owner_defs)
  have st: "stored k s' = stored k s"
    unfolding stored_def F(2) using s' pc t I(5) by (auto simp: owner_defs slot_mod intro!: cell_upd)
  have x: "cell k (elements (queue s')) (unat t) = x" using s' I(1) by (simp add: slot_mod cell_same)
  have h: "high s' = high s" using s' t by (simp add: owner_defs)
  have "thief_ok s'" using I(3) unfolding thief_ok_def F(1,3) h .
  moreover have "owner_ok k s'" using s' t x F(2) by (simp add: owner_ok_def)
  moreover have "pushed s' = pushed s" "pulled s' = pulled s" "in_flight k s' = {#}" "in_flight k s = {#}"
    using s' pc by (simp_all add: owner_defs)
  ultimately show ?thesis
    using I(1,5-8) F(5) by (intro shared_invI [OF _ F(4)]) (simp_all only: F(2) h st)
qed

lemma push_store_inv:
  assumes inv: "shared_inv k s" and step: "owner_step k s s'" and hi: "high s + capacity k < 2 ^ 32" and pc: "owner_pc s = O_publish x t"
    and s': "s' = s\<lparr>owner_pc := O_idle, queue := (queue s)\<lparr>tail := t + 1\<rparr>, pushed := pushed s @ [x], owner_results := r\<rparr>"
  shows "shared_inv k s'"
proof -
  note I = shared_invD [OF inv]
  note F = owner_frame [OF step I(2)]
  have t: "tail (queue s) = t" "unat t < low s + capacity k" "high s = unat t" "cell k (elements (queue s)) (unat t) = x"
    using I(4) pc by (auto simp: owner_defs)
  have "unat (t + 1) = unat t + 1" using hi t(3) capacity_pos [of k] by (intro unat_suc) linarith
  then have h: "high s' = unat t + 1" using s' by (simp add: owner_defs)
  have "thief_ok s'" using I(3) unfolding thief_ok_def F(1,3) h t(3) by (auto split: thief_pc.splits)
  moreover have "mset (stored k s') = mset (stored k s) + {#x#}"
    unfolding stored_def F(2) h t(3) using I(5) t(3,4) s' by simp
  moreover have "pushed s' = pushed s @ [x]" "pulled s' = pulled s" "in_flight k s' = {#}" "in_flight k s = {#}" "owner_ok k s'"
    using s' pc by (simp_all add: owner_defs)
  ultimately show ?thesis
    using I(1,5-8) F(5) t(2,3) by (intro shared_invI [OF _ F(4)]) (simp_all add: F(2) h)
qed

lemma pull_take_inv:
  assumes inv: "shared_inv k s" and step: "owner_step k s s'" and pc: "owner_pc s = O_take t b"
    and s': "s' = s\<lparr>owner_pc := O_idle, lock := l, pulled := pulled s @ [elements (queue s) ! slot k t], owner_results := r\<rparr>"
  shows "shared_inv k s'"
proof -
  note I = shared_invD [OF inv]
  note F = owner_frame [OF step I(2)]
  have h: "high s' = high s" using s' pc I(4) by (auto simp: owner_defs)
  have "thief_ok s'" using I(3) unfolding thief_ok_def F(1,3) h .
  moreover have "queue s' = queue s" using s' by simp
  then have "stored k s' = stored k s" unfolding stored_def F(2) h by simp
  moreover have "pushed s' = pushed s" "pulled s' = pulled s @ [cell k (elements (queue s)) (unat t)]"
    "in_flight k s' = {#}" "in_flight k s = {#cell k (elements (queue s)) (unat t)#}" "owner_ok k s'"
    using s' pc by (simp_all add: owner_defs nth_slot)
  ultimately show ?thesis
    using I(1,5-8) F(5) by (intro shared_invI [OF _ F(4)]) (simp_all add: F(2) h)
qed

lemma owner_inv:
  assumes inv: "shared_inv k s" and step: "owner_step k s s'" and k: "k < 32"
    and wrap: "length (pushed s') + capacity k < 2 ^ 32"
  shows "shared_inv k s'"
proof -
  note I = shared_invD [OF inv]
  have "length (pushed s) \<le> length (pushed s')" using step by (cases rule: owner_step.cases) auto
  then have hi: "high s + capacity k < 2 ^ 32" using I(7) wrap by linarith
  note same = owner_same [OF inv step] and claim = owner_claim [OF inv step hi] and D = owner_defs
  note F = owner_frame [OF step I(2)]
  from step show ?thesis
  proof (cases rule: owner_step.cases)
    case (push_room x t)
    have "owner_ok k s'"
      using I(4) push_room(2) room_left [OF inv hi k push_room(3)] unfolding owner_ok_def F(2) by (simp add: push_room(1))
    then show ?thesis using push_room by (intro same) (auto simp: D)
  next
    case (push_write x t)
    then show ?thesis by (intro push_write_inv [OF inv step])
  next
    case (push_store x t)
    then show ?thesis by (intro push_store_inv [OF inv step hi])
  next
    case (pull_some t)
    then have pos: "0 < unat t" by (simp add: word_le_nat_alt)
    then have "t \<noteq> 0" by auto
    then have t: "unat (t - 1) + 1 = unat t" using unat_minus_one [of t] pos by simp
    have "tail (queue s) = t" using I(4) pull_some(2) by (simp add: D)
    then have "owner_ok k s'" using t pull_some(1) by (simp add: owner_ok_def)
    then show ?thesis using pull_some by (intro same) (simp_all add: D)
  next
    case (pull_won t)
    then show ?thesis using I(4) by (intro claim [of t False]) (auto simp: D)
  next
    case (pull_won_locked t)
    then show ?thesis using I(4) by (intro claim [of t True]) (auto simp: D)
  next
    case (pull_take t b)
    then show ?thesis by (intro pull_take_inv [OF inv step])
  next
    case (pull_restore t)
    have "high s = unat t + 1" using pull_restore by (simp add: D)
    then have "unat (t + 1) = unat t + 1" using hi capacity_pos [of k] by (intro unat_suc) linarith
    then show ?thesis using pull_restore I(4) by (intro same) (auto simp: D)
  qed (use I(4) in \<open>intro same; auto simp: D\<close>)+
qed

subsection \<open>Steps of a thief\<close>

lemma thief_same:
  assumes inv: "shared_inv k s"
    and s': "elements (queue s') = elements (queue s)" "tail (queue s') = tail (queue s)" "owner_pc s' = owner_pc s"
      "pushed s' = pushed s" "pulled s' = pulled s" "low s' = low s" "locks_ok s'" "thief_ok s'"
  shows "shared_inv k s'"
proof -
  note I = shared_invD [OF inv]
  have "high s' = high s" "in_flight k s' = in_flight k s" "stored k s' = stored k s"
    unfolding high_def in_flight_def stored_def s' by simp_all
  moreover have "owner_ok k s'" using I(4) unfolding owner_ok_def s' .
  ultimately show ?thesis using I s' by (simp add: shared_inv_def)
qed

lemma thief_bounds:
  assumes inv: "shared_inv k s" and wrap: "length (pushed s) + capacity k < 2 ^ 32"
  shows "low s + 1 < 2 ^ 32" "unat (tail (queue s)) \<le> high s"
proof -
  note I = shared_invD [OF inv]
  show "low s + 1 < 2 ^ 32" using I(5,7) wrap capacity_pos [of k] by linarith
  show "unat (tail (queue s)) \<le> high s" using I(4) by (auto simp: high_def owner_ok_def split: owner_pc.splits)
qed

text \<open>The thief's last step, when it has found an element.\<close>

lemma thief_take_inv:
  assumes inv: "shared_inv k s" and take: "s' = set_thief i T_idle s\<lparr>lock := None, pulled := pulled s @ [elements (queue s) ! slot k h],
      thief_results := thief_results s @ [(i, Some (elements (queue s) ! slot k h))]\<rparr>" "thief_pc s i = T_take h"
    and wrap: "length (pushed s) + capacity k < 2 ^ 32"
  shows "shared_inv k s'"
proof -
  note I = shared_invD [OF inv] and lo = thief_bounds(1) [OF inv wrap] and A = active_idle [OF I(2)]
  note a = A [of i]
  have l: "locks_ok s'" by (rule locks_ok_thief [OF I(2), of _ i T_idle]) (use take a in \<open>simp_all add: set_thief_def\<close>)
  have act: "active s = T_take h" using a take by simp
  then have h: "head (queue s) = h + 1" "unat h < high s" "low s = unat h"
    using I(3) by (auto simp: thief_ok_def low_def)
  have low': "low s' = unat h + 1"
    using take h lo by (simp add: low_def active_def set_thief_def unat_suc)
  have hi': "high s' = high s" "in_flight k s' = in_flight k s"
    using take by (simp_all add: high_def in_flight_def set_thief_def split: owner_pc.split)
  have "[low s..<high s] = low s # [low s + 1..<high s]" using h by (simp add: upt_conv_Cons)
  moreover have q: "queue s' = queue s" "owner_pc s' = owner_pc s" "pushed s' = pushed s"
    "pulled s' = pulled s @ [cell k (elements (queue s)) (unat h)]"
    using take(1) by (simp_all add: set_thief_def nth_slot)
  ultimately have "mset (stored k s) = {#cell k (elements (queue s)) (unat h)#} + mset (stored k s')"
    by (simp add: stored_def hi' low' h(3))
  moreover have "owner_ok k s'" using I(4) low' h(3) unfolding owner_ok_def q(1,2)
    by (auto split: owner_pc.splits)
  moreover have "thief_ok s'" using take by (simp add: thief_ok_def active_def set_thief_def)
  ultimately show ?thesis
    using I(1,5-8) l h low' hi' by (intro shared_invI) (simp_all add: q)
qed

lemma thief_inv:
  assumes inv: "shared_inv k s" and step: "thief_step k i s s'"
    and wrap: "length (pushed s) + capacity k < 2 ^ 32"
  shows "shared_inv k s'"
proof -
  note I = shared_invD [OF inv]
  note tail = thief_bounds(2) [OF inv wrap]
  note A = active_idle [OF I(2)]
  from step show ?thesis
  proof (cases rule: thief_step.cases)
    case lock
    have "locks_ok s'" by (rule locks_ok_thief [OF I(2), of _ i T_locked]) (use lock in \<open>simp_all add: set_thief_def\<close>)
    then show ?thesis
      using lock by (intro thief_same [OF inv]) (auto simp: set_thief_def low_def thief_ok_def active_def)
  next
    case load
    note a = A [of i]
    have "locks_ok s'" by (rule locks_ok_thief [OF I(2), of _ i "T_loaded (head (queue s))"]) (use load a in \<open>simp_all add: set_thief_def\<close>)
    then show ?thesis
      using load a by (intro thief_same [OF inv]) (auto simp: set_thief_def low_def thief_ok_def active_def)
  next
    case (store h)
    note a = A [of i]
    have "locks_ok s'" by (rule locks_ok_thief [OF I(2), of _ i "T_stored h"]) (use store a in \<open>simp_all add: set_thief_def\<close>)
    then show ?thesis
      using store a I(3) by (intro thief_same [OF inv]) (auto simp: set_thief_def low_def thief_ok_def active_def)
  next
    case (won h)
    note a = A [of i]
    have "locks_ok s'" by (rule locks_ok_thief [OF I(2), of _ i "T_take h"]) (use won a in \<open>simp_all add: set_thief_def\<close>)
    moreover have "unat h < high s" using won(3) tail by (simp add: word_less_nat_alt)
    moreover have "high s' = high s" using won(1) by (simp add: high_def set_thief_def split: owner_pc.split)
    ultimately have "thief_ok s'" using won(1,2) a I(3) by (simp add: thief_ok_def active_def set_thief_def)
    then show ?thesis
      using won a \<open>locks_ok s'\<close> by (intro thief_same [OF inv]) (auto simp: set_thief_def low_def active_def)
  next
    case (lost h)
    note a = A [of i]
    have "locks_ok s'" by (rule locks_ok_thief [OF I(2), of _ i "T_restore h"]) (use lost a in \<open>simp_all add: set_thief_def\<close>)
    then show ?thesis
      using lost a I(3) by (intro thief_same [OF inv]) (auto simp: set_thief_def low_def thief_ok_def active_def)
  next
    case (take h)
    show ?thesis by (rule thief_take_inv [OF inv take wrap])
  next
    case (restore h)
    note a = A [of i]
    have "locks_ok s'" by (rule locks_ok_thief [OF I(2), of _ i T_idle]) (use restore a in \<open>simp_all add: set_thief_def\<close>)
    then show ?thesis
      using restore a I(3) by (intro thief_same [OF inv]) (auto simp: set_thief_def low_def thief_ok_def active_def)
  qed
qed

lemma shared_run_inv:
  "shared_run k s \<Longrightarrow> k < 32 \<Longrightarrow> length (pushed s) + capacity k < 2 ^ 32 \<Longrightarrow> shared_inv k s"
proof (induction rule: shared_run.induct)
  case (init es)
  then show ?case by (simp add: start_inv)
next
  case (step s s')
  have "length (pushed s) \<le> length (pushed s')"
    using step.hyps(2) by (auto simp: shared_step_def set_thief_def elim!: owner_step.cases thief_step.cases)
  then have inv: "shared_inv k s" and less: "length (pushed s) + capacity k < 2 ^ 32"
    using step.IH step.prems by auto
  from step.hyps(2) show ?case
    unfolding shared_step_def using owner_inv [OF inv _ step.prems] thief_inv [OF inv _ less] by blast
qed

subsection \<open>Properties\<close>

text \<open>Whatever the interleaving of the owner and the thieves, no element is lost and none is
  handed out twice, until \<open>2 ^ 32 - 2 ^ k\<close> elements have been pushed: what was pushed is what
  was pulled together with a rest, and when nobody is inside a call that rest is the content
  of the queue.\<close>

theorem wsq_no_loss_no_duplicate:
  assumes run: "shared_run k s" and k: "k < 32" and few: "length (pushed s) + 2 ^ k < 2 ^ 32"
  shows "\<exists>rest. mset (pushed s) = mset (pulled s) + mset rest \<and>
    (owner_pc s = O_idle \<and> (\<forall>i. thief_pc s i = T_idle) \<longrightarrow> rest = contents k (queue s))"
proof -
  have inv: "shared_inv k s" by (rule shared_run_inv [OF run k]) (use few in \<open>simp add: capacity_def\<close>)
  note I = shared_invD [OF inv]
  show ?thesis
  proof (cases "owner_pc s = O_idle \<and> (\<forall>i. thief_pc s i = T_idle)")
    case True
    have "active s = T_idle" using True by (simp add: active_def split: option.split agent.split)
    then have "stored k s = contents k (queue s)" "in_flight k s = {#}"
      using True by (simp_all add: stored_def contents_def low_def high_def in_flight_def)
    then show ?thesis using I(8) by (intro exI [of _ "stored k s"]) simp
  next
    case False
    obtain r where "mset r = mset (stored k s) + in_flight k s" using ex_mset by blast
    then have "mset (pushed s) = mset (pulled s) + mset r" using I(8) by (simp add: add.assoc)
    then show ?thesis using False by blast
  qed
qed


text \<open>A run in which the owner has pushed one element, a thief has won it and the owner is about
  to write the next.\<close>

lemma own: "shared_run k s \<Longrightarrow> owner_step k s s' \<Longrightarrow> shared_run k s'"
  by (rule shared_run.step) (auto simp: shared_step_def)

lemma thf: "shared_run k s \<Longrightarrow> thief_step k i s s' \<Longrightarrow> shared_run k s'"
  by (rule shared_run.step) (auto simp: shared_step_def)

lemma example_pushed:
  "shared_run 1 \<lparr>queue = \<lparr>elements = [5 :: nat, 0], head = 0, tail = 1\<rparr>, lock = None, owner_pc = O_idle,
     thief_pc = \<lambda>_. T_idle, pushed = [5], pulled = [], owner_results = [Pushed 5 True], thief_results = []\<rparr>"
proof -
  let ?s = "\<lambda>es t pc ps. \<lparr>queue = \<lparr>elements = es, head = 0, tail = t\<rparr>, lock = None, owner_pc = pc,
     thief_pc = \<lambda>_. T_idle, pushed = ps, pulled = [] :: nat list, owner_results = map (\<lambda>x. Pushed x True) ps,
     thief_results = []\<rparr>"
  have 0: "shared_run 1 (?s [0, 0] 0 O_idle [])"
    using shared_run.init [of "[0 :: nat, 0]" 1] by (simp add: start_shared_def new_queue_def capacity_def)
  have 1: "shared_run 1 (?s [0, 0] 0 (O_push 5 0) [])"
    using own [OF 0 owner_step.push_load [where x = 5]] by simp
  have 2: "shared_run 1 (?s [0, 0] 0 (O_write 5 0) [])"
    using own [OF 1 owner_step.push_room [where x = 5 and t = 0]] by (simp add: ring_mask_def capacity_def)
  have 3: "shared_run 1 (?s [5, 0] 0 (O_publish 5 0) [])"
    using own [OF 2 owner_step.push_write [where x = 5 and t = 0]] by (simp add: slot_def)
  show ?thesis using own [OF 3 owner_step.push_store [where x = 5 and t = 0]] by simp
qed

lemma example_racing:
  "shared_run 1 \<lparr>queue = \<lparr>elements = [5 :: nat, 0], head = 1, tail = 1\<rparr>, lock = Some (Thief 3),
     owner_pc = O_write 6 1, thief_pc = (\<lambda>_. T_idle)(3 := T_take 0), pushed = [5], pulled = [],
     owner_results = [Pushed 5 True], thief_results = []\<rparr>"
proof -
  let ?s = "\<lambda>h l pc tp. \<lparr>queue = \<lparr>elements = [5 :: nat, 0], head = h, tail = 1\<rparr>, lock = l, owner_pc = pc,
     thief_pc = (\<lambda>_. T_idle)(3 := tp), pushed = [5], pulled = [],
     owner_results = [Pushed 5 True], thief_results = []\<rparr>"
  have 0: "shared_run 1 (?s 0 None O_idle T_idle)" using example_pushed by (simp add: fun_upd_idem)
  have 1: "shared_run 1 (?s 0 (Some (Thief 3)) O_idle T_locked)"
    using thf [OF 0 thief_step.lock [where i = 3]] by (simp add: set_thief_def)
  have 2: "shared_run 1 (?s 0 (Some (Thief 3)) O_idle (T_loaded 0))"
    using thf [OF 1 thief_step.load [where i = 3]] by (simp add: set_thief_def)
  have 3: "shared_run 1 (?s 1 (Some (Thief 3)) O_idle (T_stored 0))"
    using thf [OF 2 thief_step.store [where i = 3 and h = 0]] by (simp add: set_thief_def)
  have 4: "shared_run 1 (?s 1 (Some (Thief 3)) O_idle (T_take 0))"
    using thf [OF 3 thief_step.won [where i = 3 and h = 0]] by (simp add: set_thief_def)
  have 5: "shared_run 1 (?s 1 (Some (Thief 3)) (O_push 6 1) (T_take 0))"
    using own [OF 4 owner_step.push_load [where x = 6]] by simp
  show ?thesis
    using own [OF 5 owner_step.push_room [where x = 6 and t = 1]] by (simp add: ring_mask_def capacity_def)
qed

theorem wsq_no_loss_no_duplicate_witness:
  "\<exists>rest. mset [5 :: nat] = mset [] + mset rest \<and> rest = contents 1 \<lparr>elements = [5, 0], head = 0, tail = 1\<rparr>"
  using wsq_no_loss_no_duplicate [OF example_pushed] by simp


end
