(* ===== verification/Work_Stealing_Refine.thy ===== *)
theory Work_Stealing_Refine
  imports Work_Stealing_Steps "HOL-Library.Sublist"
begin

text \<open>
  What the loads and stores of the work-stealing queue amount to: a deque whose operations take
  effect at one moment each. A thief's attempt shows in the deque as two or three such
  moments, for the owner may find nothing while a thief has raised the head. The abstraction
  function gives the deque of each state of \<open>Work_Stealing_Steps\<close>; every step is a step of the deque
  or leaves it as it is.
\<close>

subsection \<open>The deque\<close>

datatype probing = No_probe | Raised nat | Lost nat

record 'a deque =
  items :: "'a list"
  probing :: probing
  owner_out :: "'a result list"
  thief_out :: "(nat \<times> 'a option) list"

definition new_deque :: "'a deque" where
  "new_deque = \<lparr>items = [], probing = No_probe, owner_out = [], thief_out = []\<rparr>"

inductive deque_step :: "nat \<Rightarrow> 'a deque \<Rightarrow> 'a deque \<Rightarrow> bool" for k where
  push: "length (items d) < capacity k \<Longrightarrow>
    deque_step k d (d\<lparr>items := items d @ [x], owner_out := owner_out d @ [Pushed x True]\<rparr>)"
| refuse: "length (items d) \<ge> capacity k - 1 \<Longrightarrow>
    deque_step k d (d\<lparr>owner_out := owner_out d @ [Pushed x False]\<rparr>)"
| pull: "items d = xs @ [x] \<Longrightarrow> deque_step k d (d\<lparr>items := xs, owner_out := owner_out d @ [Got (Some x)]\<rparr>)"
| miss: "length (items d) \<le> (if probing d = No_probe then 0 else 1) \<Longrightarrow>
    deque_step k d (d\<lparr>owner_out := owner_out d @ [Got None]\<rparr>)"
| raise_head: "probing d = No_probe \<Longrightarrow> deque_step k d (d\<lparr>probing := Raised i\<rparr>)"
| win: "probing d = Raised i \<Longrightarrow> items d = x # xs \<Longrightarrow>
    deque_step k d (d\<lparr>probing := No_probe, items := xs, thief_out := thief_out d @ [(i, Some x)]\<rparr>)"
| lose: "probing d = Raised i \<Longrightarrow> items d = [] \<Longrightarrow> deque_step k d (d\<lparr>probing := Lost i\<rparr>)"
| lower: "probing d = Lost i \<Longrightarrow>
    deque_step k d (d\<lparr>probing := No_probe, thief_out := thief_out d @ [(i, None)]\<rparr>)"

inductive deque_run :: "nat \<Rightarrow> 'a deque \<Rightarrow> bool" for k where
  init: "deque_run k new_deque"
| step: "deque_run k d \<Longrightarrow> deque_step k d d' \<Longrightarrow> deque_run k d'"

text \<open>What is pushed is stolen in the same order: what the thieves got, followed by what is in the deque,
  is a subsequence of what was pushed.\<close>

definition pushes_of :: "'a result list \<Rightarrow> 'a list" where
  "pushes_of rs = List.map_filter (\<lambda>r. case r of Pushed x ok \<Rightarrow> if ok then Some x else None | Got y \<Rightarrow> None) rs"

definition pulls_of :: "'a result list \<Rightarrow> 'a list" where
  "pulls_of rs = List.map_filter (\<lambda>r. case r of Pushed x ok \<Rightarrow> None | Got y \<Rightarrow> y) rs"

definition steals_of :: "(nat \<times> 'a option) list \<Rightarrow> 'a list" where
  "steals_of rs = List.map_filter snd rs"

lemma results_simps [simp]:
  "pushes_of [] = []" "pushes_of (rs @ [Pushed x True]) = pushes_of rs @ [x]"
  "pushes_of (rs @ [Pushed x False]) = pushes_of rs" "pushes_of (rs @ [Got y]) = pushes_of rs"
  "pulls_of [] = []" "pulls_of (rs @ [Pushed x b]) = pulls_of rs"
  "pulls_of (rs @ [Got None]) = pulls_of rs" "pulls_of (rs @ [Got (Some x)]) = pulls_of rs @ [x]"
  "steals_of [] = []" "steals_of (ts @ [(i, None)]) = steals_of ts" "steals_of (ts @ [(i, Some x)]) = steals_of ts @ [x]"
  by (simp_all add: pushes_of_def pulls_of_def steals_of_def map_filter_def)

lemma deque_run_results:
  "deque_run k d \<Longrightarrow> subseq (steals_of (thief_out d) @ items d) (pushes_of (owner_out d)) \<and>
     mset (pushes_of (owner_out d)) = mset (pulls_of (owner_out d)) + mset (steals_of (thief_out d)) + mset (items d)"
proof (induction rule: deque_run.induct)
  case init
  then show ?case by (simp add: new_deque_def)
next
  case (step d d')
  have drop: "subseq ys zs" if "subseq (ys @ [x]) zs" for ys zs and x :: 'a
    by (rule subseq_order.trans [OF list_emb_prefix that]) simp
  from step.hyps(2) step.IH show ?case
  proof cases
    case (push x)
    then show ?thesis using step.IH list_emb_append_mono [of "(=)" _ _ "[x]" "[x]"] by fastforce
  next
    case (pull xs x)
    then show ?thesis using step.IH drop [of "steals_of (thief_out d) @ xs" x] by simp
  qed simp_all
qed

subsection \<open>The deque of a state\<close>

text \<open>A thief that has seen the tail above its index has taken the element, and an owner that has
  stored the decremented tail has, unless a thief took it before.\<close>

definition front :: "'a shared \<Rightarrow> nat" where
  "front s = (case active s of T_stored h \<Rightarrow> unat h | T_take h \<Rightarrow> unat h + 1 | T_restore h \<Rightarrow> unat h
     | _ \<Rightarrow> unat (head (queue s)))"

fun claiming :: "'a owner_pc \<Rightarrow> 32 word option" where
  "claiming (O_check t) = Some t"
| "claiming (O_wait t) = Some t"
| "claiming (O_locked t) = Some t"
| "claiming _ = None"

definition rear :: "'a shared \<Rightarrow> nat" where
  "rear s = (case claiming (owner_pc s) of
       Some t \<Rightarrow> if front s \<le> unat t then unat t else unat t + 1
     | None \<Rightarrow> (case owner_pc s of O_restore t \<Rightarrow> unat t + 1 | _ \<Rightarrow> unat (tail (queue s))))"

definition owner_due :: "nat \<Rightarrow> 'a shared \<Rightarrow> 'a result list" where
  "owner_due k s = (case claiming (owner_pc s) of
       Some t \<Rightarrow> [Got (if front s \<le> unat t then Some (cell k (elements (queue s)) (unat t)) else None)]
     | None \<Rightarrow> (case owner_pc s of
          O_take t b \<Rightarrow> [Got (Some (cell k (elements (queue s)) (unat t)))]
        | O_restore t \<Rightarrow> [Got None]
        | _ \<Rightarrow> []))"

definition thief_due :: "nat \<Rightarrow> 'a shared \<Rightarrow> (nat \<times> 'a option) list" where
  "thief_due k s = (case lock s of
       Some (Thief i) \<Rightarrow> (case thief_pc s i of T_take h \<Rightarrow> [(i, Some (cell k (elements (queue s)) (unat h)))] | _ \<Rightarrow> [])
     | _ \<Rightarrow> [])"

definition probe_of :: "'a shared \<Rightarrow> probing" where
  "probe_of s = (case lock s of
       Some (Thief i) \<Rightarrow> (case thief_pc s i of T_stored h \<Rightarrow> Raised i | T_restore h \<Rightarrow> Lost i | _ \<Rightarrow> No_probe)
     | _ \<Rightarrow> No_probe)"

definition live :: "nat \<Rightarrow> 'a shared \<Rightarrow> 'a list" where
  "live k s = map (cell k (elements (queue s))) [front s..<rear s]"

definition deque_of :: "nat \<Rightarrow> 'a shared \<Rightarrow> 'a deque" where
  "deque_of k s = \<lparr>items = live k s, probing = probe_of s, owner_out = owner_results s @ owner_due k s,
     thief_out = thief_results s @ thief_due k s\<rparr>"

subsection \<open>Every step is one of the deque, or none\<close>

text \<open>The head is one further than the front exactly while a thief has raised it in vain or has not yet
  looked at the tail.\<close>

lemma head_front:
  assumes inv: "shared_inv k s" and lo: "low s + 1 < 2 ^ 32"
  shows "unat (head (queue s)) = front s + (if probe_of s = No_probe then 0 else 1)"
    "low s \<le> front s" "front s \<le> high s"
proof -
  note I = shared_invD [OF inv]
  have idle: "active s = T_idle \<longleftrightarrow> (\<forall>i. lock s \<noteq> Some (Thief i))"
    using locks_okD(1) [OF I(2)] by (auto simp: active_def split: option.split agent.split)
  show "unat (head (queue s)) = front s + (if probe_of s = No_probe then 0 else 1)"
    "low s \<le> front s" "front s \<le> high s"
    using I(3,5) lo
    by (auto simp: thief_ok_def front_def low_def probe_of_def active_def unat_suc
        split: option.splits agent.splits thief_pc.splits)
qed

lemma deque_of_same:
  assumes "live k s' = live k s" "probe_of s' = probe_of s" "owner_results s' @ owner_due k s' = owner_results s @ owner_due k s"
    "thief_results s' @ thief_due k s' = thief_results s @ thief_due k s"
  shows "deque_of k s' = deque_of k s"
  using assms by (simp add: deque_of_def)

text \<open>A step of the owner does not touch the side of the thieves.\<close>

lemma owner_thief_side:
  assumes step: "owner_step k s s'" and locks: "locks_ok s"
  shows "probe_of s' = probe_of s" "thief_results s' = thief_results s" "front s' = front s"
    "elements (queue s') = elements (queue s) \<Longrightarrow> thief_due k s' = thief_due k s"
proof -
  note F = owner_frame [OF step locks]
  show "front s' = front s" unfolding front_def F(1,3) ..
  have lock: "lock s' = lock s \<or> (lock s' \<in> {None, Some Owner} \<and> lock s \<in> {None, Some Owner})"
    using step locks_okD(2) [OF locks] by (cases rule: owner_step.cases) auto
  have pcs: "thief_pc s' = thief_pc s" "thief_results s' = thief_results s"
    using step by (cases rule: owner_step.cases; simp)+
  then show "thief_results s' = thief_results s" by blast
  show "probe_of s' = probe_of s" using lock unfolding probe_of_def pcs(1) by auto
  show "thief_due k s' = thief_due k s" if "elements (queue s') = elements (queue s)"
    using lock unfolding thief_due_def pcs(1) that by auto
qed

text \<open>A step that changes nothing in the deque, and one that completes a call.\<close>

lemma owner_stay:
  assumes "shared_inv k s" "owner_step k s s'"
    and "elements (queue s') = elements (queue s)" "rear s' = rear s"
      "owner_results s' @ owner_due k s' = owner_results s @ owner_due k s"
  shows "deque_of k s' = deque_of k s"
  using assms(3-5) owner_thief_side [OF assms(2) shared_invD(2) [OF assms(1)]] deque_of_same [of k s' s] by (simp add: live_def)

lemma owner_emit:
  assumes "shared_inv k s" "owner_step k s s'"
    and "elements (queue s') = elements (queue s)" "owner_results s' @ owner_due k s' = owner_results s @ owner_due k s @ [r]"
  shows "deque_of k s' = deque_of k s\<lparr>items := live k s', owner_out := owner_out (deque_of k s) @ [r]\<rparr>"
  using assms(3,4) owner_thief_side [OF assms(2) shared_invD(2) [OF assms(1)]] by (simp add: deque_of_def)

lemmas owner_side_defs = rear_def owner_due_def owner_ok_def high_def

lemma push_full_sim:
  assumes inv: "shared_inv k s" and step: "owner_step k s s'" and k: "k < 32" and hi: "high s + capacity k < 2 ^ 32"
    and pc: "owner_pc s = O_push x t" and full: "\<not> t < head (queue s) + ring_mask k"
    and s': "s' = s\<lparr>owner_pc := O_idle, owner_results := owner_results s @ [Pushed x False]\<rparr>"
  shows "deque_step k (deque_of k s) (deque_of k s')"
proof -
  note D = owner_side_defs and T = owner_thief_side [OF step shared_invD(2) [OF inv]]
  note H = head_front [OF inv head_bounds(1) [OF inv hi]]
  have t: "tail (queue s) = t" using shared_invD(4) [OF inv] pc by (simp add: D)
  have "unat (head (queue s)) \<le> front s + 1" using H(1) by simp
  then have "unat (head (queue s)) + (capacity k - 1) < 2 ^ 32" using H(3) hi capacity_pos [of k] by linarith
  then have "unat (head (queue s) + ring_mask k) = unat (head (queue s)) + (capacity k - 1)"
    by (simp add: unat_word_ariths unat_ring_mask [OF k])
  then have "capacity k - 1 \<le> unat t - front s"
    using full H(1) by (auto simp: word_less_nat_alt split: if_splits)
  then have "capacity k - 1 \<le> length (items (deque_of k s))"
    using pc t by (simp add: deque_of_def live_def D)
  from deque_step.refuse [OF this, of x] show ?thesis
    using owner_emit [OF inv step, of "Pushed x False"] pc s' T(3) by (simp add: D live_def deque_of_def)
qed

lemma push_write_sim:
  assumes inv: "shared_inv k s" and step: "owner_step k s s'" and hi: "high s + capacity k < 2 ^ 32" and pc: "owner_pc s = O_write x t"
    and s': "s' = s\<lparr>owner_pc := O_publish x t, queue := (queue s)\<lparr>elements := (elements (queue s))[slot k t := x]\<rparr>\<rparr>"
  shows "deque_of k s' = deque_of k s"
proof -
  note I = shared_invD [OF inv] and D = owner_side_defs and T = owner_thief_side [OF step shared_invD(2) [OF inv]]
  note H = head_front [OF inv head_bounds(1) [OF inv hi]]
  have t: "tail (queue s) = t" "unat t < low s + capacity k" "high s = unat t" "rear s = unat t"
    using I(4) pc by (auto simp: D)
  have cells: "cell k (elements (queue s')) j = cell k (elements (queue s)) j" if "low s \<le> j" "j < unat t" for j
    using s' t that by (auto simp: slot_mod intro!: cell_upd)
  have "live k s' = live k s" unfolding live_def T(3)
    using cells H(2) t(4) pc s' t(1) by (auto simp: D)
  moreover have "thief_due k s' = thief_due k s"
  proof (cases "\<exists>i h. lock s = Some (Thief i) \<and> thief_pc s i = T_take h")
    case True
    then obtain i h where *: "lock s = Some (Thief i)" "thief_pc s i = T_take h" by blast
    then have "unat h = low s" "unat h < high s" using I(3) by (auto simp: thief_ok_def low_def active_def)
    then show ?thesis using * cells [of "unat h"] t(3) s' by (simp add: thief_due_def)
  next
    case False
    then show ?thesis using s' by (auto simp: thief_due_def split: option.split agent.split thief_pc.split)
  qed
  ultimately show ?thesis using pc s' T deque_of_same [of k s' s] by (simp add: D)
qed

lemma push_store_sim:
  assumes inv: "shared_inv k s" and step: "owner_step k s s'" and hi: "high s + capacity k < 2 ^ 32" and pc: "owner_pc s = O_publish x t"
    and s': "s' = s\<lparr>owner_pc := O_idle, queue := (queue s)\<lparr>tail := t + 1\<rparr>, pushed := pushed s @ [x],
      owner_results := owner_results s @ [Pushed x True]\<rparr>"
  shows "deque_step k (deque_of k s) (deque_of k s')"
proof -
  note I = shared_invD [OF inv] and D = owner_side_defs and T = owner_thief_side [OF step shared_invD(2) [OF inv]]
  note H = head_front [OF inv head_bounds(1) [OF inv hi]]
  have t: "tail (queue s) = t" "unat t < low s + capacity k" "rear s = unat t"
    "cell k (elements (queue s)) (unat t) = x" "high s = unat t"
    using I(4) pc by (auto simp: D)
  have "unat (t + 1) = unat t + 1" using hi t(5) capacity_pos [of k] by (intro unat_suc) linarith
  then have rear: "rear s' = unat t + 1" using s' by (simp add: D)
  have "live k s' = live k s @ [x]"
    unfolding live_def T(3) rear t(3) using s' t(4,5) H(3) by simp
  moreover have "unat t - front s < capacity k" using t(2) H(2) capacity_pos [of k] by linarith
  then have "length (items (deque_of k s)) < capacity k" using t(3) by (simp add: deque_of_def live_def)
  ultimately show ?thesis
    using deque_step.push [of "deque_of k s" k x] owner_emit [OF inv step, of "Pushed x True"] pc s' by (simp add: D deque_of_def)
qed

lemma pull_empty_sim:
  assumes inv: "shared_inv k s" and step: "owner_step k s s'" and hi: "high s + capacity k < 2 ^ 32"
    and pc: "owner_pc s = O_pull t" and empty: "head (queue s) \<ge> t"
    and s': "s' = s\<lparr>owner_pc := O_idle, owner_results := owner_results s @ [Got None]\<rparr>"
  shows "deque_step k (deque_of k s) (deque_of k s')"
proof -
  note D = owner_side_defs and T = owner_thief_side [OF step shared_invD(2) [OF inv]]
  note H = head_front [OF inv head_bounds(1) [OF inv hi]]
  have t: "tail (queue s) = t" using shared_invD(4) [OF inv] pc by (simp add: D)
  have "unat t - front s \<le> (if probe_of s = No_probe then 0 else 1)"
    using empty H(1) by (simp add: word_le_nat_alt)
  then have "length (items (deque_of k s)) \<le> (if probing (deque_of k s) = No_probe then 0 else 1)"
    using pc t by (simp add: deque_of_def live_def D)
  from deque_step.miss [OF this, of k] show ?thesis
    using owner_emit [OF inv step, of "Got None"] pc s' T(3) by (simp add: D live_def deque_of_def)
qed

lemma pull_claim_sim:
  assumes inv: "shared_inv k s" and step: "owner_step k s s'" and hi: "high s + capacity k < 2 ^ 32" and pc: "owner_pc s = O_claim t"
    and s': "s' = s\<lparr>owner_pc := O_check t, queue := (queue s)\<lparr>tail := t\<rparr>\<rparr>"
  shows "deque_step k (deque_of k s) (deque_of k s')"
proof -
  note D = owner_side_defs and T = owner_thief_side [OF step shared_invD(2) [OF inv]]
  note H = head_front [OF inv head_bounds(1) [OF inv hi]] and emit = owner_emit [OF inv step]
  have t: "unat (tail (queue s)) = unat t + 1" "rear s = unat t + 1" "high s = unat t + 1"
    using shared_invD(4) [OF inv] pc by (auto simp: D)
  show ?thesis
  proof (cases "front s \<le> unat t")
    case True
    let ?x = "cell k (elements (queue s)) (unat t)"
    have "live k s = live k s' @ [?x]"
      unfolding live_def T(3) t(2) using s' True T(3) by (simp add: rear_def)
    then show ?thesis
      using deque_step.pull [of "deque_of k s" "live k s'" ?x k] emit [of "Got (Some ?x)"] pc s' True T(3)
      by (simp add: owner_due_def deque_of_def)
  next
    case False
    then have empty: "live k s = []" "live k s' = []"
      using H(3) t s' T(3) by (simp_all add: live_def rear_def)
    then show ?thesis
      using deque_step.miss [of "deque_of k s" k] emit [of "Got None"] pc s' False T(3)
      by (simp add: owner_due_def deque_of_def)
  qed
qed

lemma owner_sim:
  assumes inv: "shared_inv k s" and step: "owner_step k s s'" and k: "k < 32"
    and wrap: "length (pushed s) + capacity k < 2 ^ 32"
  shows "deque_of k s' = deque_of k s \<or> deque_step k (deque_of k s) (deque_of k s')"
proof -
  note I = shared_invD [OF inv] and T = owner_thief_side [OF step shared_invD(2) [OF inv]]
  have hi: "high s + capacity k < 2 ^ 32" using I(7) wrap by linarith
  note H = head_front [OF inv head_bounds(1) [OF inv hi]] and D = owner_side_defs
  have stay: ?thesis
    if "elements (queue s') = elements (queue s)" "rear s' = rear s"
      "owner_results s' @ owner_due k s' = owner_results s @ owner_due k s"
    using owner_stay [OF inv step that] ..
  from step show ?thesis
  proof (cases rule: owner_step.cases)
    case (push_full x t)
    then show ?thesis using push_full_sim [OF inv step k hi] by blast
  next
    case (push_write x t)
    then show ?thesis using push_write_sim [OF inv step hi] by blast
  next
    case (push_store x t)
    then show ?thesis using push_store_sim [OF inv step hi] by blast
  next
    case (pull_empty t)
    then show ?thesis using pull_empty_sim [OF inv step hi] by blast
  next
    case (pull_claim t)
    then show ?thesis using pull_claim_sim [OF inv step hi] by blast
  next
    case (pull_won t)
    then have "front s \<le> unat t" using H(1) by (simp add: word_le_nat_alt split: if_splits)
    then show ?thesis using pull_won I(4) T(3) by (intro stay) (auto simp: D)
  next
    case (pull_won_locked t)
    then have "front s \<le> unat t" using H(1) by (simp add: word_le_nat_alt split: if_splits)
    then show ?thesis using pull_won_locked I(4) T(3) by (intro stay) (auto simp: D)
  next
    case (pull_lost t)
    then have "lock s = Some Owner" using locks_okD(2) [OF I(2)] by simp
    then have "probe_of s = No_probe" by (simp add: probe_of_def)
    then have "\<not> front s \<le> unat t" using H(1) pull_lost(3) by (simp add: word_le_nat_alt)
    then show ?thesis using pull_lost I(4) T(3) by (intro stay) (auto simp: D)
  next
    case (pull_restore t)
    have "high s = unat t + 1" using pull_restore by (simp add: D)
    then have "unat (t + 1) = unat t + 1" using hi capacity_pos [of k] by (intro unat_suc) linarith
    then show ?thesis using pull_restore I(4) by (intro stay) (auto simp: D)
  next
    case (pull_take t b)
    then show ?thesis using I(4) by (intro stay) (auto simp: D nth_slot)
  qed (use I(4) T(3) in \<open>(intro stay; auto simp: D)+\<close>)
qed

lemma thief_keeps:
  assumes "thief_step k i s s'"
  shows "owner_pc s' = owner_pc s" "owner_results s' = owner_results s" "elements (queue s') = elements (queue s)"
    "tail (queue s') = tail (queue s)"
    "front s' = front s \<Longrightarrow> rear s' = rear s" "front s' = front s \<Longrightarrow> owner_due k s' = owner_due k s"
proof -
  show owner: "owner_pc s' = owner_pc s" "owner_results s' = owner_results s" "elements (queue s') = elements (queue s)"
    "tail (queue s') = tail (queue s)"
    using assms by (cases rule: thief_step.cases; simp add: set_thief_def)+
  show "rear s' = rear s" "owner_due k s' = owner_due k s" if "front s' = front s"
    unfolding rear_def owner_due_def owner that by simp_all
qed

lemma thief_owner_free: "locks_ok s \<Longrightarrow> lock s = Some (Thief i) \<Longrightarrow> owner_pc s \<noteq> O_restore t"
  using locks_okD(2) [of s] by auto

lemmas thief_defs = probe_of_def thief_due_def front_def active_def set_thief_def

lemma thief_won_sim:
  assumes inv: "shared_inv k s" and won: "s' = set_thief i (T_take h) s" "thief_pc s i = T_stored h" "h < tail (queue s)"
    and wrap: "length (pushed s) + capacity k < 2 ^ 32"
  shows "deque_step k (deque_of k s) (deque_of k s')"
proof -
  note I = shared_invD [OF inv]
  have "high s + capacity k < 2 ^ 32" using I(7) wrap by linarith
  then have "low s + 1 < 2 ^ 32" using I(5) capacity_pos [of k] by linarith
  note H = head_front [OF inv this] and A = active_idle [OF I(2), of i]
  have step: "thief_step k i s s'" unfolding won(1) by (rule thief_step.won) (use won in simp_all)
  note K = thief_keeps [OF step]
  note owner = K(1-4)
  have lock: "lock s = Some (Thief i)" and front: "front s = unat h" "front s' = unat h + 1"
    using won A by (simp_all add: thief_defs)
  have "unat h < unat (tail (queue s))" using won(3) by (simp add: word_less_nat_alt)
  then have less: "unat h < rear s" and same: "rear s' = rear s" "owner_due k s' = owner_due k s"
    using I(4) thief_owner_free [OF I(2) lock] unfolding rear_def owner_due_def owner front
    by (auto simp: owner_ok_def split: owner_pc.splits)
  have "live k s = cell k (elements (queue s)) (unat h) # live k s'"
    using less unfolding live_def front same(1) owner(3) by (simp add: upt_conv_Cons)
  moreover have "probing (deque_of k s) = Raised i" using won lock by (simp add: deque_of_def thief_defs)
  ultimately show ?thesis
    using deque_step.win [of "deque_of k s" i _ "live k s'" k] won lock same owner by (simp add: deque_of_def thief_defs)
qed

lemma thief_lost_sim:
  assumes inv: "shared_inv k s" and lost: "s' = set_thief i (T_restore h) s" "thief_pc s i = T_stored h" "\<not> h < tail (queue s)"
    and wrap: "length (pushed s) + capacity k < 2 ^ 32"
  shows "deque_step k (deque_of k s) (deque_of k s')"
proof -
  note I = shared_invD [OF inv]
  have "high s + capacity k < 2 ^ 32" using I(7) wrap by linarith
  then have "low s + 1 < 2 ^ 32" using I(5) capacity_pos [of k] by linarith
  note H = head_front [OF inv this] and A = active_idle [OF I(2), of i]
  have step: "thief_step k i s s'" unfolding lost(1) by (rule thief_step.lost) (use lost in simp_all)
  note K = thief_keeps [OF step]
  note owner = K(1-4)
  have lock: "lock s = Some (Thief i)" and front: "front s = unat h" "front s' = front s"
    using lost A by (simp_all add: thief_defs)
  have "unat (tail (queue s)) \<le> unat h" using lost(3) by (simp add: word_less_nat_alt)
  then have "rear s \<le> front s"
    using I(4) thief_owner_free [OF I(2) lock] H(3) unfolding rear_def front(1)
    by (auto simp: owner_ok_def high_def split: owner_pc.splits)
  then have "items (deque_of k s) = []" by (simp add: deque_of_def live_def)
  moreover have "probing (deque_of k s) = Raised i" using lost lock by (simp add: deque_of_def thief_defs)
  ultimately show ?thesis
    using deque_step.lose [of "deque_of k s" i k] lost lock K(5,6) [OF front(2)] front(2) owner
    by (simp add: deque_of_def live_def thief_defs)
qed

lemma thief_sim:
  assumes inv: "shared_inv k s" and step: "thief_step k i s s'"
    and wrap: "length (pushed s) + capacity k < 2 ^ 32"
  shows "deque_of k s' = deque_of k s \<or> deque_step k (deque_of k s) (deque_of k s')"
proof -
  note I = shared_invD [OF inv]
  have hi: "high s + capacity k < 2 ^ 32" using I(7) wrap by linarith
  note A = active_idle [OF I(2), of i]
  note owner = thief_keeps(1-4) [OF step] and side = thief_keeps(5,6) [OF step]
  note D = thief_defs
  from step show ?thesis
  proof (cases rule: thief_step.cases)
    case lock
    then have f: "front s' = front s" by (simp add: D)
    show ?thesis
      using lock side [OF f] f owner by (intro disjI1 deque_of_same) (simp_all add: live_def D)
  next
    case load
    then have f: "front s' = front s" using A by (simp add: D)
    show ?thesis
      using load A side [OF f] f owner by (intro disjI1 deque_of_same) (simp_all add: live_def D)
  next
    case (store h)
    have "head (queue s) = h" using I(3) A store by (simp add: thief_ok_def)
    then have f: "front s' = front s" using store A by (simp add: D)
    have "probing (deque_of k s) = No_probe" using store A by (simp add: deque_of_def D)
    from deque_step.raise_head [OF this, of k i] show ?thesis
      using store A side [OF f] f owner by (simp add: deque_of_def live_def D)
  next
    case (won h)
    show ?thesis by (rule disjI2, rule thief_won_sim [OF inv won wrap])
  next
    case (lost h)
    show ?thesis by (rule disjI2, rule thief_lost_sim [OF inv lost wrap])
  next
    case (take h)
    have lock: "lock s = Some (Thief i)" and head: "head (queue s) = h + 1" "unat h < high s"
      using take A I(3) by (auto simp: thief_ok_def)
    have "unat h + 1 < 2 ^ 32" using head(2) hi capacity_pos [of k] by linarith
    then have f: "front s' = front s" using take lock head by (simp add: D unat_suc)
    show ?thesis
      using take lock side [OF f] f owner by (intro disjI1 deque_of_same) (simp_all add: live_def D nth_slot)
  next
    case (restore h)
    have lock: "lock s = Some (Thief i)" using restore A by simp
    then have f: "front s' = front s" using restore by (simp add: D)
    have "probing (deque_of k s) = Lost i" using restore lock by (simp add: deque_of_def D)
    from deque_step.lower [OF this, of k] show ?thesis
      using restore lock side [OF f] f owner by (simp add: deque_of_def live_def D)
  qed
qed

lemma start_deque: "deque_of k (start_shared es) = new_deque"
  by (simp add: deque_of_def start_shared_def new_deque_def new_queue_def live_def front_def rear_def active_def
      probe_of_def owner_due_def thief_due_def)

lemma shared_run_deque:
  "shared_run k s \<Longrightarrow> k < 32 \<Longrightarrow> length (pushed s) + capacity k < 2 ^ 32 \<Longrightarrow> deque_run k (deque_of k s)"
proof (induction rule: shared_run.induct)
  case (init es)
  then show ?case by (simp add: start_deque deque_run.init)
next
  case (step s s')
  have "length (pushed s) \<le> length (pushed s')"
    using step.hyps(2) by (auto simp: shared_step_def set_thief_def elim!: owner_step.cases thief_step.cases)
  then have few: "length (pushed s) + capacity k < 2 ^ 32" using step.prems by simp
  have inv: "shared_inv k s" by (rule shared_run_inv [OF step.hyps(1) step.prems(1) few])
  have "deque_of k s' = deque_of k s \<or> deque_step k (deque_of k s) (deque_of k s')"
    using step.hyps(2) owner_sim [OF inv _ step.prems(1) few] thief_sim [OF inv _ few] by (auto simp: shared_step_def)
  then show ?case using step.IH [OF step.prems(1) few] deque_run.step by auto
qed

lemma deque_of_idle:
  assumes "owner_pc s = O_idle \<and> (\<forall>i. thief_pc s i = T_idle)"
  shows "deque_of k s =
    \<lparr>items = contents k (queue s), probing = No_probe, owner_out = owner_results s, thief_out = thief_results s\<rparr>"
  using assms by (simp add: deque_of_def live_def contents_def front_def rear_def active_def probe_of_def owner_due_def
      thief_due_def split: option.split agent.split)

subsection \<open>Properties\<close>


text \<open>The run of \<open>example_racing\<close> goes on with the thief reading the element it has won.\<close>

lemma example_stolen:
  "shared_run 1 \<lparr>queue = \<lparr>elements = [5 :: nat, 0], head = 1, tail = 1\<rparr>, lock = None,
     owner_pc = O_write 6 1, thief_pc = (\<lambda>_. T_idle)(3 := T_idle), pushed = [5], pulled = [5],
     owner_results = [Pushed 5 True], thief_results = [(3, Some 5)]\<rparr>"
  using thf [OF example_racing thief_step.take [where i = 3 and h = 0]] by (simp add: set_thief_def slot_def)




end
