(* ===== verification/Packed_Id_Vector.thy ===== *)
theory Packed_Id_Vector
  imports Id_Layout Id_Map "HOL-Library.Multiset"
begin

text \<open>
  \<open>BasicIdVector\<close> of \<open>core/id_vector_fwd.hpp\<close> and \<open>core/id_vector.hpp\<close>: the objects are kept
  without gaps in \<open>elements_\<close>, \<open>outer_to_index_\<close> sends the outer part of an id to the tag of
  its slot and the position of its object (or the next free slot), and \<open>index_to_outer_\<close>
  sends a position back to its slot. Erasing moves the last object into the gap.

  \<open>k\<close> is \<open>OUTER_BITS\<close>. Constructing, copying and moving an object has no other effect.
\<close>

subsection \<open>State and operations\<close>

record ('a, 'i) packed_vec =
  outer_to_index :: "'i list"
  index_to_outer :: "'i list"
  elems :: "'a list"
  first_free :: "'i"
  last_free :: "'i"

definition pv_empty :: "nat \<Rightarrow> ('a, 'w::len word) packed_vec" where
  "pv_empty k = \<lparr>outer_to_index = [], index_to_outer = [], elems = [],
     first_free = invalid_index k, last_free = invalid_index k\<rparr>"

definition pv_reserve_ids :: "nat \<Rightarrow> ('a, 'w::len word) packed_vec \<Rightarrow> 'w word \<Rightarrow> ('a, 'w word) packed_vec res" where
  "pv_reserve_ids k v new_size =
     require (new_size \<le> max_size k) Dcheck_failed (
     let old_size = length (outer_to_index v); n = unat new_size in
     if n > old_size then
       let ids = outer_to_index v @ replicate (n - old_size) 0;
           ids = foldl (\<lambda>ids i. ids[i := of_nat (i + 1)]) ids [old_size..<n - 1];
           ids = ids[n - 1 := first_free v]
       in Inr (v\<lparr>outer_to_index := ids, first_free := of_nat old_size,
                last_free := (if last_free v = invalid_index k then new_size - 1
                              else last_free v)\<rparr>)
     else Inr v)"

text \<open>\<open>elements_.reserve\<close> only changes the capacity of the vector.\<close>

definition pv_reserve_elements :: "nat \<Rightarrow> ('a, 'w::len word) packed_vec \<Rightarrow> 'w word \<Rightarrow> ('a, 'w word) packed_vec res" where
  "pv_reserve_elements k v new_size =
     require (new_size \<le> max_size k) Dcheck_failed (pv_reserve_ids k v new_size)"

definition pv_new :: "nat \<Rightarrow> 'w::len word \<Rightarrow> 'w word \<Rightarrow> ('a, 'w word) packed_vec res" where
  "pv_new k min_ids min_elements =
     bind_res (pv_reserve_ids k (pv_empty k) min_ids) (\<lambda>v. pv_reserve_elements k v min_elements)"

definition pv_is_valid_id :: "nat \<Rightarrow> ('a, 'w::len word) packed_vec \<Rightarrow> 'w word \<Rightarrow> bool" where
  "pv_is_valid_id k v i =
     (let outer_id = slot_of k i in
      outer_id < length (outer_to_index v) \<and> inner_of k i = inner_of k (outer_to_index v ! outer_id))"

text \<open>An iterator is its distance from \<open>begin()\<close>, and so is a pointer to an element.\<close>

definition pv_id_from_iterator :: "nat \<Rightarrow> ('a, 'w::len word) packed_vec \<Rightarrow> nat \<Rightarrow> 'w word res" where
  "pv_id_from_iterator k v iter =
     require (iter \<le> length (elems v)) Dcheck_failed (
     if iter = length (elems v) then Inr (invalid_index k)
     else fetch (index_to_outer v) iter (\<lambda>outer_id.
       fetch (outer_to_index v) (unat outer_id) (\<lambda>e. Inr (inner_of k e OR outer_id))))"

definition pv_id_from_pointer :: "nat \<Rightarrow> ('a, 'w::len word) packed_vec \<Rightarrow> nat \<Rightarrow> 'w word res" where
  "pv_id_from_pointer k v pointer =
     require (elems v \<noteq> [] \<and> pointer \<le> length (elems v)) Dcheck_failed (pv_id_from_iterator k v pointer)"

definition pv_create_id :: "nat \<Rightarrow> ('a, 'w::len word) packed_vec \<Rightarrow> ('w word \<times> ('a, 'w word) packed_vec) res" where
  "pv_create_id k v =
     (let element_index = of_nat (length (elems v)) in
      require (element_index < max_index k) Dcheck_failed (
      if last_free v = invalid_index k then
        require (first_free v = invalid_index k) Dcheck_failed (
        let ids = outer_to_index v @ [element_index OR 0] in
        Inr (of_nat (length ids) - 1, v\<lparr>outer_to_index := ids\<rparr>))
      else
        require (first_free v \<noteq> invalid_index k) Dcheck_failed (
        fetch (outer_to_index v) (unat (first_free v)) (\<lambda>free_index.
        let inner_id = inner_of k free_index; outer_id = first_free v; first = outer_of k free_index in
        Inr (inner_id OR outer_id,
          v\<lparr>outer_to_index := (outer_to_index v)[unat outer_id := inner_id OR element_index],
            first_free := first,
            last_free := (if first = invalid_index k then invalid_index k else last_free v)\<rparr>)))))"

definition pv_emplace :: "nat \<Rightarrow> ('a, 'w::len word) packed_vec \<Rightarrow> 'a \<Rightarrow> ('w word \<times> ('a, 'w word) packed_vec) res" where
  "pv_emplace k v x =
     bind_res (pv_create_id k v) (\<lambda>(i, v).
     Inr (i, v\<lparr>elems := elems v @ [x], index_to_outer := index_to_outer v @ [outer_of k i]\<rparr>))"

text \<open>\<open>insert\<close> copies where \<open>emplace\<close> constructs in place.\<close>

definition pv_insert :: "nat \<Rightarrow> ('a, 'w::len word) packed_vec \<Rightarrow> 'a \<Rightarrow> ('w word \<times> ('a, 'w word) packed_vec) res" where
  "pv_insert k v value =
     bind_res (pv_create_id k v) (\<lambda>(i, v).
     Inr (i, v\<lparr>elems := elems v @ [value], index_to_outer := index_to_outer v @ [outer_of k i]\<rparr>))"

definition pv_get :: "nat \<Rightarrow> ('a, 'w::len word) packed_vec \<Rightarrow> 'w word \<Rightarrow> 'a res" where
  "pv_get k v i =
     (let outer_id = slot_of k i in
      require (outer_id < length (outer_to_index v)) Dcheck_failed (
      fetch (outer_to_index v) outer_id (\<lambda>e.
      require (inner_of k e = inner_of k i) Dcheck_failed (
      let element_index = slot_of k e in
      require (element_index < length (elems v)) Dcheck_failed (
      fetch (index_to_outer v) element_index (\<lambda>o'.
      require (o' = outer_of k i) Dcheck_failed (
      fetch (elems v) element_index Inr)))))))"

text \<open>
  When the freed object is the last one, \<open>free_id\<close> reads \<open>index_to_outer_[element_index]\<close> one
  past the end, after the \<open>pop_back\<close>. \<open>checked\<close> says whether the vector's \<open>operator[]\<close> checks
  its bounds (then the read aborts); where it does not, the storage beyond the end still holds
  the integer that was popped.
\<close>

definition pv_free_id :: "bool \<Rightarrow> nat \<Rightarrow> ('a, 'w::len word) packed_vec \<Rightarrow> 'w word \<Rightarrow> ('a, 'w word) packed_vec res" where
  "pv_free_id checked k v freed_id =
     (let outer_freed_id = outer_of k freed_id; f = unat outer_freed_id in
      require (f \<le> length (outer_to_index v)) Dcheck_failed (
      fetch (outer_to_index v) f (\<lambda>freed_entry.
      require (inner_of k freed_id = inner_of k freed_entry) Dcheck_failed (
      let element_index = outer_of k freed_entry; e = unat element_index in
      fetch (elems v) e (\<lambda>_. fetch (index_to_outer v) e (\<lambda>_.
      let xs = butlast ((elems v)[e := last (elems v)]);
          storage = (index_to_outer v)[e := last (index_to_outer v)];
          outers = butlast storage in
      fetch (if checked then outers else storage) e (\<lambda>m.
      fetch (outer_to_index v) (unat m) (\<lambda>last_element_entry.
      let ids = (outer_to_index v)[unat m := inner_of k last_element_entry OR element_index];
          ids = ids[f := next_inner k (ids ! f) OR outer_mask k];
          v = v\<lparr>elems := xs, index_to_outer := outers\<rparr> in
      if last_free v = invalid_index k then
        require (first_free v = invalid_index k) Dcheck_failed (
        Inr (v\<lparr>outer_to_index := ids, first_free := outer_freed_id, last_free := outer_freed_id\<rparr>))
      else
        fetch ids (unat (last_free v)) (\<lambda>l.
        Inr (v\<lparr>outer_to_index := ids[unat (last_free v) := l AND (inner_mask k OR outer_freed_id)],
               last_free := outer_freed_id\<rparr>))))))))))"

definition pv_erase :: "bool \<Rightarrow> nat \<Rightarrow> ('a, 'w::len word) packed_vec \<Rightarrow> 'w word \<Rightarrow> ('a, 'w word) packed_vec res" where
  "pv_erase checked k v i = pv_free_id checked k v i"

definition pv_size :: "('a, 'w::len word) packed_vec \<Rightarrow> 'w word" where
  "pv_size v = of_nat (length (elems v))"

definition pv_is_empty :: "('a, 'w::len word) packed_vec \<Rightarrow> bool" where
  "pv_is_empty v \<longleftrightarrow> elems v = []"

text \<open>Assignment through the reference that the non-const \<open>operator[]\<close> returns.\<close>

definition pv_put :: "nat \<Rightarrow> ('a, 'w::len word) packed_vec \<Rightarrow> 'w word \<Rightarrow> 'a \<Rightarrow> ('a, 'w word) packed_vec res" where
  "pv_put k v i x =
     bind_res (pv_get k v i) (\<lambda>_.
     Inr (v\<lparr>elems := (elems v)[slot_of k (outer_to_index v ! slot_of k i) := x]\<rparr>))"

subsection \<open>Well-formedness\<close>

text \<open>
  \<open>owners v\<close> is \<open>index_to_outer_\<close> as numbers. \<open>pv_repr k v fs\<close>: every slot either owns exactly
  one position or is one of the free slots \<open>fs\<close>, which are listed in the order in which they
  will be used again.
\<close>

definition owners :: "('a, 'w::len word) packed_vec \<Rightarrow> nat list" where
  "owners v = map unat (index_to_outer v)"

definition pv_next :: "nat \<Rightarrow> ('a, 'w::len word) packed_vec \<Rightarrow> nat \<Rightarrow> nat" where
  "pv_next k v s = slot_of k (outer_to_index v ! s)"

definition pv_repr :: "nat \<Rightarrow> ('a, 'w::len word) packed_vec \<Rightarrow> nat list \<Rightarrow> bool" where
  "pv_repr k v fs \<longleftrightarrow>
     k < LENGTH('w) \<and> length (outer_to_index v) \<le> 2 ^ k - 1 \<and>
     length (index_to_outer v) = length (elems v) \<and>
     distinct (owners v @ fs) \<and> set (owners v @ fs) = {..<length (outer_to_index v)} \<and>
     (\<forall>e < length (elems v). pv_next k v (owners v ! e) = e) \<and>
     linked (pv_next k v) (slot_of k (first_free v)) fs (2 ^ k - 1) \<and>
     inner_of k (first_free v) = 0 \<and>
     last_free v = (if fs = [] then invalid_index k else of_nat (last fs))"

definition pv_inv :: "nat \<Rightarrow> ('a, 'w::len word) packed_vec \<Rightarrow> bool" where
  "pv_inv k v \<longleftrightarrow> (\<exists>fs. pv_repr k v fs)"

text \<open>The slots in use with their objects, and the finite map the container stands for.\<close>

definition pv_pairs :: "('a, 'w::len word) packed_vec \<Rightarrow> (nat \<times> 'a) list" where
  "pv_pairs v = zip (owners v) (elems v)"

definition pv_lookup :: "nat \<Rightarrow> ('a, 'w::len word) packed_vec \<Rightarrow> 'w word \<Rightarrow> 'a option" where
  "pv_lookup k v i =
     (if inner_of k i = inner_of k (outer_to_index v ! slot_of k i)
      then map_of (pv_pairs v) (slot_of k i) else None)"

lemma pv_reprD:
  assumes "pv_repr k (v :: ('a, 'w::len word) packed_vec) fs"
  shows "k < LENGTH('w)" "length (outer_to_index v) \<le> 2 ^ k - 1" "length (outer_to_index v) < 2 ^ k"
    "length (index_to_outer v) = length (elems v)" "length (owners v) = length (elems v)"
    "distinct (owners v)" "distinct fs" "set (owners v) \<inter> set fs = {}"
    "set (owners v) \<union> set fs = {..<length (outer_to_index v)}"
    "\<And>e. e < length (elems v) \<Longrightarrow> pv_next k v (owners v ! e) = e"
    "linked (pv_next k v) (slot_of k (first_free v)) fs (2 ^ k - 1)"
    "inner_of k (first_free v) = 0"
    "last_free v = (if fs = [] then invalid_index k else of_nat (last fs))"
    "length (elems v) + length fs = length (outer_to_index v)"
proof -
  show "length (outer_to_index v) < 2 ^ k"
    using assms by (auto simp: pv_repr_def intro: order_le_less_trans [of _ "2 ^ k - 1"])
  have d: "distinct (owners v @ fs)" "set (owners v @ fs) = {..<length (outer_to_index v)}"
    and l: "length (owners v) = length (elems v)"
    using assms by (simp_all add: pv_repr_def owners_def)
  show "length (owners v) = length (elems v)" by (rule l)
  show "length (elems v) + length fs = length (outer_to_index v)"
    using distinct_card [OF d(1)] d(2) l by simp
qed (use assms in \<open>auto simp: pv_repr_def\<close>)

lemma pv_reprI:
  fixes v :: "('a, 'w::len word) packed_vec"
  assumes "k < LENGTH('w)" "length (outer_to_index v) \<le> 2 ^ k - 1"
    "length (index_to_outer v) = length (elems v)"
    "distinct (owners v @ fs)" "set (owners v @ fs) = {..<length (outer_to_index v)}"
    "\<And>e. e < length (elems v) \<Longrightarrow> pv_next k v (owners v ! e) = e"
    "linked (pv_next k v) (slot_of k (first_free v)) fs (2 ^ k - 1)" "inner_of k (first_free v) = 0"
    "last_free v = (if fs = [] then invalid_index k else of_nat (last fs))"
  shows "pv_repr k v fs"
  unfolding pv_repr_def using assms by blast

lemma pv_slot_lt:
  assumes "pv_repr k v fs"
  shows "s \<in> set fs \<Longrightarrow> s < length (outer_to_index v)" "s \<in> set (owners v) \<Longrightarrow> s < length (outer_to_index v)"
    "s < length (outer_to_index v) \<Longrightarrow> s < 2 ^ k - 1" "s < length (outer_to_index v) \<Longrightarrow> s < 2 ^ k"
    "e < length (elems v) \<Longrightarrow> owners v ! e < length (outer_to_index v)"
proof -
  note r = pv_reprD [OF assms]
  show "s \<in> set fs \<Longrightarrow> s < length (outer_to_index v)" "s \<in> set (owners v) \<Longrightarrow> s < length (outer_to_index v)"
    using r(9) by blast+
  show "s < length (outer_to_index v) \<Longrightarrow> s < 2 ^ k - 1" "s < length (outer_to_index v) \<Longrightarrow> s < 2 ^ k"
    using r(2,3) by simp_all
  show "e < length (elems v) \<Longrightarrow> owners v ! e < length (outer_to_index v)"
    using r(5,9) by (metis UnI1 lessThan_iff nth_mem)
qed

lemma pv_owner_word:
  fixes v :: "('a, 'w::len word) packed_vec"
  assumes v: "pv_repr k v fs" and e: "e < length (elems v)"
  shows "unat (index_to_outer v ! e) = owners v ! e" "index_to_outer v ! e = of_nat (owners v ! e)"
    "outer_of k (index_to_outer v ! e) = index_to_outer v ! e" "inner_of k (index_to_outer v ! e) = 0"
    "slot_of k (index_to_outer v ! e) = owners v ! e"
proof -
  note r = pv_reprD [OF v]
  show u: "unat (index_to_outer v ! e) = owners v ! e" using e r(4) by (simp add: owners_def)
  show w: "index_to_outer v ! e = of_nat (owners v ! e)" unfolding u [symmetric] by simp
  have "owners v ! e < 2 ^ k" using pv_slot_lt(4,5) [OF v] e by blast
  then show "outer_of k (index_to_outer v ! e) = index_to_outer v ! e" "inner_of k (index_to_outer v ! e) = 0"
    "slot_of k (index_to_outer v ! e) = owners v ! e"
    using r(1) by (simp_all add: w)
qed

text \<open>The free list, read off its ends.\<close>

lemma pv_first:
  assumes "pv_repr k v fs"
  shows "slot_of k (first_free v) = (if fs = [] then 2 ^ k - 1 else hd fs)"
    "first_free v = (if fs = [] then invalid_index k else of_nat (hd fs))"
proof -
  note r = pv_reprD [OF assms]
  show *: "slot_of k (first_free v) = (if fs = [] then 2 ^ k - 1 else hd fs)"
    using linked_start [OF r(11)] .
  have "first_free v = outer_of k (first_free v)" using r(12) id_split [of "first_free v" k] by simp
  then have "first_free v = of_nat (slot_of k (first_free v))" by (simp add: outer_of_eq_of_nat)
  then show "first_free v = (if fs = [] then invalid_index k else of_nat (hd fs))"
    by (simp only: * of_nat_invalid if_distrib [of of_nat] split: if_split)
qed

lemma pv_last:
  fixes v :: "('a, 'w::len word) packed_vec"
  assumes "pv_repr k v fs" "fs \<noteq> []"
  shows "last_free v = of_nat (last fs)" "unat (last_free v) = last fs"
    "last fs < length (outer_to_index v)" "last_free v \<noteq> invalid_index k"
proof -
  note r = pv_reprD [OF assms(1)]
  have l: "last fs \<in> set fs" using assms(2) by simp
  note lt = pv_slot_lt [OF assms(1)]
  show *: "last_free v = of_nat (last fs)" using r(13) assms(2) by simp
  show "unat (last_free v) = last fs"
    unfolding * by (rule of_nat_small [OF lt(4) [OF lt(1) [OF l]] r(1)])
  show "last fs < length (outer_to_index v)" by (rule lt(1) [OF l])
  show "last_free v \<noteq> invalid_index k"
    unfolding * by (rule slot_lt_invalid [OF lt(3) [OF lt(1) [OF l]] r(1)])
qed

subsection \<open>Lookup\<close>

lemma pv_pairs_keys: "pv_repr k v fs \<Longrightarrow> map fst (pv_pairs v) = owners v"
  by (simp add: pv_pairs_def pv_reprD(5))

lemma pv_lookup_eq_Some:
  assumes v: "pv_repr k v fs"
  shows "pv_lookup k v i = Some x \<longleftrightarrow>
    inner_of k i = inner_of k (outer_to_index v ! slot_of k i) \<and> (slot_of k i, x) \<in> set (pv_pairs v)"
  using pv_reprD(6) [OF v] by (simp add: pv_lookup_def map_of_eq_Some_iff pv_pairs_keys [OF v])

lemma pv_pairs_mem:
  assumes v: "pv_repr k v fs"
  shows "(s, x) \<in> set (pv_pairs v) \<longleftrightarrow> (\<exists>e < length (elems v). owners v ! e = s \<and> elems v ! e = x)"
  using pv_reprD(5) [OF v] by (auto simp: pv_pairs_def set_zip)

lemma pv_lookup_at:
  assumes v: "pv_repr k v fs" and i: "pv_lookup k v i = Some x"
  obtains e where "e < length (elems v)" "owners v ! e = slot_of k i" "elems v ! e = x"
    "inner_of k i = inner_of k (outer_to_index v ! slot_of k i)"
    "slot_of k (outer_to_index v ! slot_of k i) = e" "slot_of k i < length (outer_to_index v)"
proof -
  from i obtain e where e: "e < length (elems v)" "owners v ! e = slot_of k i" "elems v ! e = x"
    "inner_of k i = inner_of k (outer_to_index v ! slot_of k i)"
    by (auto simp: pv_lookup_eq_Some [OF v] pv_pairs_mem [OF v])
  then show ?thesis
    using that pv_reprD(10) [OF v e(1)] pv_slot_lt(5) [OF v e(1)] by (simp add: pv_next_def)
qed

lemma pv_get_lookup:
  assumes v: "pv_repr k v fs"
  shows "pv_get k v i = (case pv_lookup k v i of Some x \<Rightarrow> Inr x | None \<Rightarrow> Inl Dcheck_failed)"
proof (cases "pv_lookup k v i")
  case (Some x)
  note r = pv_reprD [OF v]
  from Some obtain e where e: "e < length (elems v)" "owners v ! e = slot_of k i" "elems v ! e = x"
    "inner_of k i = inner_of k (outer_to_index v ! slot_of k i)"
    "slot_of k (outer_to_index v ! slot_of k i) = e" "slot_of k i < length (outer_to_index v)"
    by (rule pv_lookup_at [OF v])
  have "index_to_outer v ! e = outer_of k i"
    using pv_owner_word(2) [OF v e(1)] e(2) by (simp add: outer_of_eq_of_nat)
  then show ?thesis using Some e r(4) by (simp add: pv_get_def Let_def)
next
  case None
  let ?s = "slot_of k i" and ?e = "slot_of k (outer_to_index v ! slot_of k i)"
  have "index_to_outer v ! ?e \<noteq> outer_of k i"
    if "inner_of k (outer_to_index v ! ?s) = inner_of k i" "?e < length (elems v)"
  proof
    assume "index_to_outer v ! ?e = outer_of k i"
    then have "owners v ! ?e = ?s" using pv_owner_word(1) [OF v that(2)] by (simp add: slot_of_def)
    then have "pv_lookup k v i = Some (elems v ! ?e)"
      using that by (auto simp: pv_lookup_eq_Some [OF v] pv_pairs_mem [OF v])
    then show False using None by simp
  qed
  then show ?thesis
    using None pv_reprD(4) [OF v] by (auto simp: pv_get_def Let_def require_def fetch_def)
qed

text \<open>The id of the object at a position.\<close>

definition pv_id_at :: "nat \<Rightarrow> ('a, 'w::len word) packed_vec \<Rightarrow> nat \<Rightarrow> 'w word" where
  "pv_id_at k v e = inner_of k (outer_to_index v ! (owners v ! e)) OR index_to_outer v ! e"

lemma pv_id_at_lookup:
  assumes v: "pv_repr k v fs" and e: "e < length (elems v)"
  shows "slot_of k (pv_id_at k v e) = owners v ! e"
    "inner_of k (pv_id_at k v e) = inner_of k (outer_to_index v ! (owners v ! e))"
    "pv_lookup k v (pv_id_at k v e) = Some (elems v ! e)"
proof -
  note w = pv_owner_word [OF v e]
  show s: "slot_of k (pv_id_at k v e) = owners v ! e" using w by (simp add: pv_id_at_def)
  show i: "inner_of k (pv_id_at k v e) = inner_of k (outer_to_index v ! (owners v ! e))"
    using w by (simp add: pv_id_at_def id_simps)
  show "pv_lookup k v (pv_id_at k v e) = Some (elems v ! e)"
    using s i e by (auto simp: pv_lookup_eq_Some [OF v] pv_pairs_mem [OF v])
qed

lemma pv_lookup_id_at:
  assumes v: "pv_repr k v fs" and i: "pv_lookup k v i = Some x"
  shows "\<exists>e < length (elems v). i = pv_id_at k v e \<and> x = elems v ! e"
proof -
  from i obtain e where e: "e < length (elems v)" "owners v ! e = slot_of k i" "elems v ! e = x"
    "inner_of k i = inner_of k (outer_to_index v ! slot_of k i)" by (rule pv_lookup_at [OF v])
  have "slot_of k i = slot_of k (pv_id_at k v e)" "inner_of k i = inner_of k (pv_id_at k v e)"
    using e pv_id_at_lookup(1,2) [OF v e(1)] by simp_all
  then have "i = pv_id_at k v e" unfolding id_eq_iff [of i _ k] by blast
  then show ?thesis using e by blast
qed

lemma pv_dom:
  assumes v: "pv_repr k v fs"
  shows "dom (pv_lookup k v) = pv_id_at k v ` {..<length (elems v)}"
    "inj_on (pv_id_at k v) {..<length (elems v)}" "card (dom (pv_lookup k v)) = length (elems v)"
    "finite (dom (pv_lookup k v))"
proof -
  show d: "dom (pv_lookup k v) = pv_id_at k v ` {..<length (elems v)}"
    using pv_lookup_id_at [OF v] pv_id_at_lookup(3) [OF v] by (fastforce simp: dom_def)
  show i: "inj_on (pv_id_at k v) {..<length (elems v)}"
    by (rule inj_onI) (metis lessThan_iff nth_eq_iff_index_eq pv_id_at_lookup(1) [OF v] pv_reprD(5,6) [OF v])
  show "card (dom (pv_lookup k v)) = length (elems v)" by (simp add: d card_image [OF i])
  show "finite (dom (pv_lookup k v))" by (simp add: d)
qed

lemma pv_lookup_invalid:
  assumes "pv_repr k (v :: ('a, 'w::len word) packed_vec) fs"
  shows "pv_lookup k v (invalid_index k) = None"
proof (rule ccontr)
  assume "pv_lookup k v (invalid_index k) \<noteq> None"
  then obtain x where "pv_lookup k v (invalid_index k) = Some x" by auto
  then have "slot_of k (invalid_index k :: 'w word) < length (outer_to_index v)" by (rule pv_lookup_at [OF assms])
  then show False using pv_reprD(1,2) [OF assms] by (simp add: slot_of_invalid)
qed

subsection \<open>Storing\<close>

lemma pv_lookup_add:
  assumes v: "pv_repr k v fs" and v': "pv_repr k v' fs'"
    and pairs: "set (pv_pairs v') = insert (slot_of k i, x) (set (pv_pairs v))"
    and tags: "\<And>s. s \<in> set (owners v) \<Longrightarrow>
      inner_of k (outer_to_index v' ! s) = inner_of k (outer_to_index v ! s)"
    and tag: "inner_of k i = inner_of k (outer_to_index v' ! slot_of k i)"
    and new: "slot_of k i \<notin> set (owners v)"
  shows "pv_lookup k v i = None" "pv_lookup k v' = (pv_lookup k v)(i \<mapsto> x)"
proof -
  have own: "s \<in> set (owners v)" if "(s, y) \<in> set (pv_pairs v)" for s y
    using that by (auto simp: pv_pairs_def dest: set_zip_leftD)
  show "pv_lookup k v i = None"
    using new own by (auto simp: pv_lookup_eq_Some [OF v] simp flip: not_Some_eq)
  show "pv_lookup k v' = (pv_lookup k v)(i \<mapsto> x)"
  proof (rule ext, rule option_ext)
    fix j y
    show "pv_lookup k v' j = Some y \<longleftrightarrow> ((pv_lookup k v)(i \<mapsto> x)) j = Some y"
    proof (cases "slot_of k j = slot_of k i")
      case True
      have "j = i \<longleftrightarrow> inner_of k j = inner_of k i" using True id_eq_iff [of j i k] by simp
      then show ?thesis
        using True new own tag by (auto simp: pv_lookup_eq_Some [OF v] pv_lookup_eq_Some [OF v'] pairs)
    next
      case False
      then have "j \<noteq> i" by auto
      then show ?thesis
        using False own tags by (auto simp: pv_lookup_eq_Some [OF v] pv_lookup_eq_Some [OF v'] pairs)
    qed
  qed
qed

lemma pv_size_word:
  assumes "pv_repr k (v :: ('a, 'w::len word) packed_vec) fs" "length (elems v) < 2 ^ k - 2"
  shows "(of_nat (length (elems v)) :: 'w word) < max_index k"
    "slot_of k (of_nat (length (elems v)) :: 'w word) = length (elems v)"
    "inner_of k (of_nat (length (elems v)) :: 'w word) = 0"
proof -
  note r = pv_reprD [OF assms(1)]
  have n: "length (elems v) < 2 ^ k" using assms(2) by simp
  have "k \<noteq> 0" by (rule notI) (use assms(2) in simp)
  then have "mask k \<noteq> (0 :: 'w word)" by (simp add: mask_eq_0_iff)
  then have "unat (max_index k :: 'w word) = 2 ^ k - 2"
    using unat_minus_one [of "mask k :: 'w word"] unat_mask_lt [OF r(1)]
    by (simp add: max_index_def outer_mask_mask)
  then show "(of_nat (length (elems v)) :: 'w word) < max_index k"
    using assms(2) of_nat_small [OF n r(1)] by (simp add: word_less_nat_alt)
  show "slot_of k (of_nat (length (elems v)) :: 'w word) = length (elems v)"
    "inner_of k (of_nat (length (elems v)) :: 'w word) = 0" using n r(1) by simp_all
qed

text \<open>Creating a slot: the free list is empty.\<close>

lemma pv_emplace_fresh:
  fixes v :: "('a, 'w::len word) packed_vec" and x :: 'a
  assumes v: "pv_repr k v []" and room: "length (elems v) < 2 ^ k - 2"
  defines "n \<equiv> length (elems v)"
  defines "v' \<equiv> v\<lparr>outer_to_index := outer_to_index v @ [of_nat n], elems := elems v @ [x],
                 index_to_outer := index_to_outer v @ [of_nat n]\<rparr>"
  shows "pv_emplace k v x = Inr (of_nat n, v')" "pv_repr k v' []"
proof -
  note r = pv_reprD [OF v] and w = pv_size_word [OF v room]
  have len: "length (outer_to_index v) = n" using r(14) by (simp add: n_def)
  have first: "first_free v = invalid_index k" using pv_first [OF v] by simp
  have o: "outer_of k (of_nat n :: 'w word) = of_nat n" "unat (of_nat n :: 'w word) = n"
    using w(2) r(1,3) len by (simp_all add: n_def of_nat_small)
  have "of_nat (length (outer_to_index v @ [of_nat n :: 'w word])) - 1 = (of_nat n :: 'w word)"
    by (simp add: len)
  then show "pv_emplace k v x = Inr (of_nat n, v')"
    using r(13) first w(1) o
    by (simp add: pv_emplace_def pv_create_id_def Let_def v'_def n_def [symmetric] del: length_append)
  have own: "owners v' = owners v @ [n]" using o by (simp add: owners_def v'_def)
  have "set (owners v) = {..<n}" using r(9) len by simp
  moreover have "pv_next k v' (owners v' ! e) = e" if "e < length (elems v')" for e
    using that r(5) r(10) [of e] w(2) len own pv_slot_lt(5) [OF v, of e]
    by (auto simp: pv_next_def v'_def n_def nth_append less_Suc_eq)
  ultimately show "pv_repr k v' []"
    unfolding pv_repr_def own using r(1,4,6,11,12,13) room len
    by (auto simp: v'_def n_def)
qed

text \<open>Using a free slot again: the front of the free list.\<close>

lemma pv_emplace_reuse:
  fixes v :: "('a, 'w::len word) packed_vec" and x :: 'a
  assumes v: "pv_repr k v (f # fs)" and room: "length (elems v) < 2 ^ k - 2"
  defines "i \<equiv> inner_of k (outer_to_index v ! f) OR of_nat f"
  defines "v' \<equiv> v\<lparr>outer_to_index := (outer_to_index v)[f := inner_of k (outer_to_index v ! f) OR of_nat (length (elems v))],
      first_free := outer_of k (outer_to_index v ! f),
      last_free := (if fs = [] then invalid_index k else last_free v),
      elems := elems v @ [x], index_to_outer := index_to_outer v @ [of_nat f]\<rparr>"
  shows "pv_emplace k v x = Inr (i, v')" "pv_repr k v' fs"
proof -
  note r = pv_reprD [OF v] and w = pv_size_word [OF v room]
  have f: "f < length (outer_to_index v)" "f < 2 ^ k" "f \<notin> set fs" "f \<notin> set (owners v)"
    using pv_slot_lt(1,4) [OF v, of f] r(7,8) by auto
  have uf: "unat (of_nat f :: 'w word) = f" "outer_of k (of_nat f :: 'w word) = of_nat f"
    using r(1) f by (simp_all add: of_nat_small)
  have first: "first_free v = of_nat f" using pv_first(2) [OF v] by simp
  have ne: "last_free v \<noteq> invalid_index k" "first_free v \<noteq> invalid_index k"
    using pv_last(4) [OF v] pv_slot_lt(3) [OF v f(1)] r(1) by (simp_all add: first slot_lt_invalid)
  have link: "linked (pv_next k v) (slot_of k (outer_to_index v ! f)) fs (2 ^ k - 1)"
    using r(11) by (simp add: pv_next_def)
  have nxt: "outer_of k (outer_to_index v ! f) = invalid_index k \<longleftrightarrow> fs = []"
  proof -
    have "slot_of k (outer_to_index v ! f) = 2 ^ k - 1 \<longleftrightarrow> fs = []"
      using linked_start [OF link] pv_slot_lt(1,3) [OF v, of "hd fs"] by (cases fs) auto
    then show ?thesis using slot_of_invalid [OF r(1)] by (metis outer_of_invalid slot_of_eq_iff)
  qed
  have "outer_of k i = of_nat f" using uf by (simp add: i_def id_simps)
  then show "pv_emplace k v x = Inr (i, v')"
    using ne f(1) uf(1) w(1) nxt
    by (simp add: pv_emplace_def pv_create_id_def first Let_def i_def v'_def)
  have own: "owners v' = owners v @ [f]" using uf by (simp add: owners_def v'_def)
  have next_other: "pv_next k v' s = pv_next k v s" if "s \<noteq> f" for s
    using that by (simp add: pv_next_def v'_def)
  have next_f: "pv_next k v' f = length (elems v)" using f(1) w(2) by (simp add: pv_next_def v'_def)
  have len: "elems v' = elems v @ [x]" "length (outer_to_index v') = length (outer_to_index v)"
    by (simp_all add: v'_def)
  show "pv_repr k v' fs"
  proof (rule pv_reprI)
    have "linked (pv_next k v') (slot_of k (outer_to_index v ! f)) fs (2 ^ k - 1) =
        linked (pv_next k v) (slot_of k (outer_to_index v ! f)) fs (2 ^ k - 1)"
      by (rule linked_cong) (use f(3) next_other in metis)
    then show "linked (pv_next k v') (slot_of k (first_free v')) fs (2 ^ k - 1)"
      using link by (simp add: v'_def)
    show "pv_next k v' (owners v' ! e) = e" if "e < length (elems v')" for e
    proof (cases "e < length (elems v)")
      case True
      then have "owners v ! e \<noteq> f" using f(4) r(5) nth_mem by metis
      then show ?thesis using True r(5,10) next_other by (simp add: own nth_append)
    next
      case False
      then have "e = length (elems v)" using that len by simp
      then show ?thesis using r(5) next_f by (simp add: own nth_append)
    qed
    show "set (owners v' @ fs) = {..<length (outer_to_index v')}"
      using r(9) unfolding own len(2) by auto
    show "distinct (owners v' @ fs)" using r(6,7,8) f(3,4) unfolding own by auto
  qed (use r(1,2,4,13) in \<open>simp_all add: v'_def\<close>)
qed

text \<open>One statement for both ways of finding a slot.\<close>

lemma pv_emplace_repr:
  fixes v :: "('a, 'w::len word) packed_vec"
  assumes v: "pv_repr k v fs" and room: "length (elems v) < 2 ^ k - 2"
  obtains i v' where "pv_emplace k v x = Inr (i, v')" "pv_repr k v' (tl fs)"
    "pv_lookup k v i = None" "pv_lookup k v' = (pv_lookup k v)(i \<mapsto> x)" "elems v' = elems v @ [x]"
    "slot_of k i = (case fs of [] \<Rightarrow> length (outer_to_index v) | f # _ \<Rightarrow> f)"
    "inner_of k i = (case fs of [] \<Rightarrow> 0 | f # _ \<Rightarrow> inner_of k (outer_to_index v ! f))"
    "length (outer_to_index v') = (if fs = [] then Suc (length (outer_to_index v)) else length (outer_to_index v))"
    "\<And>s. s < length (outer_to_index v) \<Longrightarrow> inner_of k (outer_to_index v' ! s) = inner_of k (outer_to_index v ! s)"
proof (cases fs)
  case Nil
  note r = pv_reprD [OF v] and w = pv_size_word [OF v room]
  note e = pv_emplace_fresh [OF v [unfolded Nil] room, of x]
  let ?v' = "v\<lparr>outer_to_index := outer_to_index v @ [of_nat (length (elems v))], elems := elems v @ [x],
      index_to_outer := index_to_outer v @ [of_nat (length (elems v))]\<rparr>"
  have len: "length (outer_to_index v) = length (elems v)" using r(14) Nil by simp
  have own: "s \<in> set (owners v) \<Longrightarrow> s < length (elems v)" for s using pv_slot_lt(2) [OF v] len by simp
  have u: "unat (of_nat (length (elems v)) :: 'w word) = length (elems v)"
    using r(1,3) len by (simp add: of_nat_small)
  have "set (pv_pairs ?v') = insert (length (elems v), x) (set (pv_pairs v))"
    using r(5) u by (simp add: pv_pairs_def owners_def)
  then have l: "pv_lookup k v (of_nat (length (elems v))) = None"
      "pv_lookup k ?v' = (pv_lookup k v)(of_nat (length (elems v)) \<mapsto> x)"
    using pv_lookup_add [OF v e(2), of "of_nat (length (elems v))" x] w own len
    by (auto simp: nth_append)
  show ?thesis by (rule that [OF e(1)]) (use e(2) l w Nil len in \<open>simp_all add: nth_append\<close>)
next
  case (Cons f fs')
  note r = pv_reprD [OF v] and w = pv_size_word [OF v room]
  note e = pv_emplace_reuse [OF v [unfolded Cons] room, of x]
  let ?i = "inner_of k (outer_to_index v ! f) OR of_nat f"
  let ?v' = "v\<lparr>outer_to_index := (outer_to_index v)[f := inner_of k (outer_to_index v ! f) OR of_nat (length (elems v))],
      first_free := outer_of k (outer_to_index v ! f),
      last_free := (if fs' = [] then invalid_index k else last_free v),
      elems := elems v @ [x], index_to_outer := index_to_outer v @ [of_nat f]\<rparr>"
  have f: "f < length (outer_to_index v)" "f < 2 ^ k" "f \<notin> set (owners v)"
    using pv_slot_lt(1,4) [OF v, of f] r(8) Cons by auto
  have i: "slot_of k ?i = f" "inner_of k ?i = inner_of k (outer_to_index v ! f)"
    "unat (of_nat f :: 'w word) = f" using f(2) r(1) by (simp_all add: id_simps of_nat_small)
  have tags: "inner_of k (outer_to_index ?v' ! s) = inner_of k (outer_to_index v ! s)" for s
    using f(1) w(3) by (cases "s = f") (simp_all add: id_simps)
  have "set (pv_pairs ?v') = insert (f, x) (set (pv_pairs v))"
    using r(5) i(3) by (simp add: pv_pairs_def owners_def)
  then have l: "pv_lookup k v ?i = None" "pv_lookup k ?v' = (pv_lookup k v)(?i \<mapsto> x)"
    using pv_lookup_add [OF v e(2), of ?i x] tags i f(3) by auto
  show ?thesis
    by (rule that [OF e(1)]) (use e(2) l i tags Cons in simp_all)
qed

subsection \<open>Erasing\<close>

text \<open>Moving the last element of a list into the place of another.\<close>

lemma swap_remove:
  assumes "i < length xs" "distinct xs"
  shows "set (butlast (xs[i := last xs])) = set xs - {xs ! i}" "distinct (butlast (xs[i := last xs]))"
proof -
  from assms(1) obtain ys y where xs: "xs = ys @ [y]" by (cases xs rule: rev_cases) auto
  have b: "butlast (xs[i := last xs]) = (if i < length ys then ys[i := y] else ys)"
    using assms(1) xs by (auto simp: list_update_append butlast_append split: nat.split)
  have "y \<notin> set ys" "distinct ys" using assms(2) xs by auto
  then show "set (butlast (xs[i := last xs])) = set xs - {xs ! i}" "distinct (butlast (xs[i := last xs]))"
    unfolding b using assms(1) xs
    by (auto simp: nth_append set_update_distinct distinct_list_update)
qed

lemma swap_remove_nth:
  assumes "i < length xs" "e < length xs - 1"
  shows "butlast (xs[i := last xs]) ! e = (if e = i then last xs else xs ! e)"
  using assms by (simp add: nth_butlast nth_list_update)

lemma swap_remove_zip:
  assumes "length xs = length ys" "i < length xs"
  shows "zip (butlast (xs[i := last xs])) (butlast (ys[i := last ys])) =
    butlast ((zip xs ys)[i := last (zip xs ys)])"
proof (rule nth_equalityI)
  show "length (zip (butlast (xs[i := last xs])) (butlast (ys[i := last ys]))) =
      length (butlast ((zip xs ys)[i := last (zip xs ys)]))" using assms by simp
  fix e
  assume "e < length (zip (butlast (xs[i := last xs])) (butlast (ys[i := last ys])))"
  then have e: "e < length xs - 1" "e < length ys - 1" "e < length (zip xs ys) - 1" using assms(1) by auto
  have "last (zip xs ys) = (last xs, last ys)"
    using assms by (subst last_zip) auto
  then show "zip (butlast (xs[i := last xs])) (butlast (ys[i := last ys])) ! e =
      butlast ((zip xs ys)[i := last (zip xs ys)]) ! e"
    using assms e by (simp add: nth_butlast nth_list_update)
qed

text \<open>What \<open>free_id\<close> leaves in \<open>outer_to_index_\<close>: \<open>f\<close> is the freed slot, \<open>e\<close> the gap, \<open>m\<close> the slot
  of the object that fills it.\<close>

definition freed_ids :: "nat \<Rightarrow> ('a, 'w::len word) packed_vec \<Rightarrow> nat list \<Rightarrow> nat \<Rightarrow> nat \<Rightarrow> 'w word list" where
  "freed_ids k v fs f e =
     (let m = last (owners v);
          ids = (outer_to_index v)[m := inner_of k (outer_to_index v ! m) OR of_nat e];
          ids = ids[f := next_inner k (ids ! f) OR outer_mask k]
      in if fs = [] then ids
         else ids[last fs := ids ! last fs AND (inner_mask k OR of_nat f)])"

lemma next_inner_cong: "inner_of k i = inner_of k j \<Longrightarrow> next_inner k i = next_inner k j"
  by (simp add: next_inner_def)

lemma freed_ids_nth:
  fixes v :: "('a, 'w::len word) packed_vec"
  assumes v: "pv_repr k v fs" and e: "e < length (elems v)" and f: "f = owners v ! e"
  defines "ids \<equiv> freed_ids k v fs f e"
  shows "length ids = length (outer_to_index v)"
    "s < length (outer_to_index v) \<Longrightarrow> inner_of k (ids ! s) =
      (if s = f then next_inner k (outer_to_index v ! s) else inner_of k (outer_to_index v ! s))"
    "slot_of k (ids ! f) = 2 ^ k - 1"
    "fs \<noteq> [] \<Longrightarrow> slot_of k (ids ! last fs) = f"
    "last (owners v) \<noteq> f \<Longrightarrow> slot_of k (ids ! last (owners v)) = e"
    "s < length (outer_to_index v) \<Longrightarrow> s \<noteq> f \<Longrightarrow> s \<noteq> last (owners v) \<Longrightarrow> fs = [] \<or> s \<noteq> last fs \<Longrightarrow>
      ids ! s = outer_to_index v ! s"
proof -
  note r = pv_reprD [OF v]
  let ?m = "last (owners v)"
  have ne: "owners v \<noteq> []" using e r(5) by auto
  have own: "f \<in> set (owners v)" "?m \<in> set (owners v)" using e r(5) f ne by simp_all
  then have lt: "f < length (outer_to_index v)" "?m < length (outer_to_index v)"
    using pv_slot_lt(2) [OF v] by auto
  then have lt: "f < length (outer_to_index v)" "?m < length (outer_to_index v)" "f < 2 ^ k" "e < 2 ^ k"
    using pv_slot_lt(4) [OF v] e r(3,14) by (auto simp del: One_nat_def)
  have notlast: "f \<noteq> last fs" "?m \<noteq> last fs" "last fs < length (outer_to_index v)"
    "last fs \<notin> set (owners v)" if "fs \<noteq> []"
    using own r(8) last_in_set [OF that] pv_last(3) [OF v that] by auto
  have wf: "slot_of k (of_nat f :: 'w word) = f" "inner_of k (of_nat f :: 'w word) = 0"
    "slot_of k (of_nat e :: 'w word) = e" "inner_of k (of_nat e :: 'w word) = 0"
    using lt r(1) by simp_all
  note ids = ids_def freed_ids_def Let_def
  show len: "length ids = length (outer_to_index v)" by (simp add: ids)
  have at_f: "ids ! f = next_inner k (outer_to_index v ! f) OR outer_mask k"
  proof (cases "?m = f")
    case True
    have "next_inner k (inner_of k (outer_to_index v ! f) OR of_nat e) = next_inner k (outer_to_index v ! f)"
      by (rule next_inner_cong) (simp add: id_simps wf)
    then show ?thesis using True lt notlast by (auto simp: ids)
  next
    case False
    then show ?thesis using lt notlast by (auto simp: ids)
  qed
  have at_m: "ids ! ?m = inner_of k (outer_to_index v ! ?m) OR of_nat e" if "?m \<noteq> f"
    using that lt notlast by (auto simp: ids)
  have at_l: "ids ! last fs = outer_to_index v ! last fs AND (inner_mask k OR of_nat f)" if "fs \<noteq> []"
    using notlast [OF that] that by (simp add: ids nth_list_update)
  show other: "ids ! s = outer_to_index v ! s"
    if "s < length (outer_to_index v)" "s \<noteq> f" "s \<noteq> ?m" "fs = [] \<or> s \<noteq> last fs" for s
    using that by (auto simp: ids)
  show "slot_of k (ids ! f) = 2 ^ k - 1"
    using slot_of_invalid [OF r(1)] by (simp add: at_f outer_mask_mask flip: invalid_index_mask)
  show "slot_of k (ids ! ?m) = e" if "?m \<noteq> f" using wf by (simp add: at_m [OF that])
  show "slot_of k (ids ! last fs) = f" if "fs \<noteq> []"
  proof -
    have "pv_next k v (last fs) = 2 ^ k - 1" using r(11) that by (metis append_butlast_last_id linked_snoc)
    then have "outer_of k (outer_to_index v ! last fs) = invalid_index k"
      using r(1) by (metis pv_next_def outer_of_eq_of_nat of_nat_invalid)
    then show ?thesis using wf by (simp add: at_l [OF that] slot_of_def outer_of_relink)
  qed
  show "inner_of k (ids ! s) = (if s = f then next_inner k (outer_to_index v ! s) else inner_of k (outer_to_index v ! s))"
    if "s < length (outer_to_index v)"
  proof (cases "s = f")
    case True
    then show ?thesis by (simp add: at_f id_simps outer_mask_mask)
  next
    case s: False
    show ?thesis
    proof (cases "s = ?m")
      case True
      then show ?thesis using s wf at_m by (simp add: id_simps)
    next
      case False
      then show ?thesis using s that other at_l by (cases "fs \<noteq> [] \<and> s = last fs") (auto simp: id_simps)
    qed
  qed
qed

definition freed_vec :: "nat \<Rightarrow> ('a, 'w::len word) packed_vec \<Rightarrow> nat list \<Rightarrow> nat \<Rightarrow> nat \<Rightarrow> ('a, 'w word) packed_vec" where
  "freed_vec k v fs f e = v\<lparr>outer_to_index := freed_ids k v fs f e,
     index_to_outer := butlast ((index_to_outer v)[e := last (index_to_outer v)]),
     elems := butlast ((elems v)[e := last (elems v)]),
     first_free := (if fs = [] then of_nat f else first_free v), last_free := of_nat f\<rparr>"

lemma pv_free_eq:
  fixes v :: "('a, 'w::len word) packed_vec"
  assumes v: "pv_repr k v fs" and e: "e < length (elems v)" and f: "f = owners v ! e"
    and i: "slot_of k i = f" "inner_of k i = inner_of k (outer_to_index v ! f)"
  shows "pv_free_id checked k v i =
    (if checked \<and> Suc e = length (elems v) then Inl Out_of_bounds else Inr (freed_vec k v fs f e))"
proof -
  note r = pv_reprD [OF v]
  let ?storage = "(index_to_outer v)[e := last (index_to_outer v)]"
  have ne: "index_to_outer v \<noteq> []" using e r(4) by auto
  have m: "last (index_to_outer v) = index_to_outer v ! (length (elems v) - 1)"
    using ne r(4) by (simp add: last_conv_nth)
  have um: "unat (last (index_to_outer v)) = last (owners v)" using ne by (simp add: owners_def last_map)
  have lt: "f < length (outer_to_index v)" "last (owners v) < length (outer_to_index v)"
  proof -
    show "f < length (outer_to_index v)" using pv_slot_lt(5) [OF v e] f by simp
    have "owners v \<noteq> []" using e r(5) by auto
    then show "last (owners v) < length (outer_to_index v)" using pv_slot_lt(2) [OF v] last_in_set by blast
  qed
  have small: "f < 2 ^ k" "e < 2 ^ k" using pv_slot_lt(4) [OF v lt(1)] e r(3,14) by auto
  have of: "outer_of k i = of_nat f" "unat (of_nat f :: 'w word) = f"
    using i(1) of_nat_small [OF small(1) r(1)] by (simp_all add: outer_of_eq_of_nat)
  have se: "slot_of k (outer_to_index v ! f) = e" using r(10) [OF e] f by (simp add: pv_next_def)
  then have oe: "outer_of k (outer_to_index v ! f) = of_nat e" "unat (of_nat e :: 'w word) = e"
    using of_nat_small [OF small(2) r(1)] by (simp_all add: outer_of_eq_of_nat)
  have read: "fetch (if checked then butlast ?storage else ?storage) e g =
      (if checked \<and> Suc e = length (elems v) then Inl Out_of_bounds else g (last (index_to_outer v)))"
    for g :: "'w word \<Rightarrow> ('a, 'w word) packed_vec res"
    using e r(4) by (auto simp: fetch_def nth_butlast)
  have e': "e < length (index_to_outer v)" using e r(4) by simp
  have ends: "last_free v = invalid_index k \<longleftrightarrow> fs = []" "fs = [] \<Longrightarrow> first_free v = invalid_index k"
    using r(13) pv_first(2) [OF v] pv_last(4) [OF v] by auto
  let ?ids = "(outer_to_index v)[last (owners v) := inner_of k (outer_to_index v ! last (owners v)) OR of_nat e]"
  let ?ids2 = "?ids[f := next_inner k (?ids ! f) OR outer_mask k]"
  let ?rest = "if last_free v = invalid_index k
      then require (first_free v = invalid_index k) Dcheck_failed
        (Inr (v\<lparr>elems := butlast ((elems v)[e := last (elems v)]), index_to_outer := butlast ?storage,
           outer_to_index := ?ids2, first_free := of_nat f, last_free := of_nat f\<rparr>))
      else fetch ?ids2 (unat (last_free v)) (\<lambda>l.
        Inr (v\<lparr>elems := butlast ((elems v)[e := last (elems v)]), index_to_outer := butlast ?storage,
          outer_to_index := ?ids2[unat (last_free v) := l AND (inner_mask k OR of_nat f)], last_free := of_nat f\<rparr>))"
  have "pv_free_id checked k v i =
      (if checked \<and> Suc e = length (elems v) then Inl Out_of_bounds else ?rest)"
    unfolding pv_free_id_def Let_def of oe fetch_in [OF lt(1)] fetch_in [OF e] fetch_in [OF e'] read um
      fetch_in [OF lt(2)] require_def
    using i(2) lt(1) by simp
  moreover have "?rest = Inr (freed_vec k v fs f e)"
  proof (cases "fs = []")
    case True
    then show ?thesis using ends by (simp add: freed_vec_def freed_ids_def Let_def)
  next
    case False
    then show ?thesis
      using ends pv_last(2,3) [OF v False] by (simp add: freed_vec_def freed_ids_def Let_def)
  qed
  ultimately show ?thesis by simp
qed

lemma freed_vec_simps:
  assumes v: "pv_repr k v fs" and e: "e < length (elems v)"
  shows "owners (freed_vec k v fs f e) = butlast ((owners v)[e := last (owners v)])"
    "outer_to_index (freed_vec k v fs f e) = freed_ids k v fs f e"
    "elems (freed_vec k v fs f e) = butlast ((elems v)[e := last (elems v)])"
    "length (elems (freed_vec k v fs f e)) = length (elems v) - 1"
    "pv_pairs (freed_vec k v fs f e) = butlast ((pv_pairs v)[e := last (pv_pairs v)])"
proof -
  have "index_to_outer v \<noteq> []" using pv_reprD(4) [OF v] e by auto
  then show own: "owners (freed_vec k v fs f e) = butlast ((owners v)[e := last (owners v)])"
    by (simp add: owners_def freed_vec_def map_butlast map_update last_map)
  show x: "elems (freed_vec k v fs f e) = butlast ((elems v)[e := last (elems v)])"
    by (simp add: freed_vec_def)
  show "pv_pairs (freed_vec k v fs f e) = butlast ((pv_pairs v)[e := last (pv_pairs v)])"
    unfolding pv_pairs_def own x using pv_reprD(5) [OF v] e by (intro swap_remove_zip) simp_all
qed (simp_all add: freed_vec_def)

lemma freed_vec_repr:
  fixes v :: "('a, 'w::len word) packed_vec"
  assumes v: "pv_repr k v fs" and e: "e < length (elems v)" and f: "f = owners v ! e"
  shows "pv_repr k (freed_vec k v fs f e) (fs @ [f])"
proof (rule pv_reprI)
  note r = pv_reprD [OF v] and s = freed_vec_simps [OF v e, of f] and n = freed_ids_nth [OF v e f]
  have eo: "e < length (owners v)" using e r(5) by simp
  note sr = swap_remove [OF eo r(6)]
  have f_own: "f \<in> set (owners v)" "f \<notin> set fs" using eo f r(8) nth_mem by auto
  then have f_lt: "f < length (outer_to_index v)" "f < 2 ^ k" using pv_slot_lt(2,4) [OF v] by auto
  show "k < LENGTH('w)" "length (outer_to_index (freed_vec k v fs f e)) \<le> 2 ^ k - 1"
    "length (index_to_outer (freed_vec k v fs f e)) = length (elems (freed_vec k v fs f e))"
    using r(1,2,4) by (simp_all add: s n(1)) (simp_all add: freed_vec_def)
  show "distinct (owners (freed_vec k v fs f e) @ fs @ [f])"
    unfolding s using sr r(7,8) f_own f by auto
  show "set (owners (freed_vec k v fs f e) @ fs @ [f]) = {..<length (outer_to_index (freed_vec k v fs f e))}"
    unfolding s n(1) using sr(1) r(9) f_own f by auto
  show "last_free (freed_vec k v fs f e) = (if fs @ [f] = [] then invalid_index k else of_nat (last (fs @ [f])))"
    by (simp add: freed_vec_def)
  show "inner_of k (first_free (freed_vec k v fs f e)) = 0"
    using r(1,12) f_lt by (simp add: freed_vec_def)
  show "pv_next k (freed_vec k v fs f e) (owners (freed_vec k v fs f e) ! e') = e'"
    if e': "e' < length (elems (freed_vec k v fs f e))" for e'
  proof -
    have lt: "e' < length (owners v) - 1" using e' s(4) r(5) by simp
    have at: "owners (freed_vec k v fs f e) ! e' = (if e' = e then last (owners v) else owners v ! e')"
      unfolding s by (rule swap_remove_nth [OF eo lt])
    show ?thesis
    proof (cases "e' = e")
      case True
      have "last (owners v) = owners v ! (length (owners v) - 1)" using eo by (intro last_conv_nth) auto
      moreover have "owners v ! e \<noteq> owners v ! (length (owners v) - 1)"
        using True lt eo nth_eq_iff_index_eq [OF r(6) eo, of "length (owners v) - 1"] by simp
      ultimately have "last (owners v) \<noteq> f" using f by simp
      then show ?thesis using True at n(5) by (simp add: pv_next_def s)
    next
      case False
      let ?s = "owners v ! e'"
      have nonempty: "owners v \<noteq> []" using eo by auto
      have "?s \<noteq> f" "?s \<noteq> last (owners v)"
        unfolding f last_conv_nth [OF nonempty]
        using False lt eo nth_eq_iff_index_eq [OF r(6), of e' e]
          nth_eq_iff_index_eq [OF r(6), of e' "length (owners v) - 1"] by auto
      moreover have "?s \<in> set (owners v)" using lt by simp
      then have "?s < length (outer_to_index v)" "fs = [] \<or> ?s \<noteq> last fs"
        using pv_slot_lt(2) [OF v] r(8) last_in_set by auto
      ultimately have "freed_ids k v fs f e ! ?s = outer_to_index v ! ?s" by (intro n(6))
      then show ?thesis using False at r(10) [of e'] lt r(5) by (simp add: pv_next_def s)
    qed
  qed
  show "linked (pv_next k (freed_vec k v fs f e)) (slot_of k (first_free (freed_vec k v fs f e))) (fs @ [f]) (2 ^ k - 1)"
  proof (cases "fs = []")
    case True
    then show ?thesis using n(3) r(1) f_lt(2) by (simp add: pv_next_def s) (simp add: freed_vec_def)
  next
    case False
    have "pv_next k (freed_vec k v fs f e) x = pv_next k v x" if "x \<in> set fs" "x \<noteq> last fs" for x
    proof -
      have "last (owners v) \<in> set (owners v)" using eo by (intro last_in_set) auto
      then have "x \<noteq> f" "x \<noteq> last (owners v)" "x < length (outer_to_index v)"
        using that f_own r(8) pv_slot_lt(1) [OF v] by auto
      then show ?thesis using that(2) n(6) by (simp add: pv_next_def s)
    qed
    moreover have "pv_next k (freed_vec k v fs f e) (last fs) = f" using n(4) [OF False] by (simp add: pv_next_def s)
    ultimately have "linked (pv_next k (freed_vec k v fs f e)) (slot_of k (first_free v)) fs f"
      using linked_relink_last [OF r(7) False r(11)] by blast
    then show ?thesis using n(3) False by (simp add: linked_snoc pv_next_def s) (simp add: freed_vec_def)
  qed
qed

lemma freed_vec_lookup:
  fixes v :: "('a, 'w::len word) packed_vec"
  assumes v: "pv_repr k v fs" and e: "e < length (elems v)" and f: "f = owners v ! e"
    and i: "slot_of k i = f" "inner_of k i = inner_of k (outer_to_index v ! f)"
  shows "pv_lookup k (freed_vec k v fs f e) = (pv_lookup k v)(i := None)"
proof (rule ext, rule option_ext)
  note r = pv_reprD [OF v] and s = freed_vec_simps [OF v e, of f] and n = freed_ids_nth [OF v e f]
  note v' = freed_vec_repr [OF v e f]
  let ?P = "set (pv_pairs v)"
  have len: "length (pv_pairs v) = length (elems v)" using r(5) by (simp add: pv_pairs_def)
  have at: "pv_pairs v ! e = (f, elems v ! e)" using e r(5) f by (simp add: pv_pairs_def)
  have "distinct (pv_pairs v)" using r(6) pv_pairs_keys [OF v] by (metis distinct_map)
  then have pairs: "set (pv_pairs (freed_vec k v fs f e)) = ?P - {(f, elems v ! e)}"
    using swap_remove(1) [of e "pv_pairs v"] e len at by (simp add: s)
  have own: "t \<in> set (owners v)" if "(t, y) \<in> ?P" for t y
    using that by (auto simp: pv_pairs_def dest: set_zip_leftD)
  have uniq: "y = elems v ! e" if mem: "(f, y) \<in> ?P" for y
  proof -
    obtain e' where "e' < length (elems v)" "owners v ! e' = f" "elems v ! e' = y"
      using mem pv_pairs_mem [OF v] by blast
    moreover from this have "e' = e" using e f r(5) nth_eq_iff_index_eq [OF r(6), of e' e] by simp
    ultimately show ?thesis by simp
  qed
  fix j y
  show "pv_lookup k (freed_vec k v fs f e) j = Some y \<longleftrightarrow> ((pv_lookup k v)(i := None)) j = Some y"
  proof (cases "slot_of k j = f")
    case True
    have "pv_lookup k (freed_vec k v fs f e) j \<noteq> Some y"
    proof
      assume "pv_lookup k (freed_vec k v fs f e) j = Some y"
      then have "(f, y) \<in> ?P - {(f, elems v ! e)}"
        unfolding pv_lookup_eq_Some [OF v'] pairs by (simp only: True)
      then show False using uniq [of y] by (metis DiffD1 DiffD2 singletonI)
    qed
    moreover have "j = i" if "pv_lookup k v j = Some y"
      using that True i id_eq_iff [of j i k] unfolding pv_lookup_eq_Some [OF v] by simp
    ultimately show ?thesis by auto
  next
    case False
    then have "j \<noteq> i" using i by auto
    moreover have "inner_of k (outer_to_index (freed_vec k v fs f e) ! slot_of k j) =
        inner_of k (outer_to_index v ! slot_of k j)" if "(slot_of k j, y) \<in> ?P"
      using False n(2) pv_slot_lt(2) [OF v own [OF that]] by (simp add: s)
    then have "pv_lookup k (freed_vec k v fs f e) j = Some y \<longleftrightarrow> pv_lookup k v j = Some y"
      using False unfolding pv_lookup_eq_Some [OF v] pv_lookup_eq_Some [OF v'] pairs by auto
    ultimately show ?thesis by simp
  qed
qed

text \<open>Erasing an id in use.\<close>

lemma pv_erase_repr:
  fixes v :: "('a, 'w::len word) packed_vec"
  assumes v: "pv_repr k v fs" and i: "pv_lookup k v i = Some x"
  obtains e v' where "e < length (elems v)" "elems v ! e = x"
    "pv_erase False k v i = Inr v'"
    "pv_erase True k v i = (if Suc e = length (elems v) then Inl Out_of_bounds else Inr v')"
    "pv_repr k v' (fs @ [slot_of k i])" "pv_lookup k v' = (pv_lookup k v)(i := None)"
    "elems v' = butlast ((elems v)[e := last (elems v)])"
    "length (outer_to_index v') = length (outer_to_index v)"
    "\<And>s. s < length (outer_to_index v) \<Longrightarrow> inner_of k (outer_to_index v' ! s) =
      (if s = slot_of k i then next_inner k (outer_to_index v ! s) else inner_of k (outer_to_index v ! s))"
proof -
  from i obtain e where e: "e < length (elems v)" "owners v ! e = slot_of k i" "elems v ! e = x"
    "inner_of k i = inner_of k (outer_to_index v ! slot_of k i)" by (rule pv_lookup_at [OF v])
  note f = e(2) [symmetric]
  note n = freed_ids_nth [OF v e(1) f]
  show ?thesis
    by (rule that [OF e(1,3), of "freed_vec k v fs (slot_of k i) e"])
      (use pv_free_eq [OF v e(1) f refl e(4)] freed_vec_repr [OF v e(1) f]
        freed_vec_lookup [OF v e(1) f refl e(4)] n(1,2)
       in \<open>simp_all add: pv_erase_def freed_vec_simps [OF v e(1)]\<close>)
qed

subsection \<open>Reserving slots\<close>

lemma foldl_update:
  assumes "b \<le> length xs"
  shows "length (foldl (\<lambda>xs i. xs[i := g i]) xs [a..<b]) = length xs \<and>
    foldl (\<lambda>xs i. xs[i := g i]) xs [a..<b] ! j = (if a \<le> j \<and> j < b then g j else xs ! j)"
  using assms by (induction b arbitrary: j) (auto simp: less_Suc_eq nth_list_update)

lemma pv_reserve_grow:
  fixes v :: "('a, 'w::len word) packed_vec"
  assumes v: "pv_repr k v fs" and n: "unat n \<le> 2 ^ k - 1" "length (outer_to_index v) < unat n"
  obtains v' where "pv_reserve_ids k v n = Inr v'" "length (outer_to_index v') = unat n"
    "\<And>j. j < length (outer_to_index v) \<Longrightarrow> outer_to_index v' ! j = outer_to_index v ! j"
    "\<And>j. length (outer_to_index v) \<le> j \<Longrightarrow> j < unat n \<Longrightarrow>
       outer_to_index v' ! j = (if Suc j = unat n then first_free v else of_nat (Suc j))"
    "first_free v' = of_nat (length (outer_to_index v))"
    "last_free v' = (if fs = [] then of_nat (unat n - 1) else last_free v)"
    "elems v' = elems v" "index_to_outer v' = index_to_outer v"
proof -
  let ?o = "length (outer_to_index v)" and ?n = "unat n"
  let ?ids = "outer_to_index v @ replicate (?n - ?o) (0 :: 'w word)"
  obtain ids where ids: "ids = foldl (\<lambda>ids i. ids[i := of_nat (i + 1)]) ?ids [?o..<?n - 1]" by blast
  let ?v' = "v\<lparr>outer_to_index := ids[?n - 1 := first_free v], first_free := of_nat ?o,
        last_free := (if last_free v = invalid_index k then n - 1 else last_free v)\<rparr>"
  note r = pv_reprD [OF v]
  have le: "n \<le> max_size k" using n r(1) by (simp add: word_le_nat_alt unat_mask_lt)
  have eq: "pv_reserve_ids k v n = Inr ?v'"
    unfolding pv_reserve_ids_def Let_def ids using n le by simp
  note f = foldl_update [of "?n - 1" ?ids "\<lambda>i. of_nat (i + 1)" ?o]
  have len: "length ids = ?n" "?n - 1 < length ids" using f n unfolding ids by (simp_all del: of_nat_add)
  have at: "ids ! j = (if ?o \<le> j \<and> j < ?n - 1 then of_nat (j + 1) else ?ids ! j)" for j
    using f [of j] n unfolding ids by (simp del: of_nat_add)
  have last: "n - 1 = of_nat (?n - 1)" using n by (simp add: of_nat_diff)
  have empty_iff: "last_free v = invalid_index k \<longleftrightarrow> fs = []" using r(13) pv_last(4) [OF v] by auto
  show ?thesis
  proof (rule that [OF eq])
    show "length (outer_to_index ?v') = ?n" using len(1) by simp
    show "last_free ?v' = (if fs = [] then of_nat (?n - 1) else last_free v)" using last empty_iff by simp
    fix j
    show "outer_to_index ?v' ! j = outer_to_index v ! j" if "j < ?o"
      using that n len(2) by (simp add: at nth_append)
    show "outer_to_index ?v' ! j = (if Suc j = ?n then first_free v else of_nat (Suc j))" if "?o \<le> j" "j < ?n"
      using that n len(2) by (auto simp: at nth_list_update)
  qed simp_all
qed

lemma pv_reserve_ok:
  fixes v :: "('a, 'w::len word) packed_vec"
  assumes v: "pv_repr k v fs" and n: "n \<le> max_size k"
  obtains v' where "pv_reserve_ids k v n = Inr v'" "pv_repr k v' ([length (outer_to_index v)..<unat n] @ fs)"
    "pv_lookup k v' = pv_lookup k v" "elems v' = elems v"
    "length (outer_to_index v') = max (length (outer_to_index v)) (unat n)"
    "\<And>s. s < length (outer_to_index v) \<Longrightarrow> inner_of k (outer_to_index v' ! s) = inner_of k (outer_to_index v ! s)"
    "\<And>s. length (outer_to_index v) \<le> s \<Longrightarrow> s < unat n \<Longrightarrow> inner_of k (outer_to_index v' ! s) = 0"
proof (cases "length (outer_to_index v) < unat n")
  case False
  then have "pv_reserve_ids k v n = Inr v" using n by (simp add: pv_reserve_ids_def)
  then show ?thesis by (rule that) (use False v in \<open>auto simp: max_def\<close>)
next
  case True
  note r = pv_reprD [OF v]
  let ?o = "length (outer_to_index v)" and ?n = "unat n"
  have n': "?n \<le> 2 ^ k - 1" using n r(1) by (simp add: word_le_nat_alt unat_mask_lt)
  then have n'': "?n < 2 ^ k" by (rule order_le_less_trans) simp
  obtain v' where eq: "pv_reserve_ids k v n = Inr v'" and len: "length (outer_to_index v') = ?n"
    and old: "\<And>j. j < ?o \<Longrightarrow> outer_to_index v' ! j = outer_to_index v ! j"
    and new: "\<And>j. ?o \<le> j \<Longrightarrow> j < ?n \<Longrightarrow>
      outer_to_index v' ! j = (if Suc j = ?n then first_free v else of_nat (Suc j))"
    and ends: "first_free v' = of_nat ?o" "last_free v' = (if fs = [] then of_nat (?n - 1) else last_free v)"
    and same: "elems v' = elems v" "index_to_outer v' = index_to_outer v"
    using pv_reserve_grow [OF v n' True] by blast
  have own: "owners v' = owners v" "pv_pairs v' = pv_pairs v" using same by (simp_all add: owners_def pv_pairs_def)
  let ?fs = "[?o..<?n] @ fs"
  have next_old: "pv_next k v' s = pv_next k v s" if "s < ?o" for s using that old by (simp add: pv_next_def)
  have "pv_repr k v' ?fs"
  proof (rule pv_reprI)
    have "pv_next k v' i = (if Suc i = ?n then slot_of k (first_free v) else Suc i)" if "?o \<le> i" "i < ?n" for i
      using that r(1) n'' by (simp add: pv_next_def new del: of_nat_Suc)
    then have "linked (pv_next k v') ?o [?o..<?n] (slot_of k (first_free v))"
      using linked_upt [of ?o ?n "pv_next k v'"] True by auto
    moreover have "linked (pv_next k v') (slot_of k (first_free v)) fs (2 ^ k - 1)"
    proof -
      have "linked (pv_next k v') (slot_of k (first_free v)) fs (2 ^ k - 1) =
          linked (pv_next k v) (slot_of k (first_free v)) fs (2 ^ k - 1)"
        by (rule linked_cong) (use next_old pv_slot_lt(1) [OF v] in metis)
      then show ?thesis using r(11) by simp
    qed
    moreover have "slot_of k (first_free v') = ?o" using ends(1) r(1) True n'' by auto
    ultimately show "linked (pv_next k v') (slot_of k (first_free v')) ?fs (2 ^ k - 1)"
      by (auto simp: linked_append)
    show "inner_of k (first_free v') = 0" using ends(1) r(1) True n'' by auto
    show "distinct (owners v' @ ?fs)"
      using r(6,7,8) pv_slot_lt(1,2) [OF v] unfolding own by (auto simp: not_less [symmetric])
    show "set (owners v' @ ?fs) = {..<length (outer_to_index v')}"
    proof -
      have "set (owners v' @ ?fs) = (set (owners v) \<union> set fs) \<union> {?o..<?n}" unfolding own by auto
      also have "\<dots> = {..<?n}" unfolding r(9) using True by (intro ivl_disj_un) simp
      finally show ?thesis by (simp only: len)
    qed
    show "last_free v' = (if ?fs = [] then invalid_index k else of_nat (last ?fs))"
      using r(13) ends(2) True by simp
    show "pv_next k v' (owners v' ! e) = e" if "e < length (elems v')" for e
      using that next_old pv_slot_lt(5) [OF v] r(10) by (simp add: own same)
  qed (use r(1,4) n' len same in simp_all)
  moreover have lookup: "pv_lookup k v' = pv_lookup k v"
  proof
    fix i show "pv_lookup k v' i = pv_lookup k v i"
  proof (cases "slot_of k i < ?o")
    case True
    then show ?thesis using old by (simp add: pv_lookup_def own)
  next
    case False
    then have "slot_of k i \<notin> fst ` set (pv_pairs v)"
      using pv_slot_lt(2) [OF v] pv_pairs_keys [OF v] by (metis list.set_map)
    then have "map_of (pv_pairs v) (slot_of k i) = None" by (simp add: map_of_eq_None_iff)
    then show ?thesis by (simp add: pv_lookup_def own)
  qed
  qed
  moreover have fresh: "inner_of k (outer_to_index v' ! s) = 0" if "?o \<le> s" "s < ?n" for s
    using that r(1,12) n'' new by (simp del: of_nat_Suc)
  ultimately show ?thesis
    by (intro that [OF eq]) (use old same(1) len True in \<open>simp_all add: max_def\<close>)
qed

lemma pv_repr_empty: "k < LENGTH('w) \<Longrightarrow> pv_repr k (pv_empty k :: ('a, 'w::len word) packed_vec) []"
  by (simp add: pv_repr_def pv_empty_def slot_of_invalid owners_def)

subsection \<open>The contract of the interface\<close>

lemma pv_put_repr:
  fixes v :: "('a, 'w::len word) packed_vec"
  assumes v: "pv_repr k v fs" and i: "pv_lookup k v i = Some x"
  obtains v' where "pv_put k v i y = Inr v'" "pv_repr k v' fs" "pv_lookup k v' = (pv_lookup k v)(i \<mapsto> y)"
proof -
  note r = pv_reprD [OF v]
  from i obtain e where e: "e < length (elems v)" "owners v ! e = slot_of k i"
    "inner_of k i = inner_of k (outer_to_index v ! slot_of k i)"
    "slot_of k (outer_to_index v ! slot_of k i) = e" by (rule pv_lookup_at [OF v])
  let ?v' = "v\<lparr>elems := (elems v)[e := y]\<rparr>"
  have own: "owners ?v' = owners v" "pv_next k ?v' = pv_next k v" by (simp_all add: owners_def pv_next_def fun_eq_iff)
  have repr: "pv_repr k ?v' fs"
    using v unfolding pv_repr_def own by simp
  have pairs: "pv_pairs ?v' = (pv_pairs v)[e := (slot_of k i, y)]"
    using e r(5) by (auto intro!: nth_equalityI simp: pv_pairs_def own nth_list_update)
  have "pv_lookup k ?v' j = ((pv_lookup k v)(i \<mapsto> y)) j" for j
  proof (rule option_ext)
    fix z
    have at: "(slot_of k j, z) \<in> set (pv_pairs ?v') \<longleftrightarrow>
        (if slot_of k j = slot_of k i then z = y else (slot_of k j, z) \<in> set (pv_pairs v))"
    proof -
      have uniq: "e' = e" if "e' < length (elems v)" "owners v ! e' = slot_of k i" for e'
        using that e(1,2) r(5) nth_eq_iff_index_eq [OF r(6), of e' e] by simp
      show ?thesis
      proof (cases "slot_of k j = slot_of k i")
        case True
        have "(slot_of k i, z) \<in> set (pv_pairs ?v') \<longleftrightarrow> z = y"
        proof
          assume "(slot_of k i, z) \<in> set (pv_pairs ?v')"
          then obtain e' where e': "e' < length (elems v)" "owners v ! e' = slot_of k i" "elems ?v' ! e' = z"
            unfolding pv_pairs_mem [OF repr] own by auto
          then show "z = y" using uniq [OF e'(1,2)] e(1) by simp
        next
          assume "z = y"
          then show "(slot_of k i, z) \<in> set (pv_pairs ?v')"
            unfolding pv_pairs_mem [OF repr] own using e(1,2) by (intro exI [of _ e]) simp
        qed
        then show ?thesis using True by simp
      next
        case False
        have same: "elems ?v' ! e' = elems v ! e'" if "owners v ! e' = slot_of k j" for e'
          using that False e(2) by (cases "e' = e") simp_all
        have "(slot_of k j, z) \<in> set (pv_pairs ?v') \<longleftrightarrow> (slot_of k j, z) \<in> set (pv_pairs v)"
          unfolding pv_pairs_mem [OF repr] pv_pairs_mem [OF v] own using same by fastforce
        then show ?thesis using False by simp
      qed
    qed
    show "pv_lookup k ?v' j = Some z \<longleftrightarrow> ((pv_lookup k v)(i \<mapsto> y)) j = Some z"
    proof (cases "slot_of k j = slot_of k i")
      case True
      then have "inner_of k j = inner_of k (outer_to_index v ! slot_of k j) \<longleftrightarrow> j = i"
        using e(3) id_eq_iff [of j i k] by simp
      moreover have "pv_lookup k v j = Some z \<Longrightarrow> inner_of k j = inner_of k (outer_to_index v ! slot_of k j)"
        unfolding pv_lookup_eq_Some [OF v] by (rule conjunct1)
      ultimately show ?thesis using True unfolding pv_lookup_eq_Some [OF repr] at by auto
    next
      case False
      then have "j \<noteq> i" by auto
      then show ?thesis using False unfolding pv_lookup_eq_Some [OF repr] at by (simp add: pv_lookup_eq_Some [OF v])
    qed
  qed
  moreover have "pv_put k v i y = Inr ?v'" using i e(4) by (simp add: pv_put_def pv_get_lookup [OF v])
  ultimately show ?thesis using that repr by blast
qed

text \<open>With a vector that does not check its bounds, the container keeps the contract, for at most
  \<open>MAX_SIZE - 1\<close> objects.\<close>

interpretation pv: id_map "pv_inv k" "pv_lookup k" "invalid_index k" "2 ^ k - 2"
    "pv_emplace k" "pv_erase False k" "pv_get k" "pv_is_valid_id k"
  for k :: nat
proof unfold_locales
  fix v :: "('a, 'b::len word) packed_vec" and i x
  assume "pv_inv k v"
  then obtain fs where fs: "pv_repr k v fs" by (auto simp: pv_inv_def)
  show "finite (dom (pv_lookup k v))" using fs by (rule pv_dom)
  show "pv_lookup k v (invalid_index k) = None" using fs by (rule pv_lookup_invalid)
  show "\<exists>i v'. pv_emplace k v x = Inr (i, v') \<and> pv_inv k v' \<and> pv_lookup k v i = None \<and>
      pv_lookup k v' = (pv_lookup k v)(i \<mapsto> x)" if "card (dom (pv_lookup k v)) < 2 ^ k - 2"
    by (rule pv_emplace_repr [OF fs, of x]) (use that in \<open>auto simp: pv_dom(3) [OF fs] pv_inv_def\<close>)
  show "\<exists>v'. pv_erase False k v i = Inr v' \<and> pv_inv k v' \<and> pv_lookup k v' = (pv_lookup k v)(i := None)"
    if "pv_lookup k v i = Some x"
    by (rule pv_erase_repr [OF fs that]) (auto simp: pv_inv_def)
  show "pv_get k v i = Inr x" if "pv_lookup k v i = Some x"
    using that by (simp add: pv_get_lookup [OF fs])
  show "\<exists>e. pv_get k v i = Inl e" if "pv_lookup k v i = None"
    using that by (simp add: pv_get_lookup [OF fs])
qed

lemma pv_inv_new:
  fixes n m :: "'w::len word"
  assumes "k < LENGTH('w)" "n \<le> max_size k" "m \<le> max_size k"
  shows "\<exists>v. pv_new k n m = Inr v \<and> pv_inv k v \<and> pv_lookup k v = Map.empty"
proof -
  let ?e = "pv_empty k :: ('a, 'w word) packed_vec"
  have e: "pv_lookup k ?e = Map.empty"
    by (simp add: pv_lookup_def pv_pairs_def pv_empty_def owners_def fun_eq_iff)
  obtain v1 where v1: "pv_reserve_ids k ?e n = Inr v1" "pv_repr k v1 ([length (outer_to_index ?e)..<unat n] @ [])"
    "pv_lookup k v1 = pv_lookup k ?e" by (rule pv_reserve_ok [OF pv_repr_empty [OF assms(1)] assms(2)]) (rule that)
  obtain v2 where v2: "pv_reserve_ids k v1 m = Inr v2"
    "pv_repr k v2 ([length (outer_to_index v1)..<unat m] @ [length (outer_to_index ?e)..<unat n] @ [])"
    "pv_lookup k v2 = pv_lookup k v1" by (rule pv_reserve_ok [OF v1(2) assms(3)]) (rule that)
  then show ?thesis
    using v1 e assms(3) by (auto simp: pv_new_def pv_reserve_elements_def pv_inv_def)
qed

subsection \<open>Properties\<close>

lemmas pv_eval = pv_empty_def pv_emplace_def pv_create_id_def pv_erase_def pv_free_id_def pv_get_def
  pv_is_valid_id_def pv_id_from_iterator_def pv_id_from_pointer_def pv_reserve_ids_def
  outer_mask_def inner_mask_def invalid_index_def max_size_def max_index_def outer_of_def
  inner_of_def slot_of_def next_inner_def require_def fetch_def Let_def

text \<open>C20. A packed id vector with fewer than \<open>MAX_SIZE - 1\<close> objects is a finite map: storing returns
  a new id for the object, reading an id in use returns its object, erasing it removes just
  that id - although the last object is moved into the gap -, assigning through it changes just
  that object, and reading any other id aborts. \<open>insert\<close> is \<open>emplace\<close>, and \<open>size\<close> and \<open>empty\<close>
  count the ids in use.\<close>

theorem pv_finite_map:
  assumes inv: "pv_inv k v"
  shows "(card (dom (pv_lookup k v)) < 2 ^ k - 2 \<longrightarrow> (\<exists>i v'. pv_emplace k v x = Inr (i, v') \<and> pv_inv k v' \<and>
      i \<noteq> invalid_index k \<and> pv_lookup k v i = None \<and> pv_lookup k v' = (pv_lookup k v)(i \<mapsto> x))) \<and>
    (\<forall>i y. pv_lookup k v i = Some y \<longrightarrow> pv_get k v i = Inr y \<and>
      (\<exists>v'. pv_erase False k v i = Inr v' \<and> pv_inv k v' \<and> pv_lookup k v' = (pv_lookup k v)(i := None)) \<and>
      (\<exists>v'. pv_put k v i x = Inr v' \<and> pv_inv k v' \<and> pv_lookup k v' = (pv_lookup k v)(i \<mapsto> x))) \<and>
    (\<forall>i. pv_lookup k v i = None \<longrightarrow> (\<exists>e. pv_get k v i = Inl e)) \<and>
    pv_insert k v x = pv_emplace k v x \<and>
    unat (pv_size v) = card (dom (pv_lookup k v)) \<and> (pv_is_empty v \<longleftrightarrow> pv_lookup k v = Map.empty)"
proof (intro conjI allI impI)
  from inv obtain fs where fs: "pv_repr k v fs" by (auto simp: pv_inv_def)
  note d = pv_dom [OF fs] and r = pv_reprD [OF fs]
  have "length (elems v) < 2 ^ k" using r(3,14) by simp
  then show "unat (pv_size v) = card (dom (pv_lookup k v))" using r(1) d(3) by (simp add: pv_size_def of_nat_small)
  show "pv_is_empty v \<longleftrightarrow> pv_lookup k v = Map.empty"
    unfolding pv_is_empty_def using d(1) by (metis dom_eq_empty_conv image_is_empty lessThan_empty_iff length_0_conv)
  show "\<exists>v'. pv_put k v i x = Inr v' \<and> pv_inv k v' \<and> pv_lookup k v' = (pv_lookup k v)(i \<mapsto> x)"
    if "pv_lookup k v i = Some y" for i y
    by (rule pv_put_repr [OF fs that, of x]) (auto simp: pv_inv_def)
  show "\<exists>i v'. pv_emplace k v x = Inr (i, v') \<and> pv_inv k v' \<and>
      i \<noteq> invalid_index k \<and> pv_lookup k v i = None \<and> pv_lookup k v' = (pv_lookup k v)(i \<mapsto> x)"
    if "card (dom (pv_lookup k v)) < 2 ^ k - 2"
    by (rule pv.emplaceE [OF inv that, of x]) blast
qed (auto intro: pv.get_ok [OF inv] pv.erase_ok [OF inv] pv.get_none [OF inv] simp: pv_insert_def pv_emplace_def)

definition three_packed :: "(nat, 8 word) packed_vec" where
  "three_packed = \<lparr>outer_to_index = [0, 1, 2], index_to_outer = [0, 1, 2], elems = [7, 8, 9],
     first_free = 7, last_free = 7\<rparr>"

lemma three_packed_repr: "pv_repr 3 three_packed []"
proof -
  have s: "slot_of 3 (i :: 8 word) = unat i mod 8" for i by (simp add: slot_of_mod)
  have "pv_next 3 three_packed (owners three_packed ! e) = e" if "e < 3" for e
  proof -
    from that have "e = 0 \<or> e = 1 \<or> e = 2" by auto
    then show ?thesis by (auto simp: pv_next_def owners_def three_packed_def s)
  qed
  moreover have "{..<Suc (Suc (Suc 0))} = {0, Suc 0, 2}" by auto
  ultimately show ?thesis
    by (intro pv_reprI) (simp_all add: three_packed_def owners_def s inner_of_def inner_mask_def
        outer_mask_def invalid_index_def)
qed

lemma three_packed_inv: "pv_inv 3 three_packed"
  using three_packed_repr by (auto simp: pv_inv_def)

theorem pv_finite_map_witness:
  "pv_lookup 3 three_packed 0 = Some 7 \<and> pv_get 3 three_packed 0 = Inr 7 \<and>
    (\<exists>v'. pv_erase False 3 three_packed 0 = Inr v' \<and> elems v' = [9, 8])"
proof -
  have l: "pv_lookup 3 three_packed 0 = Some 7"
    by (simp add: pv_lookup_def pv_pairs_def three_packed_def owners_def slot_of_mod)
  from pv_finite_map [OF three_packed_inv, of 0] l have "pv_get 3 three_packed 0 = Inr 7" by blast
  with l show ?thesis by (simp add: three_packed_def pv_eval)
qed

text \<open>C22. Iteration and ids agree: the position of every stored object gives the id that reads it,
  through \<open>id_from_iterator\<close> and \<open>id_from_pointer\<close> alike, every id in use comes from exactly one
  position, and \<open>end()\<close> gives \<open>INVALID_INDEX\<close>.\<close>

theorem pv_iterator_roundtrip:
  assumes inv: "pv_inv k v"
  shows "(\<forall>e < length (elems v). \<exists>i. pv_id_from_iterator k v e = Inr i \<and> pv_id_from_pointer k v e = Inr i \<and>
      pv_is_valid_id k v i \<and> pv_get k v i = Inr (elems v ! e)) \<and>
    (\<forall>i x. pv_get k v i = Inr x \<longrightarrow> (\<exists>!e. e < length (elems v) \<and> pv_id_from_iterator k v e = Inr i)) \<and>
    pv_id_from_iterator k v (length (elems v)) = Inr (invalid_index k)"
proof -
  from inv obtain fs where v: "pv_repr k v fs" by (auto simp: pv_inv_def)
  note r = pv_reprD [OF v]
  have iter: "pv_id_from_iterator k v e = Inr (pv_id_at k v e)" if "e < length (elems v)" for e
    using that r(4) pv_owner_word(1) [OF v that] pv_slot_lt(5) [OF v that]
    by (simp add: pv_id_from_iterator_def pv_id_at_def)
  have "pv_id_from_pointer k v e = Inr (pv_id_at k v e)" if "e < length (elems v)" for e
  proof -
    have "elems v \<noteq> []" using that by auto
    then show ?thesis using that iter [OF that] by (simp add: pv_id_from_pointer_def)
  qed
  moreover have "pv_is_valid_id k v (pv_id_at k v e) \<and> pv_get k v (pv_id_at k v e) = Inr (elems v ! e)"
    if "e < length (elems v)" for e
    using pv_id_at_lookup [OF v that] pv_slot_lt(5) [OF v that]
    by (simp add: pv_is_valid_id_def pv_get_lookup [OF v] Let_def)
  moreover have "\<exists>!e. e < length (elems v) \<and> pv_id_from_iterator k v e = Inr i" if "pv_get k v i = Inr x" for i x
  proof -
    have "pv_lookup k v i = Some x" using that pv.get_iff [OF inv] by blast
    then obtain e where e: "e < length (elems v)" "i = pv_id_at k v e" using pv_lookup_id_at [OF v] by blast
    show ?thesis
    proof (rule ex1I [of _ e])
      fix e'
      assume "e' < length (elems v) \<and> pv_id_from_iterator k v e' = Inr i"
      then have "e' < length (elems v)" "pv_id_at k v e' = pv_id_at k v e" using iter [of e'] e by auto
      then show "e' = e" using e(1) inj_onD [OF pv_dom(2) [OF v]] by simp
    qed (use e iter in simp)
  qed
  moreover have "pv_id_from_iterator k v (length (elems v)) = Inr (invalid_index k)"
    by (simp add: pv_id_from_iterator_def)
  ultimately show ?thesis using iter by blast
qed

theorem pv_iterator_roundtrip_witness:
  "pv_id_from_iterator 3 three_packed 1 = Inr 1 \<and> pv_get 3 three_packed 1 = Inr 8"
proof -
  have "1 < length (elems three_packed)" by (simp add: three_packed_def)
  with pv_iterator_roundtrip [OF three_packed_inv] obtain i where
    "pv_id_from_iterator 3 three_packed 1 = Inr i" "pv_get 3 three_packed i = Inr (elems three_packed ! 1)" by blast
  moreover have "pv_id_from_iterator 3 three_packed 1 = Inr 1" by (simp add: three_packed_def pv_eval)
  ultimately show ?thesis by (simp add: three_packed_def)
qed

text \<open>C23. \<open>erase\<close> reads past the end of \<open>index_to_outer_\<close> exactly when the erased object is the last
  one, in particular whenever a single object is left: a vector that checks its bounds aborts
  there.\<close>

theorem pv_erase_last_reads_past_end:
  assumes inv: "pv_inv k v" and i: "pv_get k v i = Inr x"
  shows "pv_erase True k v i = Inl Out_of_bounds \<longleftrightarrow>
    pv_id_from_iterator k v (length (elems v) - 1) = Inr i"
proof -
  from inv obtain fs where v: "pv_repr k v fs" by (auto simp: pv_inv_def)
  note r = pv_reprD [OF v]
  have "pv_lookup k v i = Some x" using i pv.get_iff [OF inv] by blast
  then obtain e where e: "e < length (elems v)" "i = pv_id_at k v e" using pv_lookup_id_at [OF v] by blast
  let ?n = "length (elems v) - 1"
  have n: "?n < length (elems v)" using e(1) by simp
  have "pv_id_from_iterator k v ?n = Inr (pv_id_at k v ?n)"
    using n r(4) pv_owner_word(1) [OF v n] pv_slot_lt(5) [OF v n]
    by (simp add: pv_id_from_iterator_def pv_id_at_def)
  moreover have "pv_id_at k v ?n = pv_id_at k v e \<longleftrightarrow> ?n = e"
    using inj_on_eq_iff [OF pv_dom(2) [OF v]] n e(1) by simp
  moreover have "pv_erase True k v i = Inl Out_of_bounds \<longleftrightarrow> Suc e = length (elems v)"
    using pv_free_eq [OF v e(1) refl, of i True] pv_id_at_lookup(1,2) [OF v e(1)] e(2) by (simp add: pv_erase_def)
  ultimately show ?thesis using e by auto
qed

theorem pv_erase_last_reads_past_end_witness:
  "pv_erase True 3 three_packed 2 = Inl Out_of_bounds"
proof -
  have "pv_get 3 three_packed 2 = Inr 9" "pv_id_from_iterator 3 three_packed (length (elems three_packed) - 1) = Inr 2"
    by (simp_all add: three_packed_def pv_eval)
  with pv_erase_last_reads_past_end [OF three_packed_inv] show ?thesis by blast
qed

text \<open>\<open>is_valid_id\<close> compares tags only, so it accepts ids that were never handed out: for every
  free slot there is an id that it calls valid although reading it aborts. In the witness,
  erasing such an id silently destroys an object that has another id.\<close>

theorem pv_unissued_id_valid:
  fixes v :: "('a, 'w::len word) packed_vec"
  assumes v: "pv_repr k v fs" and s: "s \<in> set fs"
  shows "\<exists>i. slot_of k i = s \<and> pv_is_valid_id k v i \<and> pv_lookup k v i = None \<and> (\<exists>e. pv_get k v i = Inl e)"
proof (intro exI conjI)
  note r = pv_reprD [OF v]
  let ?i = "inner_of k (outer_to_index v ! s) OR of_nat s"
  have lt: "s < length (outer_to_index v)" "s < 2 ^ k" using pv_slot_lt(1,4) [OF v] s by auto
  have i: "inner_of k ?i = inner_of k (outer_to_index v ! s)" using lt r(1) by (simp add: id_simps)
  show sl: "slot_of k ?i = s" using lt r(1) by simp
  show "pv_is_valid_id k v ?i" using lt i sl by (simp add: pv_is_valid_id_def)
  have "s \<notin> set (owners v)" using s r(8) by auto
  then have "s \<notin> fst ` set (pv_pairs v)" using pv_pairs_keys [OF v] by (metis list.set_map)
  then have n: "pv_lookup k v ?i = None" using sl by (simp add: pv_lookup_def map_of_eq_None_iff)
  then show "pv_lookup k v ?i = None" .
  show "pv_get k v ?i = Inl Dcheck_failed" using n by (simp add: pv_get_lookup [OF v])
qed

theorem pv_unissued_id_valid_witness:
  "\<exists>v. bind_res (pv_erase False 3 three_packed 1) (\<lambda>v. pv_erase False 3 v 0) = Inr v \<and>
    elems v = [9] \<and> pv_is_valid_id 3 v 9 \<and> (\<exists>e. pv_get 3 v 9 = Inl e) \<and>
    (\<exists>v'. pv_erase False 3 v 9 = Inr v' \<and> elems v' = [])"
proof -
  let ?v1 = "\<lparr>outer_to_index = [0, 15, 1], index_to_outer = [0, 2], elems = [7, 9],
     first_free = 1, last_free = 1\<rparr> :: (nat, 8 word) packed_vec"
  let ?v = "\<lparr>outer_to_index = [15, 8, 0], index_to_outer = [2], elems = [9],
     first_free = 1, last_free = 0\<rparr> :: (nat, 8 word) packed_vec"
  have run: "pv_erase False 3 three_packed 1 = Inr ?v1" "pv_erase False 3 ?v1 0 = Inr ?v"
    by (simp_all add: three_packed_def pv_eval)
  have l: "pv_lookup 3 three_packed 1 = Some 8" "pv_lookup 3 ?v1 0 = Some 7"
    by (simp_all add: pv_lookup_def pv_pairs_def three_packed_def owners_def slot_of_mod inner_of_def
        inner_mask_def outer_mask_def)
  have sl: "slot_of 3 (1 :: 8 word) = 1" "slot_of 3 (0 :: 8 word) = 0" by (simp_all add: slot_of_mod)
  obtain v1 where "pv_erase False 3 three_packed 1 = Inr v1" "pv_repr 3 v1 ([] @ [slot_of 3 (1 :: 8 word)])"
    by (rule pv_erase_repr [OF three_packed_repr l(1)]) (rule that)
  then have v1: "pv_repr 3 ?v1 [1]" using run(1) sl by simp
  obtain v where "pv_erase False 3 ?v1 0 = Inr v" "pv_repr 3 v ([1] @ [slot_of 3 (0 :: 8 word)])"
    by (rule pv_erase_repr [OF v1 l(2)]) (rule that)
  then have v: "pv_repr 3 ?v [1, 0]" using run(2) sl by simp
  obtain i where i: "slot_of 3 i = 1" "pv_is_valid_id 3 ?v i" "\<exists>e. pv_get 3 ?v i = Inl e"
    using pv_unissued_id_valid [OF v, of 1] by auto
  have "inner_of 3 i = inner_of 3 9" using i(1,2) by (simp add: pv_is_valid_id_def inner_of_def inner_mask_def outer_mask_def)
  then have "i = 9" using i(1) id_eq_iff [of i 9 3] by (simp add: slot_of_mod)
  then have "pv_is_valid_id 3 ?v 9 \<and> (\<exists>e. pv_get 3 ?v 9 = Inl e)" using i by simp
  moreover have "\<exists>v'. pv_erase False 3 ?v 9 = Inr v' \<and> elems v' = []" by (simp add: pv_eval)
  ultimately show ?thesis using run by (intro exI [of _ ?v]) simp
qed

text \<open>The container refuses its last place: with \<open>MAX_SIZE - 1\<close> objects stored the \<open>DCHECK\<close> of
  \<open>create_id\<close> fails, although an id would be left.\<close>

theorem pv_full_off_by_one:
  fixes v :: "('a, 'w::len word) packed_vec"
  assumes v: "pv_repr k v fs" and full: "length (elems v) = 2 ^ k - 2" "0 < k"
  shows "pv_emplace k v x = Inl Dcheck_failed \<and> unat (max_size k :: 'w word) = Suc (length (elems v))"
proof -
  note r = pv_reprD [OF v]
  have "mask k \<noteq> (0 :: 'w word)" using full(2) by (simp add: mask_eq_0_iff)
  then have m: "unat (max_index k :: 'w word) = 2 ^ k - 2"
    using unat_minus_one [of "mask k :: 'w word"] unat_mask_lt [OF r(1)]
    by (simp add: max_index_def outer_mask_mask)
  have n: "unat (of_nat (length (elems v)) :: 'w word) = 2 ^ k - 2"
    using of_nat_small [OF _ r(1), of "length (elems v)"] full by simp
  have "\<not> (of_nat (length (elems v)) :: 'w word) < max_index k" unfolding word_less_nat_alt m n by simp
  then have "pv_emplace k v x = Inl Dcheck_failed" by (simp add: pv_emplace_def pv_create_id_def Let_def)
  moreover have "(2 :: nat) ^ 1 \<le> 2 ^ k" using full(2) by (intro power_increasing) auto
  then have "unat (max_size k :: 'w word) = Suc (length (elems v))" using unat_mask_lt [OF r(1)] full(1) by simp
  ultimately show ?thesis ..
qed

theorem pv_full_off_by_one_witness: "pv_emplace 2 \<lparr>outer_to_index = [0, 1], index_to_outer = [0, 1], elems = [7, 8 :: nat],
     first_free = 3, last_free = 3 :: 8 word\<rparr> 9 = Inl Dcheck_failed"
proof -
  let ?v = "\<lparr>outer_to_index = [0, 1], index_to_outer = [0, 1], elems = [7, 8 :: nat],
     first_free = 3, last_free = 3 :: 8 word\<rparr>"
  have "pv_next 2 ?v (owners ?v ! e) = e" if "e < 2" for e
  proof -
    from that have "e = 0 \<or> e = 1" by auto
    then show ?thesis by (auto simp: pv_next_def owners_def slot_of_mod)
  qed
  moreover have "{..<Suc (Suc 0)} = {0, Suc 0}" by auto
  ultimately have "pv_repr 2 ?v []"
    by (intro pv_reprI) (simp_all add: owners_def slot_of_mod inner_of_def inner_mask_def
        outer_mask_def invalid_index_def)
  from pv_full_off_by_one [OF this, of 9] show ?thesis by simp
qed

end
