(* ===== verification/Id_Vectors_Agree.thy ===== *)
theory Id_Vectors_Agree
  imports Stable_Id_Vector Packed_Id_Vector
begin

text \<open>
  The two id vectors of \<open>core/\<close> are interchangeable: driven by the same calls they hand out the
  same ids and the ids read the same objects, although one keeps its objects in their slots
  and the other moves them to stay without gaps. The comparison ends where the packed vector
  refuses an object, one before its \<open>MAX_SIZE\<close>.
\<close>

subsection \<open>Traces\<close>

datatype ('a, 'i) call = Store 'a | Remove 'i | Room_for 'i

text \<open>The ids a sequence of calls returns. \<open>room\<close> says whether the client may store.\<close>

fun trace :: "('s \<Rightarrow> bool) \<Rightarrow> ('s \<Rightarrow> 'a \<Rightarrow> ('i \<times> 's) res) \<Rightarrow> ('s \<Rightarrow> 'i \<Rightarrow> 's res) \<Rightarrow>
    ('s \<Rightarrow> 'i \<Rightarrow> 's res) \<Rightarrow> 's \<Rightarrow> ('a, 'i) call list \<Rightarrow> ('i list \<times> 's) res" where
  "trace room emplace erase reserve s [] = Inr ([], s)"
| "trace room emplace erase reserve s (Store x # cs) =
     require (room s) Out_of_bounds (bind_res (emplace s x) (\<lambda>(i, s).
     bind_res (trace room emplace erase reserve s cs) (\<lambda>(is, s). Inr (i # is, s))))"
| "trace room emplace erase reserve s (Remove i # cs) =
     bind_res (erase s i) (\<lambda>s. trace room emplace erase reserve s cs)"
| "trace room emplace erase reserve s (Room_for n # cs) =
     bind_res (reserve s n) (\<lambda>s. trace room emplace erase reserve s cs)"

definition stable_trace :: "nat \<Rightarrow> ('a, 'w::len word) stable_vec \<Rightarrow> ('a, 'w word) call list \<Rightarrow>
    ('w word list \<times> ('a, 'w word) stable_vec) res" where
  "stable_trace k = trace (\<lambda>v. unat (vsize v) < 2 ^ k - 2) (sv_emplace k) (sv_erase k) (sv_reserve k)"

definition packed_trace :: "nat \<Rightarrow> ('a, 'w::len word) packed_vec \<Rightarrow> ('a, 'w word) call list \<Rightarrow>
    ('w word list \<times> ('a, 'w word) packed_vec) res" where
  "packed_trace k = trace (\<lambda>_. True) (pv_emplace k) (pv_erase False k) (pv_reserve_ids k)"

subsection \<open>The simulation\<close>

definition same_tags :: "nat \<Rightarrow> ('a, 'w::len word) stable_vec \<Rightarrow> ('a, 'w word) packed_vec \<Rightarrow> bool" where
  "same_tags k v p \<longleftrightarrow> length (entries v) = length (outer_to_index p) \<and>
     (\<forall>s < length (entries v). inner_of k (eid (entries v ! s)) = inner_of k (outer_to_index p ! s))"

definition agree :: "nat \<Rightarrow> ('a, 'w::len word) stable_vec \<Rightarrow> ('a, 'w word) packed_vec \<Rightarrow> bool" where
  "agree k v p \<longleftrightarrow> (\<exists>fs. sv_repr k v fs \<and> pv_repr k p fs) \<and> same_tags k v p \<and> sv_lookup k v = pv_lookup k p"

lemma agreeE:
  assumes "agree k v p"
  obtains fs where "sv_repr k v fs" "pv_repr k p fs" "same_tags k v p" "sv_lookup k v = pv_lookup k p"
  using assms by (auto simp: agree_def)

lemma agreeI: "sv_repr k v fs \<Longrightarrow> pv_repr k p fs \<Longrightarrow> same_tags k v p \<Longrightarrow> sv_lookup k v = pv_lookup k p \<Longrightarrow> agree k v p"
  by (auto simp: agree_def)

lemma agree_empty:
  "k < LENGTH('w) \<Longrightarrow> agree k (sv_empty k :: ('a, 'w::len word) stable_vec) (pv_empty k)"
  by (rule agreeI [OF sv_repr_empty pv_repr_empty])
    (simp_all add: same_tags_def sv_empty_def pv_empty_def sv_lookup_def sv_is_valid_id_def fun_eq_iff
      pv_lookup_def pv_pairs_def owners_def)

lemma sv_emplace_tags:
  fixes v :: "('a, 'w::len word) stable_vec"
  assumes v: "sv_repr k v fs" and room: "length (entries v) - length fs < 2 ^ k - 1"
  obtains i v' where "sv_emplace k v x = Inr (i, v')" "sv_repr k v' (tl fs)"
    "sv_lookup k v' = (sv_lookup k v)(i \<mapsto> x)" "eid (entries v' ! slot_of k i) = i"
    "slot_of k i = (case fs of [] \<Rightarrow> length (entries v) | f # _ \<Rightarrow> f)"
    "inner_of k i = (case fs of [] \<Rightarrow> 0 | f # _ \<Rightarrow> inner_of k (eid (entries v ! f)))"
    "length (entries v') = (if fs = [] then Suc (length (entries v)) else length (entries v))"
    "\<And>s. s < length (entries v) \<Longrightarrow> inner_of k (eid (entries v' ! s)) = inner_of k (eid (entries v ! s))"
proof -
  note r = sv_reprD [OF v]
  obtain i v' where e: "sv_emplace k v x = Inr (i, v')" "sv_repr k v' (tl fs)"
    "sv_lookup k v i = None" "sv_lookup k v' = (sv_lookup k v)(i \<mapsto> x)"
    "slot_of k i = (case fs of [] \<Rightarrow> length (entries v) | f # _ \<Rightarrow> f)"
    "\<And>s. s < length (entries v) \<Longrightarrow> inner_of k (eid (entries v' ! s)) = inner_of k (eid (entries v ! s))"
    by (rule sv_emplace_repr [OF v room, of x]) (rule that)
  have i: "eid (entries v' ! slot_of k i) = i"
    using sv_lookup_eq_Some [OF e(2), of i x] e(4) by simp
  have "inner_of k i = (case fs of [] \<Rightarrow> 0 | f # _ \<Rightarrow> inner_of k (eid (entries v ! f))) \<and>
      length (entries v') = (if fs = [] then Suc (length (entries v)) else length (entries v))"
  proof (cases fs)
    case Nil
    have "length (entries v) < 2 ^ k - 1" using room Nil by simp
    from sv_emplace_fresh(1) [OF v [unfolded Nil] this, of x] e(1) Nil r(1,3) show ?thesis by auto
  next
    case (Cons f fs')
    then have f: "f < length (entries v)" using r(5) [of f] by simp
    from sv_emplace_reuse(1) [OF v [unfolded Cons], of x] e(1)
    have "length (entries v') = length (entries v)" by auto
    then show ?thesis using e(5) e(6) [OF f] i Cons by simp
  qed
  then show ?thesis using that [OF e(1,2,4) i e(5) _ _ e(6)] by blast
qed

lemma agree_emplace:
  assumes a: "agree k v p" and room: "unat (vsize v) < 2 ^ k - 2"
  obtains i v' p' where "sv_emplace k v x = Inr (i, v')" "pv_emplace k p x = Inr (i, p')" "agree k v' p'"
proof -
  from a obtain fs where r: "sv_repr k v fs" "pv_repr k p fs"
    and tags: "same_tags k v p" and look: "sv_lookup k v = pv_lookup k p" by (rule agreeE)
  have "sv_inv k v" using r(1) by (auto simp: sv_inv_def)
  then have n: "unat (vsize v) = length (elems p)" "card (dom (sv_lookup k v)) = length (elems p)"
    using sv_vsize [of k v] pv_dom(3) [OF r(2)] look by simp_all
  then have "length (entries v) - length fs < 2 ^ k - 1"
    using sv_card_lookup(2) [OF r(1)] room by simp
  then obtain i v' where e: "sv_emplace k v x = Inr (i, v')" "sv_repr k v' (tl fs)"
    "sv_lookup k v' = (sv_lookup k v)(i \<mapsto> x)" "eid (entries v' ! slot_of k i) = i"
    "slot_of k i = (case fs of [] \<Rightarrow> length (entries v) | f # _ \<Rightarrow> f)"
    "inner_of k i = (case fs of [] \<Rightarrow> 0 | f # _ \<Rightarrow> inner_of k (eid (entries v ! f)))"
    "length (entries v') = (if fs = [] then Suc (length (entries v)) else length (entries v))"
    "\<And>s. s < length (entries v) \<Longrightarrow> inner_of k (eid (entries v' ! s)) = inner_of k (eid (entries v ! s))"
    by (rule sv_emplace_tags [OF r(1), of x]) (rule that)
  from room n(1) have room': "length (elems p) < 2 ^ k - 2" by simp
  obtain j p' where q: "pv_emplace k p x = Inr (j, p')" "pv_repr k p' (tl fs)"
    "pv_lookup k p' = (pv_lookup k p)(j \<mapsto> x)"
    "slot_of k j = (case fs of [] \<Rightarrow> length (outer_to_index p) | f # _ \<Rightarrow> f)"
    "inner_of k j = (case fs of [] \<Rightarrow> 0 | f # _ \<Rightarrow> inner_of k (outer_to_index p ! f))"
    "length (outer_to_index p') = (if fs = [] then Suc (length (outer_to_index p)) else length (outer_to_index p))"
    "\<And>s. s < length (outer_to_index p) \<Longrightarrow> inner_of k (outer_to_index p' ! s) = inner_of k (outer_to_index p ! s)"
    by (rule pv_emplace_repr [OF r(2) room', of x]) (rule that)
  have len: "length (entries v) = length (outer_to_index p)"
    and tag: "\<And>s. s < length (entries v) \<Longrightarrow> inner_of k (eid (entries v ! s)) = inner_of k (outer_to_index p ! s)"
    using tags by (simp_all add: same_tags_def)
  have "j = i"
  proof (cases fs)
    case Nil
    then show ?thesis using e(5,6) q(4,5) len by (intro id_eq_iff [where k = k, THEN iffD2]) simp
  next
    case (Cons f fs')
    then have "f < length (entries v)" using sv_reprD(5) [OF r(1), of f] by simp
    then show ?thesis using e(5,6) q(4,5) tag Cons by (intro id_eq_iff [where k = k, THEN iffD2]) simp
  qed
  have new: "inner_of k i = inner_of k (outer_to_index p' ! slot_of k i)"
    using pv_lookup_eq_Some [OF q(2), of i x] q(3) \<open>j = i\<close> by simp
  have "inner_of k (eid (entries v' ! s)) = inner_of k (outer_to_index p' ! s)" if "s < length (entries v')" for s
  proof (cases "s < length (entries v)")
    case True
    then show ?thesis using e(8) q(7) tag len by simp
  next
    case False
    then have "fs = []" "s = length (entries v)" using that e(7) by (auto split: if_splits)
    then have "s = slot_of k i" using e(5) by simp
    then show ?thesis using new e(4) by simp
  qed
  then have "same_tags k v' p'" using e(7) q(6) len by (simp add: same_tags_def)
  moreover have "sv_lookup k v' = pv_lookup k p'" using e(3) q(3) look \<open>j = i\<close> by simp
  ultimately have "agree k v' p'" using e(2) q(2) by (intro agreeI)
  then show ?thesis using that e(1) q(1) \<open>j = i\<close> by blast
qed

lemma agree_erase:
  assumes a: "agree k v p" and e: "sv_erase k v i = Inr v'"
  obtains p' where "pv_erase False k p i = Inr p'" "agree k v' p'"
proof -
  from a obtain fs where r: "sv_repr k v fs" "pv_repr k p fs"
    and tags: "same_tags k v p" and look: "sv_lookup k v = pv_lookup k p" by (rule agreeE)
  have inv: "sv_inv k v" using r(1) by (auto simp: sv_inv_def)
  from sv_erase_dead [OF r(1), of i] e obtain x where x: "sv_lookup k v i = Some x" by fastforce
  have v': "sv_repr k v' (fs @ [slot_of k i])" using sv_erase_live(1,2) [OF r(1) x] e by simp
  note run = sv_erase_run [OF inv e]
  from look x have "pv_lookup k p i = Some x" by simp
  then obtain p' where q: "pv_erase False k p i = Inr p'" "pv_repr k p' (fs @ [slot_of k i])"
    "pv_lookup k p' = (pv_lookup k p)(i := None)" "length (outer_to_index p') = length (outer_to_index p)"
    "\<And>s. s < length (outer_to_index p) \<Longrightarrow> inner_of k (outer_to_index p' ! s) =
      (if s = slot_of k i then next_inner k (outer_to_index p ! s) else inner_of k (outer_to_index p ! s))"
    by (rule pv_erase_repr [OF r(2)]) (rule that)
  have "same_tags k v' p'"
    using tags run(2,3) q(4,5) by (simp add: same_tags_def next_inner_def)
  moreover have "sv_lookup k v' = pv_lookup k p'"
    using sv_lookup_erase [OF r(1) x e] q(3) look by simp
  ultimately have "agree k v' p'" using v' q(2) by (intro agreeI)
  then show ?thesis using that q(1) by blast
qed

lemma agree_reserve:
  assumes a: "agree k v p" and e: "sv_reserve k v n = Inr v'"
  obtains p' where "pv_reserve_ids k p n = Inr p'" "agree k v' p'"
proof -
  from a obtain fs where r: "sv_repr k v fs" "pv_repr k p fs"
    and tags: "same_tags k v p" and look: "sv_lookup k v = pv_lookup k p" by (rule agreeE)
  have n: "n \<le> max_size k" using e by (auto simp: sv_reserve_def require_eq_Inr)
  have v': "sv_repr k v' ([length (entries v)..<unat n] @ fs)" "sv_lookup k v' = sv_lookup k v"
    "length (entries v') = max (length (entries v)) (unat n)"
    "\<And>j. j < length (entries v) \<Longrightarrow> entries v' ! j = entries v ! j"
    using sv_reserve_ok [OF r(1) n] e by auto
  obtain p' where q: "pv_reserve_ids k p n = Inr p'" "pv_repr k p' ([length (outer_to_index p)..<unat n] @ fs)"
    "pv_lookup k p' = pv_lookup k p" "length (outer_to_index p') = max (length (outer_to_index p)) (unat n)"
    "\<And>s. s < length (outer_to_index p) \<Longrightarrow> inner_of k (outer_to_index p' ! s) = inner_of k (outer_to_index p ! s)"
    "\<And>s. length (outer_to_index p) \<le> s \<Longrightarrow> s < unat n \<Longrightarrow> inner_of k (outer_to_index p' ! s) = 0"
    by (rule pv_reserve_ok [OF r(2) n]) (rule that)
  have len: "length (entries v) = length (outer_to_index p)"
    and tag: "\<And>s. s < length (entries v) \<Longrightarrow> inner_of k (eid (entries v ! s)) = inner_of k (outer_to_index p ! s)"
    using tags by (simp_all add: same_tags_def)
  have "inner_of k (eid (entries v' ! s)) = inner_of k (outer_to_index p' ! s)" if "s < length (entries v')" for s
  proof (cases "s < length (entries v)")
    case True
    then show ?thesis using v'(4) q(5) tag len by simp
  next
    case False
    then have s: "length (entries v) \<le> s" "s < unat n" using that v'(3) by (auto simp: max_def split: if_splits)
    note d = sv_reprD [OF r(1)]
    have n': "unat n \<le> 2 ^ k - 1" using n d(1) by (simp add: word_le_nat_alt unat_mask_lt)
    have "length (entries v) < unat n" using s by simp
    then obtain v1 where v1: "sv_reserve k v n = Inr v1"
      "eid (entries v1 ! s) = (if Suc s = unat n then stable_vec.first_free v else of_nat (Suc s))"
      using sv_reserve_grow [OF r(1) n'] s by metis
    have "Suc s < 2 ^ k \<or> Suc s = unat n" using s n' by auto
    then have "inner_of k (eid (entries v1 ! s)) = 0" using v1(2) d(1,8) by (auto simp del: of_nat_Suc)
    then show ?thesis using v1(1) e q(6) s len by simp
  qed
  then have "same_tags k v' p'" using v'(3) q(4) len by (simp add: same_tags_def)
  then have "agree k v' p'" using v'(1,2) q(2,3) look len by (intro agreeI) simp_all
  then show ?thesis using that q(1) by blast
qed

subsection \<open>The property\<close>

text \<open>C21. The stable and the packed vector are equivalent: any sequence of calls that the stable one
  accepts while fewer than \<open>MAX_SIZE - 1\<close> objects are stored is accepted by the packed one,
  returns the same ids, and leaves both with the same object behind every id.\<close>

theorem id_vectors_agree:
  fixes cs :: "('a, 'w::len word) call list"
  assumes k: "k < LENGTH('w)" and run: "stable_trace k (sv_empty k) cs = Inr (is, v)"
  shows "\<exists>p. packed_trace k (pv_empty k) cs = Inr (is, p) \<and>
    (\<forall>i x. sv_get k v i = Inr x \<longleftrightarrow> pv_get k p i = Inr x) \<and> unat (vsize v) = length (elems p)"
proof -
  have "\<exists>p. packed_trace k p0 cs = Inr (is, p) \<and> agree k v p"
    if "agree k v0 p0" "stable_trace k v0 cs = Inr (is, v)" for v0 p0 "is"
    using that unfolding stable_trace_def packed_trace_def
  proof (induction cs arbitrary: v0 p0 "is")
    case Nil
    then show ?case by auto
  next
    case (Cons c cs)
    show ?case
    proof (cases c)
      case (Store x)
      with Cons.prems have "unat (vsize v0) < 2 ^ k - 2" by (simp add: require_eq_Inr)
      from agree_emplace [OF Cons.prems(1) this, of x] obtain i v1 p1
        where "sv_emplace k v0 x = Inr (i, v1)" "pv_emplace k p0 x = Inr (i, p1)" "agree k v1 p1" by blast
      then show ?thesis using Cons.prems(2) Cons.IH [of v1 p1] Store by (fastforce simp: res_Inr_iff)
    next
      case (Remove i)
      with Cons.prems(2) obtain v1 where v1: "sv_erase k v0 i = Inr v1" by (auto simp: res_Inr_iff)
      from agree_erase [OF Cons.prems(1) v1] obtain p1 where "pv_erase False k p0 i = Inr p1" "agree k v1 p1" by blast
      then show ?thesis using Cons.prems(2) Cons.IH [of v1 p1] Remove v1 by simp
    next
      case (Room_for n)
      with Cons.prems(2) obtain v1 where v1: "sv_reserve k v0 n = Inr v1" by (auto simp: res_Inr_iff)
      from agree_reserve [OF Cons.prems(1) v1] obtain p1 where "pv_reserve_ids k p0 n = Inr p1" "agree k v1 p1" by blast
      then show ?thesis using Cons.prems(2) Cons.IH [of v1 p1] Room_for v1 by simp
    qed
  qed
  from this [OF agree_empty [OF k] run] obtain p where p: "packed_trace k (pv_empty k) cs = Inr (is, p)" "agree k v p"
    by blast
  from p(2) obtain fs where r: "sv_repr k v fs" "pv_repr k p fs"
    and look: "sv_lookup k v = pv_lookup k p" by (rule agreeE)
  have inv: "sv_inv k v" "pv_inv k p" using r by (auto simp: sv_inv_def pv_inv_def)
  then have "unat (vsize v) = length (elems p)" using sv_vsize [of k v] pv_dom(3) [OF r(2)] look by simp
  moreover have "sv_get k v i = Inr x \<longleftrightarrow> pv_get k p i = Inr x" for i x
    using sv.get_iff [OF inv(1)] pv.get_iff [OF inv(2)] look by simp
  ultimately show ?thesis using p(1) by blast
qed

theorem id_vectors_agree_witness:
  "\<exists>p. packed_trace 3 (pv_empty 3) [Store (7 :: nat), Store 8, Remove (0 :: 8 word), Store 9] = Inr ([0, 1, 8], p)"
proof -
  have "\<exists>v. stable_trace 3 (sv_empty 3) [Store (7 :: nat), Store 8, Remove (0 :: 8 word), Store 9] = Inr ([0, 1, 8], v)"
    by (simp add: stable_trace_def sv_eval)
  then show ?thesis using id_vectors_agree [of 3 "[Store (7 :: nat), Store 8, Remove (0 :: 8 word), Store 9]"] by auto
qed

end
