(* ===== verification/Lockfree_Id_Vector.thy ===== *)
theory Lockfree_Id_Vector
  imports Id_Layout "HOL-Library.FuncSet"
begin

text \<open>
  The lock-free id vector of \<open>proto/id_vector.hpp\<close>, with its threads: \<open>CAPACITY\<close> slots fixed at
  construction, whose free ones form a stack through the index parts of their ids, and a
  \<open>free_head_\<close> word that carries the index of its top and a tag that changes with every
  update. Every atomic load, store and compare-exchange, and every construction or
  destruction of an object, is a step of a sequentially consistent thread.

  \<open>k\<close> is \<open>INDEX_BITS\<close>. \<open>emplace\<close> and \<open>spin_emplace\<close> differ in what they do when no slot is
  free (return, or try again), \<open>erase\<close> and \<open>move_from\<close> in whether the object is moved out
  before it is destroyed; the steps cover both. A client erases only ids it was given.
\<close>

subsection \<open>Ids\<close>

definition unpack_index :: "nat \<Rightarrow> 'w::len word \<Rightarrow> 'w word" where
  "unpack_index k i = i AND outer_mask k"

definition reset_index :: "nat \<Rightarrow> 'w::len word \<Rightarrow> 'w word \<Rightarrow> 'w word" where
  "reset_index k i new_index = (i AND inner_mask k) OR new_index"

definition increment_tag_and_reset :: "nat \<Rightarrow> 'w::len word \<Rightarrow> 'w word \<Rightarrow> 'w word" where
  "increment_tag_and_reset k i new_index =
     (((i AND inner_mask k) + push_bit k 1) AND inner_mask k) OR new_index"

definition increment_tag :: "nat \<Rightarrow> 'w::len word \<Rightarrow> 'w word" where
  "increment_tag k i = increment_tag_and_reset k i (unpack_index k i)"

lemma unpack_index_eq: "unpack_index k i = outer_of k i"
  by (simp add: unpack_index_def outer_of_def)

lemma reset_index_eq: "reset_index k i n = inner_of k i OR n"
  by (simp add: reset_index_def inner_of_def)

lemma increment_tag_and_reset_eq: "increment_tag_and_reset k i n = next_inner k i OR n"
  by (simp add: increment_tag_and_reset_def next_inner_def inner_of_def)

lemma slot_of_reset [simp]: "slot_of k (reset_index k i n) = slot_of k n"
  by (simp add: reset_index_eq)

lemma slot_of_increment [simp]: "slot_of k (increment_tag_and_reset k i n) = slot_of k n"
  by (simp add: increment_tag_and_reset_eq)

lemma slot_of_unpack [simp]: "slot_of k (unpack_index k i) = slot_of k i"
  by (simp add: unpack_index_eq)

lemma slot_of_increment_tag [simp]: "slot_of k (increment_tag k i) = slot_of k i"
  by (simp add: increment_tag_def)

lemma tag_of_cong: "inner_of k i = inner_of k j \<Longrightarrow> tag_of k i = tag_of k j"
  by (simp add: inner_of_eq_iff_tag)

lemma tag_of_reset: "inner_of k n = 0 \<Longrightarrow> tag_of k (reset_index k i n) = tag_of k i"
  by (rule tag_of_cong) (simp add: reset_index_eq id_simps)

lemma tag_of_reset_unpack [simp]: "tag_of k (reset_index k i (unpack_index k n)) = tag_of k i"
  by (rule tag_of_reset) (simp add: unpack_index_eq)

lemma tag_of_increment:
  fixes i :: "'w::len word"
  assumes "k < LENGTH('w)"
  shows "tag_of k (increment_tag_and_reset k i (unpack_index k n)) = (tag_of k i + 1) mod 2 ^ (LENGTH('w) - k)"
proof -
  have "tag_of k (increment_tag_and_reset k i (unpack_index k n)) = tag_of k (next_inner k i)"
    by (rule tag_of_cong) (simp add: increment_tag_and_reset_eq unpack_index_eq id_simps)
  then show ?thesis by (simp add: tag_of_next_inner [OF assms])
qed

lemma id_eq_tagI: "slot_of k i = slot_of k j \<Longrightarrow> tag_of k i = tag_of k j \<Longrightarrow> i = j"
  using id_eq_iff [of i j k] inner_of_eq_iff_tag [of k i j] by blast

subsection \<open>State and steps\<close>

record ('a, 'i) lf_slot =
  payload :: "'a option"
  sid :: "'i"

text \<open>Where a thread is: about to do what the name says. The objects and words are its local
  variables; a number is the index of the slot it has to itself.\<close>

datatype ('a, 'i) lf_pc =
    L_idle
  | L_load 'a \<comment> \<open>\<open>acquire_slot\<close>: load \<open>free_head_\<close>\<close>
  | L_next 'a 'i \<comment> \<open>load the id of the first free slot\<close>
  | L_swap 'a 'i 'i \<comment> \<open>compare-exchange \<open>free_head_\<close>\<close>
  | L_mark 'a nat \<comment> \<open>\<open>mark_acquired\<close>: load the id\<close>
  | L_store 'a nat 'i
  | L_construct 'a nat
  | L_return 'a nat
  | L_destroy nat \<comment> \<open>\<open>lock_slot\<close> has succeeded\<close>
  | L_reload nat \<comment> \<open>\<open>release_locked_slot\<close>: load the id\<close>
  | L_head nat 'i \<comment> \<open>load \<open>free_head_\<close>\<close>
  | L_link nat 'i 'i \<comment> \<open>store the link in the id\<close>
  | L_push nat 'i 'i \<comment> \<open>compare-exchange \<open>free_head_\<close>\<close>

record ('a, 'i) lockfree =
  slots :: "('a, 'i) lf_slot list"
  free_head :: "'i"
  pcs :: "nat \<Rightarrow> ('a, 'i) lf_pc"
  changes :: nat \<comment> \<open>updates of \<open>free_head_\<close> so far\<close>
  issued :: "('i \<times> 'a) list" \<comment> \<open>ids returned by \<open>emplace\<close>, with their objects\<close>
  erased :: "'i list" \<comment> \<open>ids whose \<open>lock_slot\<close> succeeded\<close>

definition goto :: "nat \<Rightarrow> ('a, 'w::len word) lf_pc \<Rightarrow> ('a, 'w word) lockfree \<Rightarrow> ('a, 'w word) lockfree" where
  "goto t pc s = s\<lparr>pcs := (pcs s)(t := pc)\<rparr>"

definition set_sid :: "nat \<Rightarrow> 'w::len word \<Rightarrow> ('a, 'w word) lockfree \<Rightarrow> ('a, 'w word) lockfree" where
  "set_sid i v s = s\<lparr>slots := (slots s)[i := (slots s ! i)\<lparr>sid := v\<rparr>]\<rparr>"

definition set_payload :: "nat \<Rightarrow> 'a option \<Rightarrow> ('a, 'w::len word) lockfree \<Rightarrow> ('a, 'w word) lockfree" where
  "set_payload i p s = s\<lparr>slots := (slots s)[i := (slots s ! i)\<lparr>payload := p\<rparr>]\<rparr>"

text \<open>\<open>emplace\<close> and \<open>spin_emplace\<close>, around \<open>acquire_slot\<close>.\<close>

inductive emplace_step :: "nat \<Rightarrow> nat \<Rightarrow> ('a, 'w::len word) lockfree \<Rightarrow> ('a, 'w word) lockfree \<Rightarrow> bool" for k t where
  emplace: "pcs s t = L_idle \<Longrightarrow> emplace_step k t s (goto t (L_load x) s)"
| no_slot: "pcs s t = L_load x \<Longrightarrow> unpack_index k (free_head s) = invalid_index k \<Longrightarrow>
    emplace_step k t s (goto t L_idle s)"
| construct: "pcs s t = L_construct x i \<Longrightarrow>
    emplace_step k t s (goto t (L_return x i) (set_payload i (Some x) s))"
| return: "pcs s t = L_return x i \<Longrightarrow>
    emplace_step k t s (goto t L_idle s\<lparr>issued := issued s @ [(sid (slots s ! i), x)]\<rparr>)"

text \<open>\<open>acquire_slot\<close>, with \<open>mark_acquired\<close>.\<close>

inductive acquire_step :: "nat \<Rightarrow> nat \<Rightarrow> ('a, 'w::len word) lockfree \<Rightarrow> ('a, 'w word) lockfree \<Rightarrow> bool" for k t where
  load: "pcs s t = L_load x \<Longrightarrow> unpack_index k (free_head s) \<noteq> invalid_index k \<Longrightarrow>
    acquire_step k t s (goto t (L_next x (free_head s)) s)"
| read_next: "pcs s t = L_next x hm \<Longrightarrow>
    acquire_step k t s (goto t (L_swap x hm (increment_tag_and_reset k hm
      (unpack_index k (sid (slots s ! slot_of k hm))))) s)"
| swap: "pcs s t = L_swap x hm nh \<Longrightarrow> free_head s = hm \<Longrightarrow>
    acquire_step k t s (goto t (L_mark x (slot_of k hm)) s\<lparr>free_head := nh, changes := changes s + 1\<rparr>)"
| swap_failed: "pcs s t = L_swap x hm nh \<Longrightarrow> acquire_step k t s (goto t (L_load x) s)"
| mark: "pcs s t = L_mark x i \<Longrightarrow> acquire_step k t s (goto t (L_store x i (sid (slots s ! i))) s)"
| store: "pcs s t = L_store x i v \<Longrightarrow>
    acquire_step k t s (goto t (L_construct x i) (set_sid i (reset_index k v (of_nat i)) s))"

text \<open>\<open>lock_slot\<close>.\<close>

inductive lock_step :: "nat \<Rightarrow> nat \<Rightarrow> ('a, 'w::len word) lockfree \<Rightarrow> ('a, 'w word) lockfree \<Rightarrow> bool" for k t where
  lock: "pcs s t = L_idle \<Longrightarrow> (j, x) \<in> set (issued s) \<Longrightarrow> sid (slots s ! slot_of k j) = j \<Longrightarrow>
    lock_step k t s (goto t (L_destroy (slot_of k j)) (set_sid (slot_of k j) (increment_tag k j) s)
      \<lparr>erased := erased s @ [j]\<rparr>)"
| lock_lost: "pcs s t = L_idle \<Longrightarrow> (j, x) \<in> set (issued s) \<Longrightarrow> sid (slots s ! slot_of k j) \<noteq> j \<Longrightarrow>
    lock_step k t s s"

text \<open>\<open>erase\<close> and \<open>move_from\<close>, between \<open>lock_slot\<close> and \<open>release_locked_slot\<close>.\<close>

inductive erase_step :: "nat \<Rightarrow> nat \<Rightarrow> ('a, 'w::len word) lockfree \<Rightarrow> ('a, 'w word) lockfree \<Rightarrow> bool" for k t where
  destroy: "pcs s t = L_destroy i \<Longrightarrow> erase_step k t s (goto t (L_reload i) (set_payload i None s))"

text \<open>\<open>release_locked_slot\<close>.\<close>

inductive release_step :: "nat \<Rightarrow> nat \<Rightarrow> ('a, 'w::len word) lockfree \<Rightarrow> ('a, 'w word) lockfree \<Rightarrow> bool" for k t where
  reload: "pcs s t = L_reload i \<Longrightarrow> release_step k t s (goto t (L_head i (sid (slots s ! i))) s)"
| head: "pcs s t = L_head i rid \<Longrightarrow> release_step k t s (goto t (L_link i rid (free_head s)) s)"
| link: "pcs s t = L_link i rid hm \<Longrightarrow>
    release_step k t s (goto t (L_push i rid hm) (set_sid i (reset_index k rid (unpack_index k hm)) s))"
| push: "pcs s t = L_push i rid hm \<Longrightarrow> free_head s = hm \<Longrightarrow>
    release_step k t s (goto t L_idle s\<lparr>free_head := increment_tag_and_reset k hm (unpack_index k rid),
      changes := changes s + 1\<rparr>)"
| push_failed: "pcs s t = L_push i rid hm \<Longrightarrow> release_step k t s (goto t (L_head i rid) s)"

definition lf_step :: "nat \<Rightarrow> nat \<Rightarrow> ('a, 'w::len word) lockfree \<Rightarrow> ('a, 'w word) lockfree \<Rightarrow> bool" where
  "lf_step k t s s' \<longleftrightarrow> emplace_step k t s s' \<or> acquire_step k t s s' \<or> lock_step k t s s' \<or>
     erase_step k t s s' \<or> release_step k t s s'"

lemma lf_stepI:
  "emplace_step k t s s' \<Longrightarrow> lf_step k t s s'" "acquire_step k t s s' \<Longrightarrow> lf_step k t s s'"
  "lock_step k t s s' \<Longrightarrow> lf_step k t s s'" "erase_step k t s s' \<Longrightarrow> lf_step k t s s'"
  "release_step k t s s' \<Longrightarrow> lf_step k t s s'"
  by (simp_all add: lf_step_def)

lemma lf_step_cases:
  assumes "lf_step k t s s'"
  obtains (Emplace) "emplace_step k t s s'" | (Acquire) "acquire_step k t s s'" | (Lock) "lock_step k t s s'"
    | (Erase) "erase_step k t s s'" | (Release) "release_step k t s s'"
  using assms by (auto simp: lf_step_def)

text \<open>\<open>init_empty\<close> with arbitrary tags.\<close>

definition lf_start :: "nat \<Rightarrow> 'w::len word list \<Rightarrow> ('a, 'w word) lockfree" where
  "lf_start k tags = \<lparr>slots = map (\<lambda>i. \<lparr>payload = None,
       sid = (if Suc i < length tags then of_nat (i + 1) else invalid_index k) OR (tags ! i AND inner_mask k)\<rparr>)
       [0..<length tags],
     free_head = 0, pcs = \<lambda>_. L_idle, changes = 0, issued = [], erased = []\<rparr>"

inductive lf_run :: "nat \<Rightarrow> 'w::len word list \<Rightarrow> ('a, 'w word) lockfree \<Rightarrow> bool" for k tags where
  init: "lf_run k tags (lf_start k tags)"
| step: "lf_run k tags s \<Longrightarrow> lf_step k t s s' \<Longrightarrow> lf_run k tags s'"

subsection \<open>The invariant\<close>

fun holds :: "('a, 'i) lf_pc \<Rightarrow> nat option" where
  "holds (L_mark x i) = Some i"
| "holds (L_store x i v) = Some i"
| "holds (L_construct x i) = Some i"
| "holds (L_return x i) = Some i"
| "holds (L_destroy i) = Some i"
| "holds (L_reload i) = Some i"
| "holds (L_head i rid) = Some i"
| "holds (L_link i rid hm) = Some i"
| "holds (L_push i rid hm) = Some i"
| "holds _ = None"

text \<open>What a thread knows about a \<open>free_head_\<close> it loaded: if the tag has not moved on, nothing has.\<close>

definition head_ok :: "nat \<Rightarrow> ('a, 'w::len word) lockfree \<Rightarrow> 'w word \<Rightarrow> bool" where
  "head_ok k s hm \<longleftrightarrow> tag_of k hm \<le> changes s \<and> (tag_of k hm = changes s \<longrightarrow> hm = free_head s)"

definition next_slot :: "nat \<Rightarrow> ('a, 'w::len word) lockfree \<Rightarrow> nat \<Rightarrow> nat" where
  "next_slot k s i = slot_of k (sid (slots s ! i))"

fun pc_ok :: "nat \<Rightarrow> ('a, 'w::len word) lockfree \<Rightarrow> ('a, 'w word) lf_pc \<Rightarrow> bool" where
  "pc_ok k s (L_next x hm) \<longleftrightarrow> head_ok k s hm \<and> slot_of k hm \<noteq> 2 ^ k - 1"
| "pc_ok k s (L_swap x hm nh) \<longleftrightarrow> head_ok k s hm \<and> slot_of k hm \<noteq> 2 ^ k - 1 \<and>
     (tag_of k hm = changes s \<longrightarrow> nh = increment_tag_and_reset k hm (unpack_index k (sid (slots s ! slot_of k hm))))"
| "pc_ok k s (L_mark x i) \<longleftrightarrow> payload (slots s ! i) = None"
| "pc_ok k s (L_store x i v) \<longleftrightarrow> payload (slots s ! i) = None \<and> v = sid (slots s ! i)"
| "pc_ok k s (L_construct x i) \<longleftrightarrow> payload (slots s ! i) = None \<and> next_slot k s i = i"
| "pc_ok k s (L_return x i) \<longleftrightarrow> payload (slots s ! i) = Some x \<and> next_slot k s i = i"
| "pc_ok k s (L_destroy i) \<longleftrightarrow> payload (slots s ! i) \<noteq> None \<and> next_slot k s i = i"
| "pc_ok k s (L_reload i) \<longleftrightarrow> payload (slots s ! i) = None \<and> next_slot k s i = i"
| "pc_ok k s (L_head i rid) \<longleftrightarrow> payload (slots s ! i) = None \<and> slot_of k rid = i \<and>
     tag_of k rid = tag_of k (sid (slots s ! i))"
| "pc_ok k s (L_link i rid hm) \<longleftrightarrow> payload (slots s ! i) = None \<and> slot_of k rid = i \<and>
     tag_of k rid = tag_of k (sid (slots s ! i)) \<and> head_ok k s hm"
| "pc_ok k s (L_push i rid hm) \<longleftrightarrow> payload (slots s ! i) = None \<and> slot_of k rid = i \<and>
     tag_of k rid = tag_of k (sid (slots s ! i)) \<and> head_ok k s hm \<and> next_slot k s i = slot_of k hm"
| "pc_ok k s _ \<longleftrightarrow> True"

text \<open>The slot a thread has to itself, and how often a slot has been locked.\<close>

definition slot_holder :: "('a, 'w::len word) lockfree \<Rightarrow> nat \<Rightarrow> nat option" where
  "slot_holder s t = holds (pcs s t)"

definition locks :: "nat \<Rightarrow> 'w::len word list \<Rightarrow> nat \<Rightarrow> nat" where
  "locks k es i = length (filter (\<lambda>e. slot_of k e = i) es)"

definition free_ok :: "nat \<Rightarrow> ('a, 'w::len word) lockfree \<Rightarrow> nat list \<Rightarrow> bool" where
  "free_ok k s fs \<longleftrightarrow> distinct fs \<and> linked (next_slot k s) (slot_of k (free_head s)) fs (2 ^ k - 1) \<and>
     (\<forall>i \<in> set fs. i < 2 ^ k - 1 \<and> payload (slots s ! i) = None \<and> (\<forall>t. slot_holder s t \<noteq> Some i))"

definition threads_ok :: "nat \<Rightarrow> ('a, 'w::len word) lockfree \<Rightarrow> bool" where
  "threads_ok k s \<longleftrightarrow> (\<forall>t. pc_ok k s (pcs s t)) \<and> (\<forall>t i. slot_holder s t = Some i \<longrightarrow> i < 2 ^ k - 1) \<and>
     (\<forall>t u i. slot_holder s t = Some i \<longrightarrow> slot_holder s u = Some i \<longrightarrow> t = u)"

definition live :: "nat \<Rightarrow> ('a, 'w::len word) lockfree \<Rightarrow> nat list \<Rightarrow> nat \<Rightarrow> bool" where
  "live k s fs i \<longleftrightarrow> i < 2 ^ k - 1 \<and> i \<notin> set fs \<and> (\<forall>t. slot_holder s t \<noteq> Some i)"

definition tags_ok :: "nat \<Rightarrow> (nat \<Rightarrow> nat) \<Rightarrow> ('a, 'w::len word) lockfree \<Rightarrow> bool" where
  "tags_ok k base s \<longleftrightarrow>
     (\<forall>i < 2 ^ k - 1. tag_of k (sid (slots s ! i)) = (base i + locks k (erased s) i) mod 2 ^ (LENGTH('w) - k)) \<and>
     (\<forall>e \<in> set (erased s). e \<in> fst ` set (issued s) \<and>
        (\<exists>g < locks k (erased s) (slot_of k e). tag_of k e = (base (slot_of k e) + g) mod 2 ^ (LENGTH('w) - k))) \<and>
     (\<forall>(j, x) \<in> set (issued s). slot_of k j < 2 ^ k - 1) \<and>
     distinct (erased s) \<and> distinct (map fst (issued s))"

definition objects_ok :: "nat \<Rightarrow> ('a, 'w::len word) lockfree \<Rightarrow> nat list \<Rightarrow> bool" where
  "objects_ok k s fs \<longleftrightarrow>
     (\<forall>i. live k s fs i \<longrightarrow> next_slot k s i = i \<and>
       (\<exists>x. payload (slots s ! i) = Some x \<and> (sid (slots s ! i), x) \<in> set (issued s))) \<and>
     (\<forall>(j, x) \<in> set (issued s). j \<notin> set (erased s) \<longrightarrow>
        live k s fs (slot_of k j) \<and> slots s ! slot_of k j = \<lparr>payload = Some x, sid = j\<rparr>)"

definition lf_inv :: "nat \<Rightarrow> (nat \<Rightarrow> nat) \<Rightarrow> ('a, 'w::len word) lockfree \<Rightarrow> nat list \<Rightarrow> bool" where
  "lf_inv k base s fs \<longleftrightarrow> k < LENGTH('w) \<and> length (slots s) = 2 ^ k - 1 \<and>
     changes s < 2 ^ (LENGTH('w) - k) \<and> tag_of k (free_head s) = changes s \<and>
     free_ok k s fs \<and> threads_ok k s \<and> tags_ok k base s \<and> objects_ok k s fs"

lemma lf_invD:
  assumes "lf_inv k base (s :: ('a, 'w::len word) lockfree) fs"
  shows "k < LENGTH('w)" "length (slots s) = 2 ^ k - 1" "changes s < 2 ^ (LENGTH('w) - k)"
    "tag_of k (free_head s) = changes s" "free_ok k s fs" "threads_ok k s" "tags_ok k base s" "objects_ok k s fs"
  using assms by (simp_all add: lf_inv_def)

lemma free_okD:
  assumes "free_ok k s fs"
  shows "distinct fs" "linked (next_slot k s) (slot_of k (free_head s)) fs (2 ^ k - 1)"
    "i \<in> set fs \<Longrightarrow> i < 2 ^ k - 1" "i \<in> set fs \<Longrightarrow> payload (slots s ! i) = None"
    "i \<in> set fs \<Longrightarrow> slot_holder s t \<noteq> Some i"
  using assms by (auto simp: free_ok_def)

lemma threads_okD:
  assumes "threads_ok k s"
  shows "pc_ok k s (pcs s t)" "slot_holder s t = Some i \<Longrightarrow> i < 2 ^ k - 1"
    "slot_holder s t = Some i \<Longrightarrow> slot_holder s u = Some i \<Longrightarrow> t = u"
  using assms by (auto simp: threads_ok_def)

lemma threads_okI:
  assumes "threads_ok k s" and "pc_ok k s' (pcs s' t)"
    and "\<And>u. u \<noteq> t \<Longrightarrow> pc_ok k s' (pcs s u)" "\<And>u. u \<noteq> t \<Longrightarrow> pcs s' u = pcs s u"
    and "holds (pcs s' t) = None \<or> holds (pcs s' t) = slot_holder s t \<or>
      (\<exists>i. holds (pcs s' t) = Some i \<and> i < 2 ^ k - 1 \<and> (\<forall>u. slot_holder s u \<noteq> Some i))"
  shows "threads_ok k s'"
  unfolding threads_ok_def
proof (intro conjI allI impI)
  have h: "slot_holder s' u = slot_holder s u" if "u \<noteq> t" for u using assms(4) that by (simp add: slot_holder_def)
  have ht: "slot_holder s' t = holds (pcs s' t)" by (simp add: slot_holder_def)
  show "pc_ok k s' (pcs s' u)" for u using assms(2,3,4) by (cases "u = t") simp_all
  show "i < 2 ^ k - 1" if "slot_holder s' u = Some i" for u i
    using that assms(5) threads_okD(2) [OF assms(1)] h ht by (cases "u = t") auto
  show "u = v" if "slot_holder s' u = Some i" "slot_holder s' v = Some i" for u v i
    using that assms(5) threads_okD(3) [OF assms(1)] h ht
    by (metis option.distinct(1) option.inject)
qed

lemma head_slot_free:
  assumes "free_ok k s fs" "slot_of k (free_head s) \<noteq> 2 ^ k - 1"
  shows "fs \<noteq> []" "hd fs = slot_of k (free_head s)" "slot_of k (free_head s) \<in> set fs"
proof -
  have *: "slot_of k (free_head s) = (if fs = [] then 2 ^ k - 1 else hd fs)"
    using linked_start [OF free_okD(2) [OF assms(1)]] .
  then show "fs \<noteq> []" using assms(2) by auto
  then show "hd fs = slot_of k (free_head s)" "slot_of k (free_head s) \<in> set fs" using * by simp_all
qed

text \<open>Three ways in which another thread's step leaves \<open>pc_ok\<close> alone: it touches neither the slots
  nor \<open>free_head_\<close>, it writes a slot that is neither ours nor free, or it moves \<open>free_head_\<close> on.\<close>

lemma pc_ok_same:
  assumes "slots s' = slots s" "free_head s' = free_head s" "changes s' = changes s"
  shows "pc_ok k s' pc = pc_ok k s pc"
  using assms by (cases pc) (auto simp: head_ok_def next_slot_def)

lemma pc_ok_write:
  assumes ok: "pc_ok k s pc" and slots: "slots s' = (slots s)[i := e]"
    and same: "free_head s' = free_head s" "changes s' = changes s"
    and other: "holds pc \<noteq> Some i" "slot_of k (free_head s) \<noteq> 2 ^ k - 1 \<Longrightarrow> slot_of k (free_head s) \<noteq> i"
  shows "pc_ok k s' pc"
proof -
  have h: "head_ok k s' hm = head_ok k s hm" for hm using same by (simp add: head_ok_def)
  show ?thesis
  proof (cases pc)
    case (L_swap x hm nh)
    then have "tag_of k hm = changes s \<Longrightarrow> slot_of k hm \<noteq> i" using ok other(2) by (auto simp: head_ok_def)
    then show ?thesis using L_swap ok slots h same by auto
  qed (use ok slots other h same in \<open>auto simp: next_slot_def\<close>)
qed

lemma pc_ok_bump:
  assumes "pc_ok k s pc" "slots s' = slots s" "changes s' = changes s + 1"
  shows "pc_ok k s' pc"
  using assms by (cases pc) (auto simp: head_ok_def next_slot_def)

subsection \<open>Preservation\<close>

lemma live_cong: "slot_holder s' = slot_holder s \<Longrightarrow> live k s' fs i = live k s fs i"
  by (simp add: live_def)

text \<open>Steps that move one thread and write nothing.\<close>

lemma inv_move:
  assumes inv: "lf_inv k base s fs" and pc: "pc_ok k s pc" "holds pc = slot_holder s t"
  shows "lf_inv k base (goto t pc s) fs"
proof -
  note I = lf_invD [OF inv]
  let ?s = "goto t pc s"
  have same: "slots ?s = slots s" "free_head ?s = free_head s" "changes ?s = changes s"
    "issued ?s = issued s" "erased ?s = erased s" by (simp_all add: goto_def)
  have h: "slot_holder ?s = slot_holder s" using pc(2) by (auto simp: slot_holder_def goto_def fun_eq_iff)
  have "threads_ok k ?s"
    by (rule threads_okI [OF I(6), of ?s t], unfold pc_ok_same [OF same(1-3)])
      (use pc I(6) in \<open>simp_all add: goto_def threads_okD(1)\<close>)
  moreover have "next_slot k ?s = next_slot k s" by (simp add: next_slot_def same fun_eq_iff)
  ultimately show ?thesis
    using I by (simp add: lf_inv_def free_ok_def tags_ok_def objects_ok_def live_cong [OF h] h same)
qed

text \<open>Writes of a thread to the slot it has to itself.\<close>

lemma inv_write:
  fixes s :: "('a, 'w::len word) lockfree"
  assumes inv: "lf_inv k base s fs" and hold: "slot_holder s t = Some i"
    and slots: "slots s' = (slots s)[i := e]" and tag: "tag_of k (sid e) = tag_of k (sid (slots s ! i))"
    and same: "free_head s' = free_head s" "changes s' = changes s" "issued s' = issued s" "erased s' = erased s"
    and pcs: "pcs s' = (pcs s)(t := pc)" "holds pc = Some i" "pc_ok k s' pc"
  shows "lf_inv k base s' fs"
proof -
  note I = lf_invD [OF inv]
  have h: "slot_holder s' = slot_holder s" using hold pcs(1,2) by (auto simp: slot_holder_def fun_eq_iff)
  have i: "i < length (slots s)" "i \<notin> set fs"
    using threads_okD(2) [OF I(6) hold] free_okD(5) [OF I(5), of i t] hold I(2) by auto
  have at: "slots s' ! j = (if j = i then e else slots s ! j)" for j using i(1) slots by simp
  have nxt: "next_slot k s' j = next_slot k s j" if "j \<noteq> i" for j using that at by (simp add: next_slot_def)
  have notlive: "\<not> live k s fs i" using hold by (auto simp: live_def)
  have head: "slot_of k (free_head s) \<noteq> 2 ^ k - 1 \<Longrightarrow> slot_of k (free_head s) \<noteq> i"
    using head_slot_free(3) [OF I(5)] i(2) by metis
  have "threads_ok k s'"
  proof (rule threads_okI [OF I(6), of s' t])
    show "pc_ok k s' (pcs s u)" if "u \<noteq> t" for u
    proof (rule pc_ok_write [OF threads_okD(1) [OF I(6)] slots same(1,2) _ head])
      show "holds (pcs s u) \<noteq> Some i" using that hold threads_okD(3) [OF I(6), of u i t] by (auto simp: slot_holder_def)
    qed
  qed (use pcs hold in simp_all)
  moreover have "free_ok k s' fs"
  proof -
    have "linked (next_slot k s') (slot_of k (free_head s')) fs (2 ^ k - 1) =
        linked (next_slot k s) (slot_of k (free_head s)) fs (2 ^ k - 1)"
      unfolding same by (rule linked_cong) (use nxt i(2) in metis)
    then show ?thesis using I(5) i(2) at unfolding free_ok_def h by metis
  qed
  moreover have "tags_ok k base s'"
  proof -
    have "tag_of k (sid (slots s' ! j)) = tag_of k (sid (slots s ! j))" for j using at tag by simp
    then show ?thesis using I(7) unfolding tags_ok_def same by simp
  qed
  moreover have "objects_ok k s' fs"
    unfolding objects_ok_def live_cong [OF h] same
  proof (intro conjI allI impI ballI)
    fix j
    assume "live k s fs j"
    moreover from this have "j \<noteq> i" using notlive by auto
    ultimately show "next_slot k s' j = j" "\<exists>x. payload (slots s' ! j) = Some x \<and> (sid (slots s' ! j), x) \<in> set (issued s)"
      using I(8) nxt at by (auto simp: objects_ok_def)
  next
    fix p
    assume p: "p \<in> set (issued s)"
    show "case p of (j, x) \<Rightarrow> j \<notin> set (erased s) \<longrightarrow>
        live k s fs (slot_of k j) \<and> slots s' ! slot_of k j = \<lparr>payload = Some x, sid = j\<rparr>"
    proof (clarify)
      fix j x
      assume j: "p = (j, x)" "j \<notin> set (erased s)"
      then have "live k s fs (slot_of k j)" "slots s ! slot_of k j = \<lparr>payload = Some x, sid = j\<rparr>"
        using I(8) p by (auto simp: objects_ok_def)
      moreover from this have "slot_of k j \<noteq> i" using notlive by auto
      ultimately show "live k s fs (slot_of k j) \<and> slots s' ! slot_of k j = \<lparr>payload = Some x, sid = j\<rparr>"
        using at by simp
    qed
  qed
  ultimately show ?thesis using I(1-4) slots same by (simp add: lf_inv_def)
qed

text \<open>Taking the first free slot.\<close>

lemma inv_swap:
  fixes s :: "('a, 'w::len word) lockfree"
  assumes inv: "lf_inv k base s fs" and pc: "pcs s t = L_swap x hm nh" and hm: "free_head s = hm"
    and few: "changes s + 1 < 2 ^ (LENGTH('w) - k)"
  defines "s' \<equiv> goto t (L_mark x (slot_of k hm)) s\<lparr>free_head := nh, changes := changes s + 1\<rparr>"
  shows "\<exists>fs'. lf_inv k base s' fs'"
proof -
  note I = lf_invD [OF inv] and F = free_okD [OF lf_invD(5) [OF inv]]
  let ?f = "slot_of k hm"
  have same: "slots s' = slots s" "issued s' = issued s" "erased s' = erased s" "changes s' = changes s + 1"
    "free_head s' = nh" "pcs s' = (pcs s)(t := L_mark x ?f)" by (simp_all add: s'_def goto_def)
  have ok: "?f \<noteq> 2 ^ k - 1" "nh = increment_tag_and_reset k hm (unpack_index k (sid (slots s ! ?f)))"
    using threads_okD(1) [OF I(6), of t] pc I(4) hm by auto
  from head_slot_free [OF I(5)] ok(1) hm obtain fs' where fs: "fs = ?f # fs'" by (metis list.collapse)
  have h: "slot_holder s' u = (if u = t then Some ?f else slot_holder s u)" for u by (simp add: slot_holder_def same)
  have t: "slot_holder s t = None" using pc by (simp add: slot_holder_def)
  have nxt: "next_slot k s' = next_slot k s" by (simp add: next_slot_def same fun_eq_iff)
  have live: "live k s' fs' i = live k s fs i" for i
  proof -
    have "(\<forall>u. slot_holder s' u \<noteq> Some i) \<longleftrightarrow> i \<noteq> ?f \<and> (\<forall>u. slot_holder s u \<noteq> Some i)"
      unfolding h using t by (metis option.distinct(1) option.inject)
    then show ?thesis by (auto simp: live_def fs)
  qed
  have "free_ok k s' fs'"
  proof -
    have "linked (next_slot k s) (next_slot k s ?f) fs' (2 ^ k - 1)" using F(2) fs by simp
    then have "linked (next_slot k s') (slot_of k nh) fs' (2 ^ k - 1)" by (simp add: nxt ok(2)) (simp add: next_slot_def)
    moreover have "slot_holder s' u \<noteq> Some i" if "i \<in> set fs'" for i u
      using that F(1) F(5) [of i u] fs by (auto simp: h)
    ultimately show ?thesis using F(1,3,4) fs by (simp add: free_ok_def same)
  qed
  moreover have "threads_ok k s'"
  proof (rule threads_okI [OF I(6), of s' t])
    show "pc_ok k s' (pcs s u)" for u by (rule pc_ok_bump [OF threads_okD(1) [OF I(6)] same(1,4)])
    show "pc_ok k s' (pcs s' t)" using F(4) fs by (simp add: same)
    have "slot_holder s u \<noteq> Some ?f" for u using F(5) fs by simp
    then show "holds (pcs s' t) = None \<or> holds (pcs s' t) = slot_holder s t \<or>
        (\<exists>i. holds (pcs s' t) = Some i \<and> i < 2 ^ k - 1 \<and> (\<forall>u. slot_holder s u \<noteq> Some i))"
      using F(3) fs by (simp add: same)
  qed (simp add: same)
  moreover have "tags_ok k base s'" using I(7) unfolding tags_ok_def same .
  moreover have "objects_ok k s' fs'" using I(8) unfolding objects_ok_def live nxt same .
  moreover have "tag_of k nh = changes s + 1"
    using I(4) hm few by (simp add: ok(2) tag_of_increment [OF I(1)])
  ultimately have "lf_inv k base s' fs'" using I(1,2) few by (simp add: lf_inv_def same)
  then show ?thesis ..
qed

text \<open>Giving a slot back.\<close>

lemma inv_push:
  fixes s :: "('a, 'w::len word) lockfree"
  assumes inv: "lf_inv k base s fs" and pc: "pcs s t = L_push i rid hm" and hm: "free_head s = hm"
    and few: "changes s + 1 < 2 ^ (LENGTH('w) - k)"
  defines "nh \<equiv> increment_tag_and_reset k hm (unpack_index k rid)"
  defines "s' \<equiv> goto t L_idle s\<lparr>free_head := nh, changes := changes s + 1\<rparr>"
  shows "lf_inv k base s' (i # fs)"
proof -
  note I = lf_invD [OF inv] and F = free_okD [OF lf_invD(5) [OF inv]]
  have same: "slots s' = slots s" "issued s' = issued s" "erased s' = erased s" "changes s' = changes s + 1"
    "free_head s' = nh" "pcs s' = (pcs s)(t := L_idle)" by (simp_all add: s'_def goto_def)
  have ok: "payload (slots s ! i) = None" "slot_of k rid = i" "next_slot k s i = slot_of k hm"
    using threads_okD(1) [OF I(6), of t] pc by auto
  have t: "slot_holder s t = Some i" using pc by (simp add: slot_holder_def)
  have i: "i < 2 ^ k - 1" "i \<notin> set fs" using threads_okD(2) [OF I(6) t] F(5) t by auto
  have h: "slot_holder s' u = (if u = t then None else slot_holder s u)" for u by (simp add: slot_holder_def same)
  have alone: "slot_holder s u \<noteq> Some i" if "u \<noteq> t" for u using that threads_okD(3) [OF I(6) t] by metis
  have nxt: "next_slot k s' = next_slot k s" by (simp add: next_slot_def same fun_eq_iff)
  have live: "live k s' (i # fs) j = live k s fs j" for j
  proof (cases "j = i")
    case True
    then show ?thesis using t by (auto simp: live_def)
  next
    case False
    then have "(\<forall>u. slot_holder s' u \<noteq> Some j) \<longleftrightarrow> (\<forall>u. slot_holder s u \<noteq> Some j)" unfolding h using t by (metis option.distinct(1) option.inject)
    then show ?thesis using False by (simp add: live_def)
  qed
  have "free_ok k s' (i # fs)"
  proof -
    have "linked (next_slot k s') (slot_of k nh) (i # fs) (2 ^ k - 1)"
      using F(2) hm ok(2,3) by (simp add: nxt nh_def)
    moreover have "slot_holder s' u \<noteq> Some j" if "j \<in> set (i # fs)" for j u
      using that alone [of u] F(5) [of j u] by (auto simp: h)
    ultimately show ?thesis using F(1,3,4) i ok(1) by (simp add: free_ok_def same)
  qed
  moreover have "threads_ok k s'"
  proof (rule threads_okI [OF I(6), of s' t])
    show "pc_ok k s' (pcs s u)" for u by (rule pc_ok_bump [OF threads_okD(1) [OF I(6)] same(1,4)])
  qed (simp_all add: same)
  moreover have "tags_ok k base s'" using I(7) unfolding tags_ok_def same .
  moreover have "objects_ok k s' (i # fs)" using I(8) unfolding objects_ok_def live nxt same .
  moreover have "tag_of k nh = changes s + 1"
    using I(4) hm few by (simp add: nh_def tag_of_increment [OF I(1)])
  ultimately show ?thesis using I(1,2) few by (simp add: lf_inv_def same)
qed

text \<open>The current tag of a slot was never erased before.\<close>

lemma tag_fresh:
  fixes s :: "('a, 'w::len word) lockfree"
  assumes tags: "tags_ok k base s" and few: "length (erased s) < 2 ^ (LENGTH('w) - k)"
    and j: "slot_of k j < 2 ^ k - 1" "tag_of k j = tag_of k (sid (slots s ! slot_of k j))"
  shows "j \<notin> set (erased s)"
proof
  let ?i = "slot_of k j" and ?N = "2 ^ (LENGTH('w) - k) :: nat"
  assume "j \<in> set (erased s)"
  then obtain g where g: "g < locks k (erased s) ?i" "tag_of k j = (base ?i + g) mod ?N"
    using tags by (auto simp: tags_ok_def)
  have l: "locks k (erased s) ?i < ?N"
    unfolding locks_def using length_filter_le few by (rule order_le_less_trans)
  have "(base ?i + g) mod ?N = (base ?i + locks k (erased s) ?i) mod ?N"
    using tags j g(2) by (simp add: tags_ok_def)
  then have "?N dvd locks k (erased s) ?i - g"
    using g(1) mod_eq_dvd_iff_nat [of "base ?i + g" "base ?i + locks k (erased s) ?i" ?N] by simp
  then show False using g(1) l by (meson dvd_imp_le less_imp_diff_less not_less zero_less_diff)
qed

text \<open>Returning a new id.\<close>

lemma inv_return:
  fixes s :: "('a, 'w::len word) lockfree"
  assumes inv: "lf_inv k base s fs" and pc: "pcs s t = L_return x i"
    and few: "length (erased s) < 2 ^ (LENGTH('w) - k)"
  defines "j \<equiv> sid (slots s ! i)"
  defines "s' \<equiv> goto t L_idle s\<lparr>issued := issued s @ [(j, x)]\<rparr>"
  shows "lf_inv k base s' fs"
proof -
  note I = lf_invD [OF inv] and F = free_okD [OF lf_invD(5) [OF inv]]
  have same: "slots s' = slots s" "erased s' = erased s" "changes s' = changes s"
    "free_head s' = free_head s" "pcs s' = (pcs s)(t := L_idle)" "issued s' = issued s @ [(j, x)]"
    by (simp_all add: s'_def goto_def)
  have t: "slot_holder s t = Some i" using pc by (simp add: slot_holder_def)
  have i: "i < 2 ^ k - 1" "i \<notin> set fs" using threads_okD(2) [OF I(6) t] F(5) t by auto
  have ok: "payload (slots s ! i) = Some x" "slot_of k j = i"
    using threads_okD(1) [OF I(6), of t] pc by (auto simp: next_slot_def j_def)
  have h: "slot_holder s' u = (if u = t then None else slot_holder s u)" for u by (simp add: slot_holder_def same)
  have alone: "slot_holder s u \<noteq> Some i" if "u \<noteq> t" for u using that threads_okD(3) [OF I(6) t] by metis
  have nxt: "next_slot k s' = next_slot k s" by (simp add: next_slot_def same fun_eq_iff)
  have not_live: "\<not> live k s fs i" using t by (auto simp: live_def)
  have live: "live k s' fs m \<longleftrightarrow> live k s fs m \<or> m = i" for m
  proof (cases "m = i")
    case True
    then show ?thesis using i alone by (auto simp: live_def h)
  next
    case False
    then have "(\<forall>u. slot_holder s' u \<noteq> Some m) \<longleftrightarrow> (\<forall>u. slot_holder s u \<noteq> Some m)" unfolding h using t by (metis option.distinct(1) option.inject)
    then show ?thesis using False by (simp add: live_def)
  qed
  have j: "j \<notin> set (erased s)" by (rule tag_fresh [OF I(7) few]) (use i ok in \<open>simp_all add: j_def\<close>)
  have new: "j \<notin> fst ` set (issued s)"
    using I(8) j not_live ok(2) by (auto simp: objects_ok_def)
  have "free_ok k s' fs"
    using F i(2) unfolding free_ok_def by (auto simp: same nxt h)
  moreover have "threads_ok k s'"
    by (rule threads_okI [OF I(6), of s' t], unfold pc_ok_same [OF same(1,4,3)])
      (use I(6) in \<open>simp_all add: same threads_okD(1)\<close>)
  moreover have "tags_ok k base s'" using I(7) new i(1) ok(2) by (auto simp: tags_ok_def same)
  moreover have "objects_ok k s' fs"
    unfolding objects_ok_def live nxt same
  proof (intro conjI allI impI ballI)
    fix m
    assume m: "live k s fs m \<or> m = i"
    show "next_slot k s m = m" using m I(8) ok(2) by (auto simp: objects_ok_def next_slot_def j_def)
    show "\<exists>x'. payload (slots s ! m) = Some x' \<and> (sid (slots s ! m), x') \<in> set (issued s @ [(j, x)])"
      using m I(8) ok(1) by (auto simp: objects_ok_def j_def)
  next
    fix p
    assume "p \<in> set (issued s @ [(j, x)])"
    moreover have "slots s ! i = \<lparr>payload = Some x, sid = j\<rparr>" using ok(1) by (simp add: j_def)
    ultimately show "case p of (m, y) \<Rightarrow> m \<notin> set (erased s) \<longrightarrow>
        (live k s fs (slot_of k m) \<or> slot_of k m = i) \<and> slots s ! slot_of k m = \<lparr>payload = Some y, sid = m\<rparr>"
      using I(8) ok(2) by (auto simp: objects_ok_def)
  qed
  ultimately show ?thesis using I(1-4) by (simp add: lf_inv_def same)
qed

text \<open>Locking the slot of an id that is to be erased.\<close>

text \<open>Locking a slot for erasure gives it the next tag.\<close>

lemma lock_tags:
  fixes s :: "('a, 'w::len word) lockfree"
  assumes ok: "tags_ok k base s" and k: "k < LENGTH('w)"
    and j: "slot_of k j < 2 ^ k - 1" "sid (slots s ! slot_of k j) = j" "j \<in> fst ` set (issued s)" "j \<notin> set (erased s)"
    and at: "\<And>m. sid (slots s' ! m) = (if m = slot_of k j then increment_tag k j else sid (slots s ! m))"
    and same: "erased s' = erased s @ [j]" "issued s' = issued s"
  shows "tags_ok k base s'"
proof -
  let ?i = "slot_of k j" and ?N = "2 ^ (LENGTH('w) - k) :: nat"
  have locks: "locks k (erased s @ [j]) m = (if m = ?i then locks k (erased s) m + 1 else locks k (erased s) m)" for m
    by (simp add: locks_def)
  have tj: "tag_of k j = (base ?i + locks k (erased s) ?i) mod ?N" using ok j(1,2) by (auto simp: tags_ok_def)
  then have "tag_of k (increment_tag k j) = (base ?i + (locks k (erased s) ?i + 1)) mod ?N"
    by (simp add: increment_tag_def tag_of_increment [OF k] mod_Suc_eq)
  then have "tag_of k (sid (slots s' ! m)) = (base m + locks k (erased s @ [j]) m) mod ?N" if "m < 2 ^ k - 1" for m
    using that ok by (simp add: at locks tags_ok_def)
  moreover have "\<exists>g < locks k (erased s @ [j]) (slot_of k e). tag_of k e = (base (slot_of k e) + g) mod ?N"
    if e: "e \<in> set (erased s @ [j])" for e
  proof (cases "e = j")
    case True
    then show ?thesis using tj locks [of ?i] by (intro exI [of _ "locks k (erased s) ?i"]) simp
  next
    case False
    then obtain g where "g < locks k (erased s) (slot_of k e)" "tag_of k e = (base (slot_of k e) + g) mod ?N"
      using e ok by (auto simp: tags_ok_def)
    then show ?thesis unfolding locks by (intro exI [of _ g]) auto
  qed
  moreover have "e \<in> fst ` set (issued s)" if "e \<in> set (erased s @ [j])" for e
    using that ok j(3) by (auto simp: tags_ok_def)
  ultimately show ?thesis using ok j(4) by (simp add: tags_ok_def same)
qed

lemma lock_objects:
  fixes s :: "('a, 'w::len word) lockfree"
  assumes ok: "objects_ok k s fs" and j: "sid (slots s ! slot_of k j) = j"
    and live: "\<And>m. live k s' fs m \<longleftrightarrow> live k s fs m \<and> m \<noteq> slot_of k j"
    and at: "\<And>m. m \<noteq> slot_of k j \<Longrightarrow> slots s' ! m = slots s ! m"
    and same: "erased s' = erased s @ [j]" "issued s' = issued s"
  shows "objects_ok k s' fs"
proof -
  have "next_slot k s' m = m" "\<exists>x. payload (slots s' ! m) = Some x \<and> (sid (slots s' ! m), x) \<in> set (issued s)"
    if "live k s fs m" "m \<noteq> slot_of k j" for m
    using that ok by (auto simp: objects_ok_def next_slot_def at)
  moreover have "live k s fs (slot_of k m) \<and> slot_of k m \<noteq> slot_of k j \<and> slots s' ! slot_of k m = \<lparr>payload = Some y, sid = m\<rparr>"
    if m: "(m, y) \<in> set (issued s)" "m \<notin> set (erased s @ [j])" for m y
  proof -
    have *: "live k s fs (slot_of k m)" "slots s ! slot_of k m = \<lparr>payload = Some y, sid = m\<rparr>"
      using ok m by (auto simp: objects_ok_def)
    have "slot_of k m \<noteq> slot_of k j"
    proof
      assume "slot_of k m = slot_of k j"
      then have "sid (slots s ! slot_of k j) = m" using arg_cong [OF *(2), of sid] by simp
      then show False using m(2) j by simp
    qed
    then show ?thesis using * at by simp
  qed
  ultimately show ?thesis unfolding objects_ok_def live same by blast
qed

lemma inv_lock:
  fixes s :: "('a, 'w::len word) lockfree"
  assumes inv: "lf_inv k base s fs" and pc: "pcs s t = L_idle"
    and j: "(j, x) \<in> set (issued s)" "sid (slots s ! slot_of k j) = j"
    and few: "length (erased s) < 2 ^ (LENGTH('w) - k)"
  defines "s' \<equiv> goto t (L_destroy (slot_of k j)) (set_sid (slot_of k j) (increment_tag k j) s)\<lparr>erased := erased s @ [j]\<rparr>"
  shows "lf_inv k base s' fs"
proof -
  note I = lf_invD [OF inv] and F = free_okD [OF lf_invD(5) [OF inv]]
  let ?i = "slot_of k j" 
  have i: "?i < 2 ^ k - 1" using I(7) j(1) by (auto simp: tags_ok_def)
  have jn: "j \<notin> set (erased s)" by (rule tag_fresh [OF I(7) few i]) (simp add: j(2))
  then have live_i: "live k s fs ?i" "slots s ! ?i = \<lparr>payload = Some x, sid = j\<rparr>"
    using I(8) j(1) by (auto simp: objects_ok_def)
  have i_free: "?i \<notin> set fs" and alone: "slot_holder s u \<noteq> Some ?i" for u using live_i by (auto simp: live_def)
  let ?e = "\<lparr>payload = Some x, sid = increment_tag k j\<rparr>"
  have same: "slots s' = (slots s)[?i := ?e]" "erased s' = erased s @ [j]" "changes s' = changes s"
    "free_head s' = free_head s" "pcs s' = (pcs s)(t := L_destroy ?i)" "issued s' = issued s"
    using live_i(2) by (simp_all add: s'_def goto_def set_sid_def)
  have at: "slots s' ! m = (if m = ?i then ?e else slots s ! m)" for m using i I(2) by (simp add: same)
  have t: "slot_holder s t = None" using pc by (simp add: slot_holder_def)
  have h: "slot_holder s' u = (if u = t then Some ?i else slot_holder s u)" for u by (simp add: slot_holder_def same)
  have nxt: "next_slot k s' m = (if m = ?i then ?i else next_slot k s m)" for m by (simp add: next_slot_def at)
  have live: "live k s' fs m \<longleftrightarrow> live k s fs m \<and> m \<noteq> ?i" for m
  proof -
    have "(\<forall>u. slot_holder s' u \<noteq> Some m) \<longleftrightarrow> m \<noteq> ?i \<and> (\<forall>u. slot_holder s u \<noteq> Some m)"
      unfolding h using t by (metis option.distinct(1) option.inject)
    then show ?thesis by (auto simp: live_def)
  qed
  have "free_ok k s' fs"
  proof -
    have "linked (next_slot k s') (slot_of k (free_head s')) fs (2 ^ k - 1) =
        linked (next_slot k s) (slot_of k (free_head s)) fs (2 ^ k - 1)"
      unfolding same by (rule linked_cong) (use nxt i_free in metis)
    moreover have "slot_holder s' u \<noteq> Some m" if "m \<in> set fs" for m u using that F(5) [OF that] i_free by (auto simp: h)
    moreover have "payload (slots s' ! m) = None" if "m \<in> set fs" for m using that F(4) i_free at by auto
    ultimately show ?thesis using F(1,2,3) by (simp add: free_ok_def)
  qed
  moreover have "threads_ok k s'"
  proof (rule threads_okI [OF I(6), of s' t])
    show "pc_ok k s' (pcs s u)" for u
    proof (rule pc_ok_write [OF threads_okD(1) [OF I(6)] same(1,4,3)])
      show "holds (pcs s u) \<noteq> Some ?i" using alone by (simp add: slot_holder_def)
      show "slot_of k (free_head s) \<noteq> 2 ^ k - 1 \<Longrightarrow> slot_of k (free_head s) \<noteq> ?i"
        using head_slot_free(3) [OF I(5)] i_free by metis
    qed
    show "pc_ok k s' (pcs s' t)" by (simp add: same(5) at nxt)
  qed (use i alone in \<open>simp_all add: same(5)\<close>)
  moreover have "j \<in> fst ` set (issued s)" using j(1) by force
  then have "tags_ok k base s'" by (intro lock_tags [OF I(7,1) i j(2) _ jn]) (simp_all add: at same(2,6))
  moreover have "objects_ok k s' fs" by (rule lock_objects [OF I(8) j(2)]) (simp_all add: live at same(2,6))
  ultimately show ?thesis using I(1-4) by (simp add: lf_inv_def same)
qed

subsection \<open>Reachable states\<close>

lemma slot_of_or_tag:
  assumes "inner_of k n = 0"
  shows "slot_of k (n OR (v AND inner_mask k)) = slot_of k n" "tag_of k (n OR (v AND inner_mask k)) = tag_of k v"
proof -
  have "n OR (v AND inner_mask k) = reset_index k v n" by (simp add: reset_index_def or.commute)
  then show "slot_of k (n OR (v AND inner_mask k)) = slot_of k n" "tag_of k (n OR (v AND inner_mask k)) = tag_of k v"
    using tag_of_reset [OF assms] by simp_all
qed

lemma lf_start_inv:
  fixes tags :: "'w::len word list"
  assumes k: "k < LENGTH('w)" and len: "length tags = 2 ^ k - 1"
  shows "lf_inv k (\<lambda>i. tag_of k (tags ! i)) (lf_start k tags :: ('a, 'w word) lockfree) [0..<2 ^ k - 1]"
proof -
  let ?s = "lf_start k tags :: ('a, 'w word) lockfree" and ?n = "2 ^ k - 1 :: nat"
  have at: "slots ?s ! i = \<lparr>payload = None, sid = (if Suc i < ?n then of_nat (i + 1) else invalid_index k) OR
      (tags ! i AND inner_mask k)\<rparr>" if "i < ?n" for i
    using that len by (simp add: lf_start_def)
  have sid: "slot_of k (sid (slots ?s ! i)) = Suc i" "tag_of k (sid (slots ?s ! i)) = tag_of k (tags ! i)" if "i < ?n" for i
  proof -
    let ?m = "if Suc i < ?n then of_nat (i + 1) else invalid_index k :: 'w word"
    have "slot_of k ?m = Suc i"
    proof (cases "Suc i < ?n")
      case True
      then have "Suc i < 2 ^ k" by simp
      then show ?thesis using True k by (simp del: of_nat_Suc)
    next
      case False
      then have "Suc i = ?n" using that by simp
      then show ?thesis using slot_of_invalid [OF k] by simp
    qed
    moreover have "inner_of k ?m = 0"
    proof (cases "Suc i < ?n")
      case True
      then have "Suc i < 2 ^ k" by simp
      then show ?thesis using True k by (simp del: of_nat_Suc)
    qed simp
    ultimately show "slot_of k (sid (slots ?s ! i)) = Suc i" "tag_of k (sid (slots ?s ! i)) = tag_of k (tags ! i)"
      using slot_of_or_tag [of k ?m "tags ! i"] at [OF that] by simp_all
  qed
  have zero: "slot_of k (0 :: 'w word) = 0" "tag_of k (0 :: 'w word) = 0"
    by (simp_all add: slot_of_mod tag_of_div)
  have fields: "free_head ?s = 0" "changes ?s = 0" "issued ?s = []" "erased ?s = []" "pcs ?s = (\<lambda>_. L_idle)"
    "length (slots ?s) = ?n" using len by (simp_all add: lf_start_def)
  have h: "slot_holder ?s t = None" for t by (simp add: slot_holder_def fields)
  have "linked (next_slot k ?s) (if 0 = ?n then ?n else 0) [0..<?n] ?n"
    by (rule linked_upt) (auto simp: next_slot_def sid)
  then have "linked (next_slot k ?s) (slot_of k (free_head ?s)) [0..<?n] ?n" by (simp add: fields zero split: if_splits)
  then have "free_ok k ?s [0..<?n]" by (simp add: free_ok_def h at)
  moreover have "threads_ok k ?s" by (simp add: threads_ok_def h fields)
  moreover have "tags_ok k (\<lambda>i. tag_of k (tags ! i)) ?s"
  proof -
    have "tag_of k (tags ! i) < 2 ^ (LENGTH('w) - k)" for i
      using k by (simp add: tag_of_div less_mult_imp_div_less flip: power_add)
    then show ?thesis by (simp add: tags_ok_def fields sid locks_def)
  qed
  moreover have "objects_ok k ?s [0..<?n]" by (simp add: objects_ok_def fields live_def)
  ultimately show ?thesis using k by (simp add: lf_inv_def fields zero)
qed

lemma emplace_inv:
  fixes s :: "('a, 'w::len word) lockfree"
  assumes inv: "lf_inv k base s fs" and step: "emplace_step k t s s'" and few: "length (erased s) < 2 ^ (LENGTH('w) - k)"
  shows "\<exists>fs'. lf_inv k base s' fs'"
proof -
  note I = lf_invD [OF inv]
  note P = threads_okD(1) [OF I(6), of t]
  from step show ?thesis
  proof cases
    case emplace
    then show ?thesis using inv_move [OF inv, of "L_load _" t] by (auto simp: slot_holder_def)
  next
    case no_slot
    then show ?thesis using inv_move [OF inv, of "L_idle" t] by (auto simp: slot_holder_def)
  next
    case (construct x i)
    have t: "slot_holder s t = Some i" using construct by (simp add: slot_holder_def)
    have i: "i < length (slots s)" using threads_okD(2) [OF I(6) t] I(2) by simp
    show ?thesis unfolding construct(1)
      by (rule exI, rule inv_write [OF inv t, where e = "(slots s ! i)\<lparr>payload := Some x\<rparr>" and pc = "L_return x i"])
        (use construct P i in \<open>simp_all add: goto_def set_payload_def next_slot_def\<close>)
  next
    case (return x i)
    show ?thesis unfolding return(1) by (rule exI, rule inv_return [OF inv return(2) few])
  qed
qed

lemma acquire_inv:
  fixes s :: "('a, 'w::len word) lockfree"
  assumes inv: "lf_inv k base s fs" and step: "acquire_step k t s s'" and few: "changes s' < 2 ^ (LENGTH('w) - k)"
  shows "\<exists>fs'. lf_inv k base s' fs'"
proof -
  note I = lf_invD [OF inv]
  note P = threads_okD(1) [OF I(6), of t]
  have fresh: "head_ok k s (free_head s)" using I(4) by (simp add: head_ok_def)
  from step show ?thesis
  proof cases
    case (load x)
    have "slot_of k (free_head s) \<noteq> 2 ^ k - 1"
      using load(3) slot_of_invalid [OF I(1)] slot_of_eq_iff [of k "free_head s" "invalid_index k"]
      by (simp add: unpack_index_eq)
    then show ?thesis using load fresh inv_move [OF inv, of "L_next x (free_head s)" t] by (auto simp: slot_holder_def)
  next
    case (read_next x hm)
    show ?thesis unfolding read_next(1)
      by (rule exI, rule inv_move [OF inv]) (use read_next P in \<open>simp_all add: slot_holder_def\<close>)
  next
    case (swap x hm nh)
    show ?thesis unfolding swap(1) by (rule inv_swap [OF inv swap(2,3)]) (use swap few in simp)
  next
    case (swap_failed x)
    then show ?thesis using inv_move [OF inv, of "L_load x" t] by (auto simp: slot_holder_def)
  next
    case (mark x i)
    show ?thesis unfolding mark(1)
      by (rule exI, rule inv_move [OF inv]) (use mark P in \<open>simp_all add: slot_holder_def\<close>)
  next
    case (store x i v)
    have t: "slot_holder s t = Some i" using store by (simp add: slot_holder_def)
    have i: "i < 2 ^ k" "i < length (slots s)" using threads_okD(2) [OF I(6) t] I(2) by auto
    then have n: "inner_of k (of_nat i :: 'w word) = 0" "slot_of k (of_nat i :: 'w word) = i" using I(1) by simp_all
    show ?thesis unfolding store(1)
      by (rule exI, rule inv_write [OF inv t, where e = "(slots s ! i)\<lparr>sid := reset_index k v (of_nat i)\<rparr>" and pc = "L_construct x i"])
        (use store(2) P n i in \<open>simp_all add: goto_def set_sid_def tag_of_reset next_slot_def\<close>)
  qed
qed

lemma release_inv:
  fixes s :: "('a, 'w::len word) lockfree"
  assumes inv: "lf_inv k base s fs" and step: "release_step k t s s'" and few: "changes s' < 2 ^ (LENGTH('w) - k)"
  shows "\<exists>fs'. lf_inv k base s' fs'"
proof -
  note I = lf_invD [OF inv]
  note P = threads_okD(1) [OF I(6), of t]
  have fresh: "head_ok k s (free_head s)" using I(4) by (simp add: head_ok_def)
  from step show ?thesis
  proof cases
    case (reload i)
    show ?thesis unfolding reload(1)
      by (rule exI, rule inv_move [OF inv]) (use reload P in \<open>simp_all add: slot_holder_def next_slot_def\<close>)
  next
    case (head i rid)
    show ?thesis unfolding head(1)
      by (rule exI, rule inv_move [OF inv]) (use head P fresh in \<open>simp_all add: slot_holder_def\<close>)
  next
    case (link i rid hm)
    have t: "slot_holder s t = Some i" using link by (simp add: slot_holder_def)
    have i: "i < length (slots s)" using threads_okD(2) [OF I(6) t] I(2) by simp
    show ?thesis unfolding link(1)
      by (rule exI, rule inv_write [OF inv t, where e = "(slots s ! i)\<lparr>sid := reset_index k rid (unpack_index k hm)\<rparr>" and pc = "L_push i rid hm"])
        (use link P i in \<open>simp_all add: goto_def set_sid_def next_slot_def head_ok_def\<close>)
  next
    case (push i rid hm)
    show ?thesis unfolding push(1) by (rule exI, rule inv_push [OF inv push(2,3)]) (use push few in simp)
  next
    case (push_failed i rid hm)
    show ?thesis unfolding push_failed(1)
      by (rule exI, rule inv_move [OF inv]) (use push_failed P in \<open>simp_all add: slot_holder_def\<close>)
  qed
qed

lemma step_inv:
  fixes s :: "('a, 'w::len word) lockfree"
  assumes inv: "lf_inv k base s fs" and step: "lf_step k t s s'"
    and few: "changes s' < 2 ^ (LENGTH('w) - k)" "length (erased s) < 2 ^ (LENGTH('w) - k)"
  shows "\<exists>fs'. lf_inv k base s' fs'"
proof -
  note I = lf_invD [OF inv]
  note P = threads_okD(1) [OF I(6), of t]
  from step show ?thesis
  proof (cases rule: lf_step_cases)
    case Emplace
    then show ?thesis by (rule emplace_inv [OF inv _ few(2)])
  next
    case Acquire
    then show ?thesis by (rule acquire_inv [OF inv _ few(1)])
  next
    case Lock
    then show ?thesis
    proof cases
      case (lock j x)
      show ?thesis unfolding lock(1) by (rule exI, rule inv_lock [OF inv lock(2-4) few(2)])
    next
      case lock_lost
      then show ?thesis using inv by auto
    qed
  next
    case Erase
    then show ?thesis
    proof cases
      case (destroy i)
      have t: "slot_holder s t = Some i" using destroy by (simp add: slot_holder_def)
      have i: "i < length (slots s)" using threads_okD(2) [OF I(6) t] I(2) by simp
      show ?thesis unfolding destroy(1)
        by (rule exI, rule inv_write [OF inv t, where e = "(slots s ! i)\<lparr>payload := None\<rparr>" and pc = "L_reload i"])
          (use destroy P i in \<open>simp_all add: goto_def set_payload_def next_slot_def\<close>)
    qed
  next
    case Release
    then show ?thesis by (rule release_inv [OF inv _ few(1)])
  qed
qed

lemma step_grows: "lf_step k t s s' \<Longrightarrow> changes s \<le> changes s' \<and> length (erased s) \<le> length (erased s')"
  by (cases rule: lf_step_cases)
    (auto simp: goto_def set_sid_def set_payload_def
      elim: emplace_step.cases acquire_step.cases lock_step.cases erase_step.cases release_step.cases)

lemma lf_run_inv:
  fixes s :: "('a, 'w::len word) lockfree"
  assumes "lf_run k tags s" "k < LENGTH('w)" "length tags = 2 ^ k - 1"
    "changes s < 2 ^ (LENGTH('w) - k)" "length (erased s) < 2 ^ (LENGTH('w) - k)"
  shows "\<exists>fs. lf_inv k (\<lambda>i. tag_of k (tags ! i)) s fs"
  using assms
proof (induction rule: lf_run.induct)
  case init
  then show ?case using lf_start_inv by blast
next
  case (step s t s')
  have "changes s < 2 ^ (LENGTH('w) - k)" "length (erased s) < 2 ^ (LENGTH('w) - k)"
    using step_grows [OF step.hyps(2)] step.prems by auto
  then show ?case using step.IH step.prems step_inv [OF _ step.hyps(2)] by blast
qed

subsection \<open>Reading, construction and destruction\<close>

definition lf_is_valid_id :: "nat \<Rightarrow> ('a, 'w::len word) lockfree \<Rightarrow> 'w word \<Rightarrow> bool" where
  "lf_is_valid_id k s i =
     (let index = unpack_index k i in
      if index \<ge> max_size k then False else sid (slots s ! unat index) = i)"

definition is_acquired :: "nat \<Rightarrow> ('a, 'w::len word) lockfree \<Rightarrow> nat \<Rightarrow> bool" where
  "is_acquired k s index \<longleftrightarrow> slot_of k (sid (slots s ! index)) = index"

definition lf_get :: "nat \<Rightarrow> ('a, 'w::len word) lockfree \<Rightarrow> 'w word \<Rightarrow> 'a res" where
  "lf_get k s i =
     require (lf_is_valid_id k s i) Dcheck_failed (
     fetch (slots s) (slot_of k i) (\<lambda>slot.
     require (is_acquired k s (slot_of k i)) Dcheck_failed (
     case payload slot of None \<Rightarrow> Inl Dead_object | Some x \<Rightarrow> Inr x)))"

text \<open>\<open>tag_generator\<close>: the state after seeding with the address \<open>this\<close>, and its outputs.\<close>

definition next_random :: "nat \<Rightarrow> nat" where
  "next_random x = (2862933555777941757 * x + 3037000493) mod (2 ^ 64 - 1)"

fun randoms :: "nat \<Rightarrow> nat \<Rightarrow> nat list" where
  "randoms 0 x = []"
| "randoms (Suc n) x = next_random x # randoms n (next_random x)"

definition initial_tags :: "nat \<Rightarrow> nat \<Rightarrow> 'w::len word list" where
  "initial_tags k this = map of_nat (randoms (2 ^ k - 1) (this mod (2 ^ 64 - 1)))"

definition init_empty :: "nat \<Rightarrow> nat \<Rightarrow> ('a, 'w::len word) lockfree \<Rightarrow> ('a, 'w word) lockfree" where
  "init_empty k this s =
     (let tags = initial_tags k this in
      s\<lparr>free_head := 0,
        slots := map (\<lambda>i. (slots s ! i)\<lparr>sid :=
            (if Suc i < length tags then of_nat (i + 1) else invalid_index k) OR (tags ! i AND inner_mask k)\<rparr>)
          [0..<length tags]\<rparr>)"

definition lf_new :: "nat \<Rightarrow> nat \<Rightarrow> ('a, 'w::len word) lockfree" where
  "lf_new k this = init_empty k this \<lparr>slots = replicate (2 ^ k - 1) \<lparr>payload = None, sid = 0\<rparr>,
     free_head = invalid_index k, pcs = \<lambda>_. L_idle, changes = 0, issued = [], erased = []\<rparr>"

text \<open>\<open>destroy_elements\<close> returns the objects it destroys, in order.\<close>

fun destroy_from :: "nat \<Rightarrow> nat \<Rightarrow> ('a, 'w::len word) lf_slot list \<Rightarrow> ('a list \<times> ('a, 'w word) lf_slot list) res" where
  "destroy_from k i [] = Inr ([], [])"
| "destroy_from k i (slot # rest) =
     (if slot_of k (sid slot) = i then
        (case payload slot of
           None \<Rightarrow> Inl Dead_object
         | Some x \<Rightarrow> bind_res (destroy_from k (Suc i) rest) (\<lambda>(xs, ss). Inr (x # xs, slot\<lparr>payload := None\<rparr> # ss)))
      else bind_res (destroy_from k (Suc i) rest) (\<lambda>(xs, ss). Inr (xs, slot # ss)))"

definition unsafe_clear :: "nat \<Rightarrow> nat \<Rightarrow> ('a, 'w::len word) lockfree \<Rightarrow> ('a list \<times> ('a, 'w word) lockfree) res" where
  "unsafe_clear k this s =
     bind_res (destroy_from k 0 (slots s)) (\<lambda>(xs, ss). Inr (xs, init_empty k this (s\<lparr>slots := ss\<rparr>)))"

lemma length_randoms [simp]: "length (randoms n x) = n"
  by (induction n arbitrary: x) auto

lemma length_initial_tags [simp]: "length (initial_tags k this) = 2 ^ k - 1"
  by (simp add: initial_tags_def)

lemma lf_new_start: "lf_new k this = lf_start k (initial_tags k this)"
  by (simp add: lf_new_def init_empty_def lf_start_def Let_def)

lemma destroy_from_ok:
  assumes "\<And>j. j < length ss \<Longrightarrow> slot_of k (sid (ss ! j)) = i + j \<longleftrightarrow> payload (ss ! j) \<noteq> None"
  shows "destroy_from k i ss = Inr (List.map_filter payload ss, map (\<lambda>slot. slot\<lparr>payload := None\<rparr>) ss)"
  using assms
proof (induction ss arbitrary: i)
  case Nil
  then show ?case by (simp add: List.map_filter_simps)
next
  case (Cons slot ss)
  have "slot_of k (sid (ss ! j)) = Suc i + j \<longleftrightarrow> payload (ss ! j) \<noteq> None" if "j < length ss" for j
    using Cons.prems [of "Suc j"] that by simp
  note IH = Cons.IH [OF this]
  have "slot_of k (sid slot) = i \<longleftrightarrow> payload slot \<noteq> None" using Cons.prems [of 0] by simp
  then show ?case by (cases slot) (auto simp: IH List.map_filter_simps split: option.split)
qed

subsection \<open>Properties\<close>


lemma lf_step_run: "lf_run k tags s \<Longrightarrow> lf_step k t s s' \<Longrightarrow> s'' = s' \<Longrightarrow> lf_run k tags s''"
  by (auto intro: lf_run.step)

text \<open>One slot, one object stored by thread 0.\<close>

definition one_stored :: "(nat, 8 word) lockfree" where
  "one_stored = \<lparr>slots = [\<lparr>payload = Some 5, sid = 44\<rparr>], free_head = 3, pcs = \<lambda>_. L_idle, changes = 1,
     issued = [(44, 5)], erased = []\<rparr>"

lemma one_stored_run: "lf_run 1 [45] one_stored"
proof -
  let ?s = "\<lambda>p i h c iss pc. \<lparr>slots = [\<lparr>payload = p, sid = i\<rparr>], free_head = h, pcs = (\<lambda>_. L_idle)(0 := pc),
     changes = c, issued = iss, erased = []\<rparr> :: (nat, 8 word) lockfree"
  note bits = unpack_index_def increment_tag_and_reset_def reset_index_def outer_mask_def inner_mask_def
    invalid_index_def slot_of_mod goto_def set_sid_def set_payload_def
  have "lf_start 1 [45] = ?s None 45 0 0 [] L_idle" by (simp add: lf_start_def bits fun_eq_iff)
  with lf_run.init [of 1 "[45]"] have 0: "lf_run 1 [45] (?s None 45 0 0 [] L_idle)" by metis
  have 1: "lf_run 1 [45] (?s None 45 0 0 [] (L_load 5))"
    by (rule lf_step_run [OF 0 lf_stepI(1) [OF emplace_step.emplace [of _ 0]]]) (simp_all add: bits)
  have 2: "lf_run 1 [45] (?s None 45 0 0 [] (L_next 5 0))"
    by (rule lf_step_run [OF 1 lf_stepI(2) [OF acquire_step.load [of _ 0 5]]]) (simp_all add: bits)
  have 3: "lf_run 1 [45] (?s None 45 0 0 [] (L_swap 5 0 3))"
    by (rule lf_step_run [OF 2 lf_stepI(2) [OF acquire_step.read_next [of _ 0 5 0]]]) (simp_all add: bits)
  have 4: "lf_run 1 [45] (?s None 45 3 1 [] (L_mark 5 0))"
    by (rule lf_step_run [OF 3 lf_stepI(2) [OF acquire_step.swap [of _ 0 5 0 3]]]) (simp_all add: bits)
  have 5: "lf_run 1 [45] (?s None 45 3 1 [] (L_store 5 0 45))"
    by (rule lf_step_run [OF 4 lf_stepI(2) [OF acquire_step.mark [of _ 0 5 0]]]) (simp_all add: bits)
  have 6: "lf_run 1 [45] (?s None 44 3 1 [] (L_construct 5 0))"
    by (rule lf_step_run [OF 5 lf_stepI(2) [OF acquire_step.store [of _ 0 5 0 45]]]) (simp_all add: bits)
  have 7: "lf_run 1 [45] (?s (Some 5) 44 3 1 [] (L_return 5 0))"
    by (rule lf_step_run [OF 6 lf_stepI(1) [OF emplace_step.construct [of _ 0 5 0]]]) (simp_all add: bits)
  show ?thesis
    by (rule lf_step_run [OF 7 lf_stepI(1) [OF emplace_step.return [of _ 0 5 0]]]) (simp_all add: bits one_stored_def fun_eq_iff)
qed




text \<open>With no thread inside a call, the slots with an object are those of the ids returned and not
  erased.\<close>

lemma quiet_slot:
  fixes s :: "('a, 'w::len word) lockfree"
  assumes inv: "lf_inv k base s fs" and few: "length (erased s) < 2 ^ (LENGTH('w) - k)"
    and quiet: "\<forall>t. pcs s t = L_idle" and i: "i < 2 ^ k - 1"
  shows "next_slot k s i = i \<longleftrightarrow> payload (slots s ! i) \<noteq> None"
    "payload (slots s ! i) = Some x \<Longrightarrow>
      (sid (slots s ! i), x) \<in> set (issued s) \<and> sid (slots s ! i) \<notin> set (erased s) \<and> slot_of k (sid (slots s ! i)) = i"
proof -
  note I = lf_invD [OF inv] and F = free_okD [OF lf_invD(5) [OF inv]]
  have h: "slot_holder s t = None" for t using quiet by (simp add: slot_holder_def)
  have live: "live k s fs i" if "i \<notin> set fs" using that i h by (simp add: live_def)
  show at: "next_slot k s i = i \<longleftrightarrow> payload (slots s ! i) \<noteq> None"
  proof (cases "i \<in> set fs")
    case True
    have "2 ^ k - 1 \<notin> set fs" using F(3) by blast
    then show ?thesis using True F(4) linked_no_loop [OF F(2,1)] by auto
  next
    case False
    then show ?thesis using I(8) live by (auto simp: objects_ok_def)
  qed
  assume x: "payload (slots s ! i) = Some x"
  then have "i \<notin> set fs" using F(4) by fastforce
  then have "(sid (slots s ! i), x) \<in> set (issued s)" using I(8) live x by (auto simp: objects_ok_def)
  moreover have j: "next_slot k s i = i" using at x by simp
  moreover have "sid (slots s ! i) \<notin> set (erased s)"
    by (rule tag_fresh [OF I(7) few]) (use j i in \<open>simp_all add: next_slot_def\<close>)
  ultimately show "(sid (slots s ! i), x) \<in> set (issued s) \<and> sid (slots s ! i) \<notin> set (erased s) \<and>
      slot_of k (sid (slots s ! i)) = i" by (simp add: next_slot_def)
qed

lemma unerased_slot:
  assumes "lf_inv k base s fs" "(j, x) \<in> set (issued s)" "j \<notin> set (erased s)"
  shows "slot_of k j < 2 ^ k - 1" "slots s ! slot_of k j = \<lparr>payload = Some x, sid = j\<rparr>"
  using assms lf_invD(8) [OF assms(1)] by (auto simp: objects_ok_def live_def)

lemma quiet_objects:
  fixes s :: "('a, 'w::len word) lockfree"
  assumes inv: "lf_inv k base s fs" and few: "length (erased s) < 2 ^ (LENGTH('w) - k)"
    and quiet: "\<forall>t. pcs s t = L_idle"
  shows "x \<in> set (List.map_filter payload (slots s)) \<longleftrightarrow> (\<exists>j. (j, x) \<in> set (issued s) \<and> j \<notin> set (erased s))"
proof -
  have "x \<in> set (List.map_filter payload (slots s)) \<longleftrightarrow> (\<exists>slot \<in> set (slots s). payload slot = Some x)"
    unfolding List.map_filter_def by force
  also have "\<dots> \<longleftrightarrow> (\<exists>i < 2 ^ k - 1. payload (slots s ! i) = Some x)"
    unfolding set_conv_nth [of "slots s"] lf_invD(2) [OF inv] by blast
  also have "\<dots> \<longleftrightarrow> (\<exists>j. (j, x) \<in> set (issued s) \<and> j \<notin> set (erased s))"
  proof
    assume "\<exists>i < 2 ^ k - 1. payload (slots s ! i) = Some x"
    then show "\<exists>j. (j, x) \<in> set (issued s) \<and> j \<notin> set (erased s)" using quiet_slot(2) [OF inv few quiet] by blast
  next
    assume "\<exists>j. (j, x) \<in> set (issued s) \<and> j \<notin> set (erased s)"
    then obtain j where j: "(j, x) \<in> set (issued s)" "j \<notin> set (erased s)" by blast
    show "\<exists>i < 2 ^ k - 1. payload (slots s ! i) = Some x"
      using unerased_slot [OF inv j] by (intro exI [of _ "slot_of k j"]) simp
  qed
  finally show ?thesis .
qed

lemma quiet_count:
  fixes s :: "('a, 'w::len word) lockfree"
  assumes inv: "lf_inv k base s fs" and few: "length (erased s) < 2 ^ (LENGTH('w) - k)"
    and quiet: "\<forall>t. pcs s t = L_idle"
  shows "length (List.map_filter payload (slots s)) + length (erased s) = length (issued s)"
proof -
  note I = lf_invD [OF inv]
  let ?U = "fst ` set (issued s) - set (erased s)"
  let ?L = "{i. i < length (slots s) \<and> payload (slots s ! i) \<noteq> None}"
  have "bij_betw (slot_of k) ?U ?L"
  proof (rule bij_betwI [where g = "\<lambda>i. sid (slots s ! i)"])
    show "slot_of k \<in> ?U \<rightarrow> ?L" using unerased_slot [OF inv] I(2) by fastforce
    show "(\<lambda>i. sid (slots s ! i)) \<in> ?L \<rightarrow> ?U"
      using quiet_slot(2) [OF inv few quiet] by (force simp: I(2))
    show "sid (slots s ! slot_of k j) = j" if "j \<in> ?U" for j using that unerased_slot(2) [OF inv] by fastforce
    show "slot_of k (sid (slots s ! i)) = i" if "i \<in> ?L" for i
      using that quiet_slot(2) [OF inv few quiet] by (auto simp: I(2))
  qed
  then have "card ?U = length (List.map_filter payload (slots s))"
    by (simp add: bij_betw_same_card List.map_filter_def length_filter_conv_card comp_def)
  moreover have "card ?U = card (fst ` set (issued s)) - card (set (erased s))"
    using I(7) by (intro card_Diff_subset) (auto simp: tags_ok_def)
  moreover have "card (fst ` set (issued s)) = length (issued s)" "card (set (erased s)) = length (erased s)"
    using I(7) distinct_card [of "map fst (issued s)"] distinct_card [of "erased s"] by (auto simp: tags_ok_def)
  moreover have "card (set (erased s)) \<le> card (fst ` set (issued s))"
    using I(7) by (intro card_mono) (auto simp: tags_ok_def)
  ultimately show ?thesis by simp
qed



end
