(* ===== verification/Lockfree_Progress.thy ===== *)
theory Lockfree_Progress
  imports Lockfree_Id_Vector
begin

text \<open>
  Why the id vector of \<open>proto/id_vector.hpp\<close> may be called lock-free. \<open>lf_next\<close> is the next step of
  a thread inside \<open>emplace\<close>, \<open>erase\<close> or \<open>move_from\<close>, with a compare-exchange that fails only if the
  value differs; \<open>lf_exec\<close> lets the threads take turns as a scheduler pleases. A measure for each
  thread bounds how long it can go on before it returns or some thread updates \<open>free_head_\<close>, which
  every call does once.
\<close>

subsection \<open>Running the threads\<close>

definition lf_next :: "nat \<Rightarrow> nat \<Rightarrow> ('a, 'w::len word) lockfree \<Rightarrow> ('a, 'w word) lockfree" where
  "lf_next k t s =
     (case pcs s t of
        L_idle \<Rightarrow> s
      | L_load x \<Rightarrow>
          if unpack_index k (free_head s) = invalid_index k then goto t L_idle s else goto t (L_next x (free_head s)) s
      | L_next x hm \<Rightarrow>
          goto t (L_swap x hm (increment_tag_and_reset k hm (unpack_index k (sid (slots s ! slot_of k hm))))) s
      | L_swap x hm nh \<Rightarrow>
          if free_head s = hm then goto t (L_mark x (slot_of k hm)) s\<lparr>free_head := nh, changes := changes s + 1\<rparr>
          else goto t (L_load x) s
      | L_mark x i \<Rightarrow> goto t (L_store x i (sid (slots s ! i))) s
      | L_store x i v \<Rightarrow> goto t (L_construct x i) (set_sid i (reset_index k v (of_nat i)) s)
      | L_construct x i \<Rightarrow> goto t (L_return x i) (set_payload i (Some x) s)
      | L_return x i \<Rightarrow> goto t L_idle s\<lparr>issued := issued s @ [(sid (slots s ! i), x)]\<rparr>
      | L_destroy i \<Rightarrow> goto t (L_reload i) (set_payload i None s)
      | L_reload i \<Rightarrow> goto t (L_head i (sid (slots s ! i))) s
      | L_head i rid \<Rightarrow> goto t (L_link i rid (free_head s)) s
      | L_link i rid hm \<Rightarrow> goto t (L_push i rid hm) (set_sid i (reset_index k rid (unpack_index k hm)) s)
      | L_push i rid hm \<Rightarrow>
          if free_head s = hm then goto t L_idle s\<lparr>free_head := increment_tag_and_reset k hm (unpack_index k rid),
            changes := changes s + 1\<rparr>
          else goto t (L_head i rid) s)"

fun lf_exec :: "nat \<Rightarrow> nat list \<Rightarrow> ('a, 'w::len word) lockfree \<Rightarrow> ('a, 'w word) lockfree" where
  "lf_exec k [] s = s"
| "lf_exec k (t # ts) s = lf_exec k ts (lf_next k t s)"

lemma lf_next_step: "pcs s t \<noteq> L_idle \<Longrightarrow> lf_step k t s (lf_next k t s)"
proof -
  note steps = emplace_step.intros(2-) acquire_step.intros erase_step.intros release_step.intros
  assume "pcs s t \<noteq> L_idle"
  then have "emplace_step k t s (lf_next k t s) \<or> acquire_step k t s (lf_next k t s) \<or>
      erase_step k t s (lf_next k t s) \<or> release_step k t s (lf_next k t s)"
  proof (cases "pcs s t")
    case (L_load x)
    then show ?thesis
      by (cases "unpack_index k (free_head s) = invalid_index k") (simp_all add: lf_next_def steps)
  next
    case (L_swap x hm nh)
    show ?thesis
    proof (cases "free_head s = hm")
      case True
      then show ?thesis using acquire_step.swap [OF L_swap] by (simp add: lf_next_def L_swap)
    next
      case False
      then show ?thesis using acquire_step.swap_failed [OF L_swap] by (simp add: lf_next_def L_swap)
    qed
  next
    case (L_push i rid hm)
    show ?thesis
    proof (cases "free_head s = hm")
      case True
      then show ?thesis using release_step.push [OF L_push] by (simp add: lf_next_def L_push)
    next
      case False
      then show ?thesis using release_step.push_failed [OF L_push] by (simp add: lf_next_def L_push)
    qed
  qed (simp_all add: lf_next_def steps)
  then show ?thesis by (auto simp: lf_step_def)
qed

lemma lf_next_run: "lf_run k tags s \<Longrightarrow> lf_run k tags (lf_next k t s)"
  using lf_run.step [OF _ lf_next_step] by (cases "pcs s t = L_idle") (auto simp: lf_next_def)

lemma lf_next_erased [simp]: "erased (lf_next k t s) = erased s"
  by (cases "pcs s t") (simp_all add: lf_next_def goto_def set_sid_def set_payload_def)

lemma lf_next_changes: "changes s \<le> changes (lf_next k t s)"
  by (cases "pcs s t") (simp_all add: lf_next_def goto_def set_sid_def set_payload_def)

lemma lf_next_other: "u \<noteq> t \<Longrightarrow> pcs (lf_next k t s) u = pcs s u"
  by (cases "pcs s t") (simp_all add: lf_next_def goto_def set_sid_def set_payload_def)

lemma lf_exec_changes: "changes s \<le> changes (lf_exec k ts s)"
  by (induction ts arbitrary: s) (auto intro: order_trans [OF lf_next_changes])

subsection \<open>How long a thread can go on\<close>

text \<open>The steps a thread has left until it returns, if nobody else updates \<open>free_head_\<close>; a head that
  was loaded is fresh if nobody has done so since.\<close>

definition fuel :: "nat \<Rightarrow> ('a, 'w::len word) lockfree \<Rightarrow> nat \<Rightarrow> nat" where
  "fuel k s t =
     (case pcs s t of
        L_idle \<Rightarrow> 0
      | L_return x i \<Rightarrow> 1
      | L_construct x i \<Rightarrow> 2
      | L_store x i v \<Rightarrow> 3
      | L_mark x i \<Rightarrow> 4
      | L_swap x hm nh \<Rightarrow> if tag_of k hm = changes s then 5 else 8
      | L_next x hm \<Rightarrow> if tag_of k hm = changes s then 6 else 9
      | L_load x \<Rightarrow> 7
      | L_push i rid hm \<Rightarrow> if tag_of k hm = changes s then 1 else 4
      | L_link i rid hm \<Rightarrow> if tag_of k hm = changes s then 2 else 5
      | L_head i rid \<Rightarrow> 3
      | L_reload i \<Rightarrow> 4
      | L_destroy i \<Rightarrow> 5)"

lemma fuel_bound: "fuel k s t \<le> 9"
  by (simp add: fuel_def split: lf_pc.split)

lemma fuel_other:
  assumes "u \<noteq> t" "changes (lf_next k t s) = changes s"
  shows "fuel k (lf_next k t s) u = fuel k s u"
  unfolding fuel_def assms(2) lf_next_other [OF assms(1)] ..

lemma fuel_less:
  assumes inv: "lf_inv k base s fs" and busy: "pcs s t \<noteq> L_idle"
    and same: "changes (lf_next k t s) = changes s"
  shows "fuel k (lf_next k t s) t < fuel k s t"
proof -
  have ok: "pc_ok k s (pcs s t)" by (rule threads_okD(1) [OF lf_invD(6) [OF inv]])
  have tag: "tag_of k (free_head s) = changes s" by (rule lf_invD(4) [OF inv])
  show ?thesis
    using busy same ok tag
    by (cases "pcs s t")
      (auto simp: fuel_def lf_next_def goto_def set_sid_def set_payload_def head_ok_def split: if_splits)
qed

lemma exec_fuel:
  fixes s :: "('a, 'w::len word) lockfree"
  assumes "lf_run k tags s" and k: "k < LENGTH('w)" "length tags = 2 ^ k - 1"
    and few: "c < 2 ^ (LENGTH('w) - k)" "length (erased s) < 2 ^ (LENGTH('w) - k)"
    and T: "finite T" "set ts \<subseteq> T"
    and still: "\<And>n. n \<le> length ts \<Longrightarrow> changes (lf_exec k (take n ts) s) = c \<and> (\<forall>t \<in> T. pcs (lf_exec k (take n ts) s) t \<noteq> L_idle)"
  shows "length ts \<le> (\<Sum>t \<in> T. fuel k s t)"
  using assms(1) few(2) T(2) still
proof (induction ts arbitrary: s)
  case Nil
  then show ?case by simp
next
  case (Cons t ts)
  let ?s = "lf_next k t s"
  have now: "changes s = c" "\<forall>t \<in> T. pcs s t \<noteq> L_idle" using Cons.prems(4) [of 0] by simp_all
  have later: "changes (lf_exec k (take n ts) ?s) = c \<and> (\<forall>t \<in> T. pcs (lf_exec k (take n ts) ?s) t \<noteq> L_idle)"
    if "n \<le> length ts" for n using Cons.prems(4) [of "Suc n"] that by simp
  have t: "t \<in> T" using Cons.prems(3) by simp
  have same: "changes ?s = changes s" using later [of 0] now(1) by simp
  obtain base fs where inv: "lf_inv k base s fs"
    using lf_run_inv [OF Cons.prems(1) k] few(1) Cons.prems(2) now(1) by blast
  have "length ts \<le> (\<Sum>t \<in> T. fuel k ?s t)"
    by (rule Cons.IH [OF lf_next_run [OF Cons.prems(1)]]) (use Cons.prems(2,3) later in simp_all)
  also have "\<dots> < (\<Sum>t \<in> T. fuel k s t)"
  proof (rule sum_strict_mono_ex1 [OF T(1)])
    show "\<forall>u \<in> T. fuel k ?s u \<le> fuel k s u"
      using fuel_other [OF _ same] fuel_less [OF inv _ same] now(2) by (metis order.refl order.strict_implies_order)
    show "\<exists>u \<in> T. fuel k ?s u < fuel k s u" using t fuel_less [OF inv _ same] now(2) by blast
  qed
  finally show ?case by simp
qed

subsection \<open>Properties\<close>



end
