(* ===== verification/Lockfree_Quiet.thy ===== *)
theory Lockfree_Quiet
  imports Lockfree_Progress Id_Map
begin

text \<open>
  The lock-free id vector of \<open>proto/id_vector.hpp\<close> as its callers see it when calls do not overlap:
  \<open>lf_emplace\<close>, \<open>lf_erase\<close> and \<open>lf_move_from\<close> run the steps of one call to its end while the other
  threads stand still. Between calls the vector is a finite map from ids to objects, so it provides
  the interface \<open>id_map\<close> like the vectors of \<open>core/\<close>; unlike these it ignores an id that is not in use.
\<close>

subsection \<open>Whole calls\<close>

text \<open>\<open>emplace\<close> by thread \<open>t\<close>: the id it returns is that of the slot it was given, or \<open>INVALID_ID\<close>.\<close>

definition lf_emplace :: "nat \<Rightarrow> nat \<Rightarrow> ('a, 'w::len word) lockfree \<Rightarrow> 'a \<Rightarrow>
    ('w word \<times> ('a, 'w word) lockfree) res" where
  "lf_emplace k t s x =
     (let s' = lf_exec k (replicate 7 t) (goto t (L_load x) s) in
      Inr (if length (issued s') = length (issued s) then invalid_index k else fst (last (issued s')), s'))"

definition lock_slot :: "nat \<Rightarrow> nat \<Rightarrow> 'w::len word \<Rightarrow> ('a, 'w word) lockfree \<Rightarrow> (bool \<times> ('a, 'w word) lockfree) res" where
  "lock_slot k t j s =
     require (unpack_index k j < invalid_index k) Dcheck_failed (
     fetch (slots s) (slot_of k j) (\<lambda>slot.
     if sid slot = j then
       let s = goto t (L_destroy (slot_of k j)) (set_sid (slot_of k j) (increment_tag k j) s)\<lparr>erased := erased s @ [j]\<rparr> in
       require (is_acquired k s (slot_of k j)) Dcheck_failed (Inr (True, s))
     else Inr (False, s)))"

definition lf_erase :: "nat \<Rightarrow> nat \<Rightarrow> ('a, 'w::len word) lockfree \<Rightarrow> 'w word \<Rightarrow> ('a, 'w word) lockfree res" where
  "lf_erase k t s j =
     bind_res (lock_slot k t j s) (\<lambda>(locked, s). Inr (if locked then lf_exec k (replicate 5 t) s else s))"

text \<open>The object moved out is the result.\<close>

definition lf_move_from :: "nat \<Rightarrow> nat \<Rightarrow> ('a, 'w::len word) lockfree \<Rightarrow> 'w word \<Rightarrow>
    ('a option \<times> ('a, 'w word) lockfree) res" where
  "lf_move_from k t s j =
     bind_res (lock_slot k t j s) (\<lambda>(locked, s).
     if locked then
       (case payload (slots s ! slot_of k j) of
          None \<Rightarrow> Inl Dead_object
        | Some x \<Rightarrow> Inr (Some x, lf_exec k (replicate 5 t) s))
     else Inr (None, s))"

subsection \<open>Between calls\<close>

definition quiet_repr :: "nat \<Rightarrow> ('a, 'w::len word) lockfree \<Rightarrow> nat list \<Rightarrow> bool" where
  "quiet_repr k s fs \<longleftrightarrow>
     k < LENGTH('w) \<and> length (slots s) = 2 ^ k - 1 \<and> (\<forall>t. pcs s t = L_idle) \<and>
     distinct fs \<and> set fs \<subseteq> {..<2 ^ k - 1} \<and> linked (next_slot k s) (slot_of k (free_head s)) fs (2 ^ k - 1) \<and>
     (\<forall>i < 2 ^ k - 1. if i \<in> set fs then payload (slots s ! i) = None
       else next_slot k s i = i \<and> payload (slots s ! i) \<noteq> None)"

definition quiet :: "nat \<Rightarrow> ('a, 'w::len word) lockfree \<Rightarrow> bool" where
  "quiet k s \<longleftrightarrow> (\<exists>fs. quiet_repr k s fs)"

definition lf_lookup :: "nat \<Rightarrow> ('a, 'w::len word) lockfree \<Rightarrow> 'w word \<Rightarrow> 'a option" where
  "lf_lookup k s i = (if lf_is_valid_id k s i then payload (slots s ! slot_of k i) else None)"

lemma quiet_reprD:
  assumes "quiet_repr k (s :: ('a, 'w::len word) lockfree) fs"
  shows "k < LENGTH('w)" "length (slots s) = 2 ^ k - 1" "pcs s t = L_idle" "distinct fs"
    "linked (next_slot k s) (slot_of k (free_head s)) fs (2 ^ k - 1)" "i \<in> set fs \<Longrightarrow> i < 2 ^ k - 1"
    "i \<in> set fs \<Longrightarrow> payload (slots s ! i) = None"
    "i < 2 ^ k - 1 \<Longrightarrow> i \<notin> set fs \<Longrightarrow> next_slot k s i = i"
    "i < 2 ^ k - 1 \<Longrightarrow> i \<notin> set fs \<Longrightarrow> payload (slots s ! i) \<noteq> None"
  using assms unfolding quiet_repr_def by (auto split: if_splits)

lemma quiet_invalid: "\<not> slot_of k i < 2 ^ k - 1 \<longleftrightarrow> slot_of k i = 2 ^ k - 1"
  using slot_of_lt [of k i] by linarith

lemma index_lt_iff:
  fixes i :: "'w::len word"
  assumes "k < LENGTH('w)"
  shows "unpack_index k i < invalid_index k \<longleftrightarrow> slot_of k i < 2 ^ k - 1"
    "unpack_index k i = invalid_index k \<longleftrightarrow> slot_of k i = 2 ^ k - 1"
  by (simp_all add: word_less_nat_alt word_unat_eq_iff unpack_index_eq slot_of_def unat_invalid [OF assms])

lemma lf_valid_iff:
  assumes "quiet_repr k s fs"
  shows "lf_is_valid_id k s i \<longleftrightarrow> slot_of k i < 2 ^ k - 1 \<and> sid (slots s ! slot_of k i) = i"
  using index_lt_iff(1) [OF quiet_reprD(1) [OF assms], of i]
  by (simp add: lf_is_valid_id_def Let_def not_le [symmetric] invalid_index_mask)
    (simp add: unpack_index_eq slot_of_def)

text \<open>An id that is in use belongs to a slot that is not free.\<close>

lemma valid_not_free:
  assumes q: "quiet_repr k s fs" and "slot_of k i < 2 ^ k - 1" "sid (slots s ! slot_of k i) = i"
  shows "slot_of k i \<notin> set fs"
proof
  assume "slot_of k i \<in> set fs"
  then have "next_slot k s (slot_of k i) \<noteq> slot_of k i"
    using linked_no_loop [OF quiet_reprD(5,4) [OF q]] quiet_reprD(6) [OF q, of "2 ^ k - 1"] by blast
  then show False using assms(3) by (simp add: next_slot_def)
qed

lemma lf_lookup_Some:
  assumes "quiet_repr k s fs"
  shows "lf_lookup k s i = Some x \<longleftrightarrow> slot_of k i < 2 ^ k - 1 \<and> slots s ! slot_of k i = \<lparr>payload = Some x, sid = i\<rparr>"
  using lf_valid_iff [OF assms, of i] by (cases "slots s ! slot_of k i") (auto simp: lf_lookup_def)

lemma lf_valid_lookup:
  assumes q: "quiet_repr k s fs"
  shows "lf_is_valid_id k s i \<longleftrightarrow> lf_lookup k s i \<noteq> None"
  using lf_valid_iff [OF q, of i] valid_not_free [OF q, of i] quiet_reprD(9) [OF q, of "slot_of k i"]
  by (auto simp: lf_lookup_def)

lemma lf_lookup_card:
  assumes q: "quiet_repr k s fs"
  shows "card (dom (lf_lookup k s)) = 2 ^ k - 1 - length fs" "length fs \<le> 2 ^ k - 1"
proof -
  note Q = quiet_reprD [OF q]
  have "bij_betw (slot_of k) (dom (lf_lookup k s)) ({..<2 ^ k - 1} - set fs)"
  proof (rule bij_betwI [where g = "\<lambda>i. sid (slots s ! i)"])
    show "slot_of k \<in> dom (lf_lookup k s) \<rightarrow> {..<2 ^ k - 1} - set fs"
      using lf_lookup_Some [OF q] valid_not_free [OF q] by fastforce
    show "(\<lambda>i. sid (slots s ! i)) \<in> {..<2 ^ k - 1} - set fs \<rightarrow> dom (lf_lookup k s)"
      using Q(8,9) lf_valid_lookup [OF q] lf_valid_iff [OF q] by (fastforce simp: next_slot_def)
    show "sid (slots s ! slot_of k i) = i" if "i \<in> dom (lf_lookup k s)" for i
      using that lf_lookup_Some [OF q] by fastforce
    show "slot_of k (sid (slots s ! i)) = i" if "i \<in> {..<2 ^ k - 1} - set fs" for i
      using that Q(8) by (simp add: next_slot_def)
  qed
  moreover have sub: "set fs \<subseteq> {..<2 ^ k - 1}" using Q(6) by blast
  ultimately show "card (dom (lf_lookup k s)) = 2 ^ k - 1 - length fs"
    using distinct_card [OF Q(4)] by (simp add: bij_betw_same_card card_Diff_subset)
  show "length fs \<le> 2 ^ k - 1" using card_mono [OF _ sub] distinct_card [OF Q(4)] by simp
qed

subsection \<open>What a call does\<close>

definition emplaced :: "nat \<Rightarrow> 'a \<Rightarrow> ('a, 'w::len word) lockfree \<Rightarrow> ('a, 'w word) lockfree" where
  "emplaced k x s =
     (let f = slot_of k (free_head s); e = slots s ! f; i = reset_index k (sid e) (of_nat f) in
      s\<lparr>slots := (slots s)[f := \<lparr>payload = Some x, sid = i\<rparr>],
        free_head := increment_tag_and_reset k (free_head s) (unpack_index k (sid e)),
        changes := changes s + 1, issued := issued s @ [(i, x)]\<rparr>)"

definition freed :: "nat \<Rightarrow> 'w::len word \<Rightarrow> ('a, 'w word) lockfree \<Rightarrow> ('a, 'w word) lockfree" where
  "freed k j s =
     s\<lparr>slots := (slots s)[slot_of k j := \<lparr>payload = None, sid = reset_index k (increment_tag k j) (unpack_index k (free_head s))\<rparr>],
       free_head := increment_tag_and_reset k (free_head s) (unpack_index k (increment_tag k j)),
       changes := changes s + 1, erased := erased s @ [j]\<rparr>"

lemma turns: "replicate 7 t = [t, t, t, t, t, t, t]" "replicate 5 t = [t, t, t, t, t]"
  by (simp_all add: eval_nat_numeral)

lemma set_slot [simp]: "e\<lparr>payload := p, sid := v\<rparr> = \<lparr>payload = p, sid = v\<rparr>" "e\<lparr>sid := v, payload := p\<rparr> = \<lparr>payload = p, sid = v\<rparr>"
  by (cases e, simp)+

lemmas lf_moves = turns lf_next_def goto_def set_sid_def set_payload_def

lemma lf_exec_full:
  assumes "slot_of k (free_head s) = 2 ^ k - 1" "pcs s t = L_idle" "k < LENGTH('w)"
  shows "lf_exec k (replicate 7 t) (goto t (L_load x) (s :: ('a, 'w::len word) lockfree)) = s"
  using assms by (simp add: lf_moves index_lt_iff(2) fun_upd_idem)

lemma lf_exec_emplace:
  fixes s :: "('a, 'w::len word) lockfree"
  assumes "slot_of k (free_head s) < 2 ^ k - 1" "pcs s t = L_idle" "k < LENGTH('w)" "length (slots s) = 2 ^ k - 1"
  shows "lf_exec k (replicate 7 t) (goto t (L_load x) s) = emplaced k x s"
  using assms by (cases s) (simp add: lf_moves index_lt_iff(2) fun_upd_idem emplaced_def Let_def)

lemma lf_exec_erase:
  fixes s :: "('a, 'w::len word) lockfree"
  assumes "slot_of k j < 2 ^ k - 1" "pcs s t = L_idle" "length (slots s) = 2 ^ k - 1"
  shows "lf_exec k (replicate 5 t) (goto t (L_destroy (slot_of k j))
      (set_sid (slot_of k j) (increment_tag k j) s)\<lparr>erased := erased s @ [j]\<rparr>) = freed k j s"
  using assms by (cases s) (simp add: lf_moves fun_upd_idem freed_def Let_def)

lemma emplaced_repr:
  fixes s :: "('a, 'w::len word) lockfree"
  assumes q: "quiet_repr k s (f # fs)"
  shows "quiet_repr k (emplaced k x s) fs" "lf_lookup k s (sid (slots (emplaced k x s) ! f)) = None"
    "lf_lookup k (emplaced k x s) = (lf_lookup k s)(sid (slots (emplaced k x s) ! f) \<mapsto> x)"
proof -
  note Q = quiet_reprD [OF q]
  let ?s = "emplaced k x s"
  define i where "i = sid (slots ?s ! f)"
  have f: "slot_of k (free_head s) = f" "f < 2 ^ k - 1" "f \<notin> set fs" using Q(4,5,6) by auto
  then have "f < 2 ^ k" by simp
  then have i: "slot_of k i = f" "slots ?s = (slots s)[f := \<lparr>payload = Some x, sid = i\<rparr>]"
    using Q(1,2) f by (simp_all add: i_def emplaced_def Let_def)
  have next_slot: "next_slot k ?s j = (if j = f then f else next_slot k s j)" for j
    using i f Q(2) by (simp add: next_slot_def)
  have "slot_of k (free_head ?s) = next_slot k s f" using f(1) by (simp add: emplaced_def Let_def next_slot_def)
  moreover have "linked (next_slot k s) (next_slot k s f) fs (2 ^ k - 1)" using Q(5) by simp
  moreover have "linked (next_slot k ?s) p fs e = linked (next_slot k s) p fs e" for p e
    using f(3) by (intro linked_cong) (auto simp: next_slot)
  moreover have "pcs ?s = pcs s" by (simp add: emplaced_def Let_def)
  ultimately show new: "quiet_repr k ?s fs"
    using Q f(2,3) by (simp add: quiet_repr_def i(2) next_slot) (auto simp: nth_list_update)
  show none: "lf_lookup k s (sid (slots ?s ! f)) = None"
    using Q(7) [of f] i(1) by (simp add: lf_lookup_def i_def)
  show "lf_lookup k ?s = (lf_lookup k s)(sid (slots ?s ! f) \<mapsto> x)"
  proof (rule ext, rule option_ext)
    fix j y
    show "lf_lookup k ?s j = Some y \<longleftrightarrow> ((lf_lookup k s)(sid (slots ?s ! f) \<mapsto> x)) j = Some y"
      using i f(2) Q(2) Q(7) [of f] unfolding i_def [symmetric]
      by (cases "slot_of k j = f") (auto simp: lf_lookup_Some [OF q] lf_lookup_Some [OF new] nth_list_update)
  qed
qed

lemma freed_repr:
  fixes s :: "('a, 'w::len word) lockfree"
  assumes q: "quiet_repr k s fs" and j: "slot_of k j < 2 ^ k - 1" "sid (slots s ! slot_of k j) = j"
  shows "quiet_repr k (freed k j s) (slot_of k j # fs)" "lf_lookup k (freed k j s) = (lf_lookup k s)(j := None)"
proof -
  note Q = quiet_reprD [OF q]
  let ?s = "freed k j s" and ?i = "slot_of k j"
  have free: "?i \<notin> set fs" by (rule valid_not_free [OF q j])
  obtain v where slots: "slots ?s = (slots s)[?i := \<lparr>payload = None, sid = v\<rparr>]" by (simp add: freed_def)
  have next_slot: "next_slot k ?s i = (if i = ?i then slot_of k (free_head s) else next_slot k s i)" for i
    using Q(2) j(1) by (simp add: next_slot_def freed_def nth_list_update)
  have "linked (next_slot k ?s) p fs e = linked (next_slot k s) p fs e" for p e
    using free by (intro linked_cong) (auto simp: next_slot)
  then have "linked (next_slot k ?s) (slot_of k (free_head ?s)) (?i # fs) (2 ^ k - 1)"
    using Q(5) by (simp add: next_slot) (simp add: freed_def)
  then show new: "quiet_repr k ?s (?i # fs)"
    using Q j(1) free by (simp add: quiet_repr_def next_slot) (auto simp: freed_def nth_list_update)
  show "lf_lookup k ?s = (lf_lookup k s)(j := None)"
  proof (rule ext, rule option_ext)
    fix i y
    show "lf_lookup k ?s i = Some y \<longleftrightarrow> ((lf_lookup k s)(j := None)) i = Some y"
      using j Q(2) by (cases "slot_of k i = ?i")
        (auto simp: lf_lookup_Some [OF q] lf_lookup_Some [OF new] slots nth_list_update)
  qed
qed

subsection \<open>The calls on a vector at rest\<close>

lemma lf_emplace_ok:
  assumes q: "quiet_repr k s (f # fs)"
  obtains i where "lf_emplace k t s x = Inr (i, emplaced k x s)" "i = sid (slots (emplaced k x s) ! f)"
    "issued (emplaced k x s) = issued s @ [(i, x)]"
proof -
  note Q = quiet_reprD [OF q]
  have f: "slot_of k (free_head s) = f" "f < 2 ^ k - 1" using Q(5,6) by auto
  then show ?thesis
    using that [OF _ refl] lf_exec_emplace [of k s t x] Q(1,2,3)
    by (simp add: lf_emplace_def) (simp add: emplaced_def Let_def)
qed

lemma lf_emplace_full: "quiet_repr k s [] \<Longrightarrow> lf_emplace k t s x = Inr (invalid_index k, s)"
  using lf_exec_full [of k s t x] quiet_reprD [of k s "[]"] by (simp add: lf_emplace_def)

lemma lock_slot_ok:
  fixes s :: "('a, 'w::len word) lockfree"
  assumes q: "quiet_repr k s fs"
  shows "lock_slot k t j s =
    (if \<not> slot_of k j < 2 ^ k - 1 then Inl Dcheck_failed
     else if lf_lookup k s j = None then Inr (False, s)
     else Inr (True, goto t (L_destroy (slot_of k j)) (set_sid (slot_of k j) (increment_tag k j) s)\<lparr>erased := erased s @ [j]\<rparr>))"
proof (cases "slot_of k j < 2 ^ k - 1")
  case True
  moreover from this have "lf_lookup k s j = None \<longleftrightarrow> sid (slots s ! slot_of k j) \<noteq> j"
    using lf_valid_lookup [OF q] lf_valid_iff [OF q] by blast
  ultimately show ?thesis
    using quiet_reprD(2) [OF q] index_lt_iff(1) [OF quiet_reprD(1) [OF q], of j]
    by (simp add: lock_slot_def Let_def is_acquired_def goto_def set_sid_def)
next
  case False
  then show ?thesis using index_lt_iff(1) [OF quiet_reprD(1) [OF q], of j] by (simp add: lock_slot_def)
qed

lemma lf_erase_ok:
  assumes q: "quiet_repr k s fs"
  shows "lf_erase k t s j =
    (if \<not> slot_of k j < 2 ^ k - 1 then Inl Dcheck_failed
     else if lf_lookup k s j = None then Inr s else Inr (freed k j s))"
  using lf_exec_erase [of k j s t] quiet_reprD [OF q] by (simp add: lf_erase_def lock_slot_ok [OF q])

lemma lf_move_from_ok:
  assumes q: "quiet_repr k s fs"
  shows "lf_move_from k t s j = bind_res (lf_erase k t s j) (\<lambda>s'. Inr (lf_lookup k s j, s'))"
proof (cases "lf_lookup k s j")
  case None
  then show ?thesis by (simp add: lf_move_from_def lf_erase_def lock_slot_ok [OF q])
next
  case (Some x)
  then have "slot_of k j < 2 ^ k - 1" "payload (slots s ! slot_of k j) = Some x"
    using lf_lookup_Some [OF q] by auto
  then show ?thesis using Some quiet_reprD(2) [OF q]
    by (simp add: lf_move_from_def lf_erase_def lock_slot_ok [OF q] goto_def set_sid_def)
qed

lemma lf_get_lookup:
  assumes q: "quiet_repr k s fs"
  shows "lf_get k s i = (case lf_lookup k s i of None \<Rightarrow> Inl Dcheck_failed | Some x \<Rightarrow> Inr x)"
proof (cases "lf_lookup k s i")
  case None
  then show ?thesis using lf_valid_lookup [OF q] by (simp add: lf_get_def)
next
  case (Some x)
  then have "slot_of k i < 2 ^ k - 1" "slots s ! slot_of k i = \<lparr>payload = Some x, sid = i\<rparr>" "lf_is_valid_id k s i"
    using lf_lookup_Some [OF q] lf_valid_lookup [OF q] by auto
  then show ?thesis using Some quiet_reprD(2) [OF q] by (simp add: lf_get_def is_acquired_def)
qed

text \<open>The index of \<open>INVALID_ID\<close> is not one of a slot, whatever the tag.\<close>

definition has_slot :: "nat \<Rightarrow> 'w::len word \<Rightarrow> bool" where
  "has_slot k i \<longleftrightarrow> slot_of k i < 2 ^ k - 1"

interpretation lf: lenient_id_map "quiet k" "lf_lookup k" "invalid_index k" "2 ^ k - 1"
    "lf_emplace k t" "lf_erase k t" "lf_get k" "lf_is_valid_id k" "has_slot k"
  for k t :: nat
proof unfold_locales
  fix s :: "('a, 'b::len word) lockfree" and i x
  assume "quiet k s"
  then obtain fs where q: "quiet_repr k s fs" by (auto simp: quiet_def)
  note L = lf_lookup_Some [OF q]
  show "finite (dom (lf_lookup k s))" by simp
  show "lf_lookup k s (invalid_index k) = None"
    using L [of "invalid_index k"] slot_of_invalid [OF quiet_reprD(1) [OF q]] by (cases "lf_lookup k s (invalid_index k)") auto
  show "\<exists>i s'. lf_emplace k t s x = Inr (i, s') \<and> quiet k s' \<and> lf_lookup k s i = None \<and>
      lf_lookup k s' = (lf_lookup k s)(i \<mapsto> x)" if "card (dom (lf_lookup k s)) < 2 ^ k - 1"
  proof -
    have "fs \<noteq> []" using that lf_lookup_card(1) [OF q] by auto
    then obtain f fs' where fs: "fs = f # fs'" by (cases fs) auto
    show ?thesis using lf_emplace_ok [OF q [unfolded fs], of t x] emplaced_repr [OF q [unfolded fs], of x]
      unfolding quiet_def by metis
  qed
  show "\<exists>s'. lf_erase k t s i = Inr s' \<and> quiet k s' \<and> lf_lookup k s' = (lf_lookup k s)(i := None)"
    if "lf_lookup k s i = Some x"
    using freed_repr [OF q, of i] L [of i x] that unfolding lf_erase_ok [OF q] quiet_def by auto
  show "lf_get k s i = Inr x" if "lf_lookup k s i = Some x" using that by (simp add: lf_get_lookup [OF q])
  show "\<exists>e. lf_get k s i = Inl e" if "lf_lookup k s i = None" using that by (simp add: lf_get_lookup [OF q])
  show "lf_is_valid_id k s i \<longleftrightarrow> lf_lookup k s i \<noteq> None" by (rule lf_valid_lookup [OF q])
  show "lf_erase k t s i = Inr s" if "lf_lookup k s i = None" "has_slot k i"
    using that by (simp add: lf_erase_ok [OF q] has_slot_def)
  show "\<exists>e. lf_erase k t s i = Inl e" if "\<not> has_slot k i" using that by (simp add: lf_erase_ok [OF q] has_slot_def)
qed

subsection \<open>Threads and whole calls\<close>

lemma lf_exec_run: "lf_run k tags s \<Longrightarrow> lf_run k tags (lf_exec k ts s)"
  by (induction ts arbitrary: s) (auto intro: lf_next_run)

text \<open>A whole call is a run of the vector's threads, and a run in which no call is left is at rest.\<close>

lemma lf_emplace_run:
  assumes "lf_run k tags s" "pcs s t = L_idle" "lf_emplace k t s x = Inr (i, s')"
  shows "lf_run k tags s'"
proof -
  have "lf_run k tags (goto t (L_load x) s)"
    by (rule lf_run.step [OF assms(1) lf_stepI(1) [OF emplace_step.emplace [OF assms(2)]]])
  from lf_exec_run [OF this] show ?thesis using assms(3) by (simp add: lf_emplace_def Let_def) blast
qed

lemma lf_erase_run:
  assumes "lf_run k tags s" "pcs s t = L_idle" "(i, x) \<in> set (issued s)" "lf_erase k t s i = Inr s'"
  shows "lf_run k tags s'"
proof (cases "sid (slots s ! slot_of k i) = i")
  case True
  have "lf_run k tags (goto t (L_destroy (slot_of k i)) (set_sid (slot_of k i) (increment_tag k i) s)\<lparr>erased := erased s @ [i]\<rparr>)"
    by (rule lf_run.step [OF assms(1) lf_stepI(3) [OF lock_step.lock [OF assms(2,3) True]]])
  from lf_exec_run [OF this] show ?thesis
    using assms(4) True by (auto simp: lf_erase_def lock_slot_def Let_def res_Inr_iff)
next
  case False
  then show ?thesis using assms(1,4) by (auto simp: lf_erase_def lock_slot_def res_Inr_iff)
qed

lemma lf_inv_quiet:
  fixes s :: "('a, 'w::len word) lockfree"
  assumes inv: "lf_inv k base s fs" and rest: "\<forall>t. pcs s t = L_idle"
  shows "quiet_repr k s fs"
proof -
  note I = lf_invD [OF inv] and F = free_okD [OF lf_invD(5) [OF inv]]
  have "live k s fs i" if "i < 2 ^ k - 1" "i \<notin> set fs" for i
    using that rest by (simp add: live_def slot_holder_def)
  moreover have "next_slot k s i = i \<and> payload (slots s ! i) \<noteq> None" if "live k s fs i" for i
    using that I(8) unfolding objects_ok_def by blast
  ultimately have "next_slot k s i = i \<and> payload (slots s ! i) \<noteq> None" if "i < 2 ^ k - 1" "i \<notin> set fs" for i
    using that by blast
  then show ?thesis using I(1,2) F rest by (auto simp: quiet_repr_def)
qed

lemma lf_new_quiet:
  assumes "k < LENGTH('w)"
  shows "quiet k (lf_new k this :: ('a, 'w::len word) lockfree)"
    "lf_lookup k (lf_new k this :: ('a, 'w word) lockfree) = Map.empty"
proof -
  let ?s = "lf_new k this :: ('a, 'w word) lockfree"
  have idle: "\<forall>t. pcs ?s t = L_idle" by (simp add: lf_new_start lf_start_def)
  have inv: "lf_inv k (\<lambda>i. tag_of k ((initial_tags k this :: 'w word list) ! i)) ?s [0..<2 ^ k - 1]"
    unfolding lf_new_start by (rule lf_start_inv [OF assms length_initial_tags])
  note q = lf_inv_quiet [OF inv idle]
  then show "quiet k ?s" by (auto simp: quiet_def)
  have "card (dom (lf_lookup k ?s)) = 0" using lf_lookup_card(1) [OF q] by simp
  then show "lf_lookup k ?s = Map.empty" by simp
qed

lemma lf_lookup_issued:
  fixes s :: "('a, 'w::len word) lockfree"
  assumes inv: "lf_inv k base s fs" and few: "length (erased s) < 2 ^ (LENGTH('w) - k)" and rest: "\<forall>t. pcs s t = L_idle"
  shows "lf_lookup k s i = Some x \<longleftrightarrow> (i, x) \<in> set (issued s) \<and> i \<notin> set (erased s)"
proof
  assume "lf_lookup k s i = Some x"
  then have "slot_of k i < 2 ^ k - 1" "slots s ! slot_of k i = \<lparr>payload = Some x, sid = i\<rparr>"
    using lf_lookup_Some [OF lf_inv_quiet [OF inv rest]] by auto
  then show "(i, x) \<in> set (issued s) \<and> i \<notin> set (erased s)"
    using quiet_slot(2) [OF inv few rest, of "slot_of k i" x] by simp
next
  assume "(i, x) \<in> set (issued s) \<and> i \<notin> set (erased s)"
  then show "lf_lookup k s i = Some x"
    using unerased_slot [OF inv, of i x] lf_lookup_Some [OF lf_inv_quiet [OF inv rest]] by simp
qed

subsection \<open>Counting calls\<close>

text \<open>Every call that takes effect updates \<open>free_head_\<close> once: an \<open>emplace\<close> before it returns its id, an
  \<open>erase\<close> or \<open>move_from\<close> after it has locked its slot. So the updates can be counted in calls.\<close>

fun acquiring :: "('a, 'i) lf_pc \<Rightarrow> bool" where
  "acquiring (L_mark x i) \<longleftrightarrow> True"
| "acquiring (L_store x i v) \<longleftrightarrow> True"
| "acquiring (L_construct x i) \<longleftrightarrow> True"
| "acquiring (L_return x i) \<longleftrightarrow> True"
| "acquiring _ \<longleftrightarrow> False"

fun releasing :: "('a, 'i) lf_pc \<Rightarrow> bool" where
  "releasing (L_destroy i) \<longleftrightarrow> True"
| "releasing (L_reload i) \<longleftrightarrow> True"
| "releasing (L_head i rid) \<longleftrightarrow> True"
| "releasing (L_link i rid hm) \<longleftrightarrow> True"
| "releasing (L_push i rid hm) \<longleftrightarrow> True"
| "releasing _ \<longleftrightarrow> False"

definition threads_at :: "(('a, 'w::len word) lf_pc \<Rightarrow> bool) \<Rightarrow> ('a, 'w word) lockfree \<Rightarrow> nat set" where
  "threads_at P s = {t. P (pcs s t)}"

definition calls_counted :: "('a, 'w::len word) lockfree \<Rightarrow> bool" where
  "calls_counted s \<longleftrightarrow> finite (threads_at acquiring s) \<and> finite (threads_at releasing s) \<and>
     changes s + card (threads_at releasing s) = length (issued s) + length (erased s) + card (threads_at acquiring s)"

lemma threads_at_goto:
  assumes "pcs s' = (pcs s)(t := pc)" "finite (threads_at P s)"
  shows "finite (threads_at P s')"
    "card (threads_at P s') + of_bool (P (pcs s t)) = card (threads_at P s) + of_bool (P pc)"
proof -
  have *: "threads_at P s' = (if P pc then insert t (threads_at P s) else threads_at P s - {t})"
    using assms(1) by (auto simp: threads_at_def)
  then show "finite (threads_at P s')" using assms(2) by simp
  have "t \<in> threads_at P s \<longleftrightarrow> P (pcs s t)" by (simp add: threads_at_def)
  then show "card (threads_at P s') + of_bool (P (pcs s t)) = card (threads_at P s) + of_bool (P pc)"
    using assms(2) card_Suc_Diff1 [of "threads_at P s" t] unfolding * by (auto simp: insert_absorb)
qed

lemma calls_counted_move:
  assumes "calls_counted s" "pcs s' = (pcs s)(t := pc)"
    and "changes s' + of_bool (releasing pc) + of_bool (acquiring (pcs s t)) + length (issued s) + length (erased s) =
      changes s + of_bool (releasing (pcs s t)) + of_bool (acquiring pc) + length (issued s') + length (erased s')"
  shows "calls_counted s'"
  using assms(1,3) threads_at_goto [OF assms(2), of acquiring] threads_at_goto [OF assms(2), of releasing]
  unfolding calls_counted_def by linarith

lemma calls_counted_step:
  assumes ok: "calls_counted s" and step: "lf_step k t s s'"
  shows "calls_counted s'"
proof -
  have "s' = s \<or> pcs s' = (pcs s)(t := pcs s' t) \<and>
    changes s' + of_bool (releasing (pcs s' t)) + of_bool (acquiring (pcs s t)) + length (issued s) + length (erased s) =
      changes s + of_bool (releasing (pcs s t)) + of_bool (acquiring (pcs s' t)) + length (issued s') + length (erased s')"
    using step unfolding lf_step_def
    by (elim disjE emplace_step.cases acquire_step.cases lock_step.cases erase_step.cases release_step.cases)
      (simp_all add: goto_def set_sid_def set_payload_def)
  then show ?thesis using calls_counted_move [OF ok, of s' t "pcs s' t"] ok by blast
qed

lemma lf_calls: "lf_run k tags s \<Longrightarrow> calls_counted s"
proof (induction rule: lf_run.induct)
  case init
  then show ?case by (simp add: calls_counted_def threads_at_def lf_start_def)
next
  case (step s t s')
  then show ?case by (blast intro: calls_counted_step)
qed

text \<open>At rest \<open>free_head_\<close> has changed once for every id returned and every id erased.\<close>

lemma lf_changes_at_rest:
  assumes "lf_run k tags s" "\<forall>t. pcs s t = L_idle"
  shows "changes s = length (issued s) + length (erased s)"
  using lf_calls [OF assms(1)] assms(2) by (simp add: calls_counted_def threads_at_def)

text \<open>So the bounds on the tags are bounds on the number of calls.\<close>

lemma lf_rest_inv:
  fixes s :: "('a, 'w::len word) lockfree"
  assumes run: "lf_run k tags s" and k: "k < LENGTH('w)" "length tags = 2 ^ k - 1"
    and rest: "\<forall>t. pcs s t = L_idle" and calls: "length (issued s) + length (erased s) < 2 ^ (LENGTH('w) - k)"
  obtains fs where "lf_inv k (\<lambda>i. tag_of k (tags ! i)) s fs" "quiet_repr k s fs"
    "\<And>i x. lf_lookup k s i = Some x \<longleftrightarrow> (i, x) \<in> set (issued s) \<and> i \<notin> set (erased s)"
proof -
  have few: "changes s < 2 ^ (LENGTH('w) - k)" "length (erased s) < 2 ^ (LENGTH('w) - k)"
    using lf_changes_at_rest [OF run rest] calls by simp_all
  from lf_run_inv [OF run k few] obtain fs where inv: "lf_inv k (\<lambda>i. tag_of k (tags ! i)) s fs" by blast
  show ?thesis by (rule that [OF inv lf_inv_quiet [OF inv rest] lf_lookup_issued [OF inv few(2) rest]])
qed

subsection \<open>Properties\<close>

text \<open>C26. Whenever no call is in progress, after any interleaving of fewer calls than there are tags, the lock-free
  vector is the finite map of the ids returned and not erased, and calls that do not overlap, by
  whatever thread, are those of a finite map: \<open>emplace\<close> returns a new id for its object, or \<open>INVALID_ID\<close>
  and no object exactly when \<open>CAPACITY\<close> objects are stored; \<open>move_from\<close> hands over the object of the id
  and \<open>erase\<close> removes it, each once: a second \<open>erase\<close> of the id changes nothing.\<close>

theorem lf_finite_map:
  fixes s :: "('a, 'w::len word) lockfree"
  assumes run: "lf_run k tags s" and k: "k < LENGTH('w)" "length tags = 2 ^ k - 1"
    and rest: "\<forall>t. pcs s t = L_idle" and calls: "length (issued s) + length (erased s) < 2 ^ (LENGTH('w) - k)"
  shows "quiet k s \<and> (\<forall>i y. lf_lookup k s i = Some y \<longleftrightarrow> (i, y) \<in> set (issued s) \<and> i \<notin> set (erased s)) \<and>
    (\<forall>i y. lf_get k s i = Inr y \<longleftrightarrow> lf_lookup k s i = Some y) \<and> (\<forall>i. lf_is_valid_id k s i \<longleftrightarrow> lf_lookup k s i \<noteq> None) \<and>
    (if card (dom (lf_lookup k s)) < 2 ^ k - 1
     then \<exists>i s'. lf_emplace k t s x = Inr (i, s') \<and> quiet k s' \<and> lf_lookup k s i = None \<and>
       lf_lookup k s' = (lf_lookup k s)(i \<mapsto> x)
     else lf_emplace k t s x = Inr (invalid_index k, s)) \<and>
    (\<forall>i. if has_slot k i
      then \<exists>s'. lf_erase k t s i = Inr s' \<and> quiet k s' \<and> lf_lookup k s' = (lf_lookup k s)(i := None) \<and>
        lf_move_from k t s i = Inr (lf_lookup k s i, s') \<and> lf_erase k u s' i = Inr s'
      else lf_erase k t s i = Inl Dcheck_failed)"
proof -
  obtain fs where "lf_inv k (\<lambda>i. tag_of k (tags ! i)) s fs" and q: "quiet_repr k s fs"
    and look: "\<And>i x. lf_lookup k s i = Some x \<longleftrightarrow> (i, x) \<in> set (issued s) \<and> i \<notin> set (erased s)"
    by (rule lf_rest_inv [OF run k rest calls]) (rule that)
  then have Q: "quiet k s" by (auto simp: quiet_def)
  have full: "lf_emplace k t s x = Inr (invalid_index k, s)" if "\<not> card (dom (lf_lookup k s)) < 2 ^ k - 1"
  proof -
    have "fs = []" using that lf_lookup_card [OF q] by (cases fs) auto
    then show ?thesis using lf_emplace_full [of k s t x] q by simp
  qed
  have out: "\<exists>s'. lf_erase k t s i = Inr s' \<and> quiet k s' \<and> lf_lookup k s' = (lf_lookup k s)(i := None) \<and>
      lf_move_from k t s i = Inr (lf_lookup k s i, s') \<and> lf_erase k u s' i = Inr s'" if i: "has_slot k i" for i
  proof -
    obtain s' where s': "lf_erase k t s i = Inr s'" "quiet k s'" "lf_lookup k s' = (lf_lookup k s)(i := None)"
      using lf.erase_ok [OF Q, of i] lf.erase_ignored [OF Q _ i] Q by (cases "lf_lookup k s i") (auto simp: fun_upd_idem)
    then show ?thesis using lf.erase_ignored [OF s'(2) _ i] lf_move_from_ok [OF q, of t i] by simp
  qed
  have bad: "lf_erase k t s i = Inl Dcheck_failed" if "\<not> has_slot k i" for i
    using that by (simp add: lf_erase_ok [OF q] has_slot_def)
  show ?thesis
    using Q look lf.get_iff [OF Q] lf.valid_iff [OF Q] lf.emplace_ok [OF Q, where t = t and x = x] full out bad
    by (intro conjI allI) (simp_all split: if_split)
qed

theorem lf_finite_map_witness:
  "lf_emplace 1 3 one_stored 6 = Inr (invalid_index 1, one_stored) \<and>
   (\<exists>s'. lf_move_from 1 3 one_stored 44 = Inr (Some 5, s') \<and> quiet 1 s' \<and> lf_erase 1 4 s' 44 = Inr s')"
proof -
  have ok: "1 < LENGTH(8)" "length [45 :: 8 word] = 2 ^ 1 - 1" "\<forall>t. pcs one_stored t = L_idle"
    "length (issued one_stored) + length (erased one_stored) < 2 ^ (LENGTH(8) - 1)" by (simp_all add: one_stored_def)
  note claim = lf_finite_map [OF one_stored_run ok, where t = 3 and u = 4 and x = 6]
  have "lf_lookup 1 one_stored i = Some y \<longleftrightarrow> i = 44 \<and> y = 5" for i y
    using claim by (simp add: one_stored_def)
  then have "lf_lookup 1 one_stored = [44 \<mapsto> 5]" by (intro ext option_ext) auto
  moreover have "has_slot 1 (44 :: 8 word)" by (simp add: has_slot_def slot_of_mod)
  moreover from claim have "if has_slot 1 (44 :: 8 word) then \<exists>s'. lf_erase 1 3 one_stored 44 = Inr s' \<and> quiet 1 s' \<and>
      lf_lookup 1 s' = (lf_lookup 1 one_stored)(44 := None) \<and>
      lf_move_from 1 3 one_stored 44 = Inr (lf_lookup 1 one_stored 44, s') \<and> lf_erase 1 4 s' 44 = Inr s'
    else lf_erase 1 3 one_stored 44 = Inl Dcheck_failed" by (elim conjE) (erule spec)
  moreover from claim have "if card (dom (lf_lookup 1 one_stored)) < 2 ^ 1 - 1
    then \<exists>i s'. lf_emplace 1 3 one_stored 6 = Inr (i, s') \<and> quiet 1 s' \<and> lf_lookup 1 one_stored i = None \<and>
      lf_lookup 1 s' = (lf_lookup 1 one_stored)(i \<mapsto> 6)
    else lf_emplace 1 3 one_stored 6 = Inr (invalid_index 1, one_stored)" by (elim conjE)
  ultimately show ?thesis by auto
qed

end
