(* ===== verification/Unit_Tests.thy ===== *)
theory Unit_Tests
  imports Lockfree_Quiet Work_Stealing_Queue
begin

text \<open>
  The single-threaded unit tests of \<open>proto/\<close> (\<open>proto/id_vector_test.cpp\<close>,
  \<open>proto/work_stealing_queue_test.cpp\<close>), run on the models of the two containers. A failing
  \<open>EXPECT\<close> or \<open>ASSERT\<close> is the error \<open>Check_failed\<close>; a test that passes returns \<open>Inr\<close>. The tests of the
  id vector pass wherever the vector lies in memory, so whatever its initial tags are, because
  they hold of every finite map with room for seven objects. Of the id vector's test with many
  threads the counts expected once its threads have been joined are proved.
\<close>

subsection \<open>The id vector\<close>

text \<open>\<open>Element\<close>: its value and the thread that created it. \<open>global_count\<close> is \<open>Element::global_count\<close>;
  the fixture's big vector stays empty in these tests.\<close>

record element =
  val :: int
  creator :: nat

record fixture =
  small :: "(element, 8 word) lockfree"
  global_count :: int

definition new_fixture :: "nat \<Rightarrow> fixture" where
  "new_fixture this = \<lparr>small = lf_new 3 this, global_count = 0\<rparr>"

text \<open>\<open>small.emplace(args)\<close> on thread \<open>t\<close>: the element is only constructed if there is a slot.\<close>

definition emplace_element :: "nat \<Rightarrow> int \<Rightarrow> fixture \<Rightarrow> (8 word \<times> fixture) res" where
  "emplace_element t x f =
     bind_res (lf_emplace 3 t (small f) \<lparr>val = x, creator = t\<rparr>) (\<lambda>(i, v).
     Inr (i, f\<lparr>small := v, global_count := global_count f + (if i = invalid_index 3 then 0 else 1)\<rparr>))"

text \<open>\<open>~Element\<close>, for each object destroyed.\<close>

fun destroyed :: "nat \<Rightarrow> element list \<Rightarrow> fixture \<Rightarrow> fixture res" where
  "destroyed t [] f = Inr f"
| "destroyed t (y # ys) f =
     require (creator y = t) Check_failed (destroyed t ys (f\<lparr>global_count := global_count f - 1\<rparr>))"

definition erase_element :: "nat \<Rightarrow> 8 word \<Rightarrow> fixture \<Rightarrow> fixture res" where
  "erase_element t i f =
     bind_res (lf_move_from 3 t (small f) i) (\<lambda>(y, _).
     bind_res (lf_erase 3 t (small f) i) (\<lambda>v.
     destroyed t (case y of None \<Rightarrow> [] | Some y \<Rightarrow> [y]) (f\<lparr>small := v\<rparr>)))"

definition tear_down :: "nat \<Rightarrow> fixture \<Rightarrow> unit res" where
  "tear_down t f =
     bind_res (destroy_from 3 0 (slots (small f))) (\<lambda>(ys, _).
     bind_res (destroyed t ys f) (\<lambda>f. require (global_count f = 0) Check_failed (Inr ())))"

text \<open>\<open>SingleThreadedAutoDestruction\<close>\<close>

fun emplace_times :: "nat \<Rightarrow> nat \<Rightarrow> fixture \<Rightarrow> fixture res" where
  "emplace_times t 0 f = Inr f"
| "emplace_times t (Suc n) f =
     bind_res (emplace_element t (global_count f) f) (\<lambda>(i, f).
     require (i \<noteq> invalid_index 3) Check_failed (emplace_times t n f))"

definition auto_destruction :: "nat \<Rightarrow> nat \<Rightarrow> unit res" where
  "auto_destruction t this = bind_res (emplace_times t 5 (new_fixture this)) (tear_down t)"

text \<open>\<open>SingleThreadedAddAndRemove\<close>: \<open>fill\<close> is its first loop, \<open>check_ids\<close> the inner and \<open>sweep\<close> the
  outer of the two at the end.\<close>

fun fill :: "nat \<Rightarrow> int \<Rightarrow> nat \<Rightarrow> fixture \<Rightarrow> (8 word list \<times> fixture) res" where
  "fill t i 0 f = Inr ([], f)"
| "fill t i (Suc n) f =
     bind_res (emplace_element t (global_count f) f) (\<lambda>(j, f).
     require (j \<noteq> invalid_index 3 \<and> lf_is_valid_id 3 (small f) j) Check_failed (
     bind_res (lf_get 3 (small f) j) (\<lambda>y.
     require (val y = i) Check_failed (
     bind_res (fill t (i + 1) n f) (\<lambda>(js, f). Inr (j # js, f))))))"

fun check_ids :: "nat \<Rightarrow> nat \<Rightarrow> 8 word list \<Rightarrow> fixture \<Rightarrow> unit res" where
  "check_ids j i [] f = Inr ()"
| "check_ids j i (d # ds) f =
     (if i < j then require (\<not> lf_is_valid_id 3 (small f) d) Check_failed (check_ids j (Suc i) ds f)
      else require (lf_is_valid_id 3 (small f) d) Check_failed (
        bind_res (lf_get 3 (small f) d) (\<lambda>y.
        require (val y = int i) Check_failed (check_ids j (Suc i) ds f))))"

fun sweep :: "nat \<Rightarrow> nat list \<Rightarrow> 8 word list \<Rightarrow> fixture \<Rightarrow> fixture res" where
  "sweep t [] ids f = Inr f"
| "sweep t (j # js) ids f =
     bind_res (check_ids j 0 ids f) (\<lambda>_.
     if j < 7 then fetch ids j (\<lambda>d. bind_res (erase_element t d f) (sweep t js ids)) else sweep t js ids f)"

definition add_and_remove :: "nat \<Rightarrow> nat \<Rightarrow> unit res" where
  "add_and_remove t this =
     bind_res (fill t 0 7 (new_fixture this)) (\<lambda>(ids, f).
     bind_res (emplace_element t (global_count f) f) (\<lambda>(i, f).
     require (i = invalid_index 3) Check_failed (
     fetch ids 3 (\<lambda>d.
     bind_res (erase_element t d f) (\<lambda>f.
     require (\<not> lf_is_valid_id 3 (small f) d) Check_failed (
     bind_res (emplace_element t (1 + 2) f) (\<lambda>(i, f).
     require (global_count f = 7) Check_failed (
     bind_res (sweep t [0..<8] (ids[3 := i]) f) (tear_down t)))))))))"

subsection \<open>Why they pass\<close>

text \<open>The fixture holds exactly the elements \<open>m\<close>, all made by thread \<open>t\<close>.\<close>

definition holds_all :: "nat \<Rightarrow> fixture \<Rightarrow> (8 word \<Rightarrow> element option) \<Rightarrow> bool" where
  "holds_all t f m \<longleftrightarrow> quiet 3 (small f) \<and> lf_lookup 3 (small f) = m \<and> global_count f = int (card (dom m)) \<and>
     (\<forall>y \<in> ran m. creator y = t)"

lemma holds_allD:
  assumes "holds_all t f m"
  shows "quiet 3 (small f)" "lf_lookup 3 (small f) = m" "global_count f = int (card (dom m))"
    "m i = Some y \<Longrightarrow> creator y = t" "lf_is_valid_id 3 (small f) i \<longleftrightarrow> m i \<noteq> None"
    "m i = Some y \<Longrightarrow> lf_get 3 (small f) i = Inr y" "m (invalid_index 3) = None"
  using assms lf.valid_iff [of 3 "small f"] lf.get_ok [of 3 "small f"] lf.lookup_null [of 3 "small f"]
  by (auto simp: holds_all_def ran_def)

lemma card_dom_new: "m i = None \<Longrightarrow> finite (dom m) \<Longrightarrow> card (dom (m(i \<mapsto> y))) = Suc (card (dom m))"
  by (simp add: domIff)

lemma emplace_element_ok:
  assumes f: "holds_all t f m" and room: "card (dom m) < 7"
  obtains i f' where "emplace_element t x f = Inr (i, f')" "m i = None" "i \<noteq> invalid_index 3"
    "holds_all t f' (m(i \<mapsto> \<lparr>val = x, creator = t\<rparr>))" "global_count f' = global_count f + 1"
proof -
  note F = holds_allD [OF f]
  let ?y = "\<lparr>val = x, creator = t\<rparr>"
  obtain i v where v: "lf_emplace 3 t (small f) ?y = Inr (i, v)" "quiet 3 v" "lf_lookup 3 (small f) i = None"
    "lf_lookup 3 v = (lf_lookup 3 (small f))(i \<mapsto> ?y)" "i \<noteq> invalid_index 3"
    by (rule lf.emplaceE [OF F(1), of t ?y]) (use room F(2) in auto)
  let ?f = "f\<lparr>small := v, global_count := global_count f + 1\<rparr>"
  have "card (dom (m(i \<mapsto> ?y))) = Suc (card (dom m))" using v(3) F(2) by (intro card_dom_new) simp_all
  then have "holds_all t ?f (m(i \<mapsto> ?y))"
    using v f by (auto simp: holds_all_def ran_def split: if_splits)
  then show ?thesis using that [of i ?f] v F(2) by (simp add: emplace_element_def)
qed

lemma emplace_element_full:
  assumes f: "holds_all t f m" and full: "card (dom m) = 7"
  shows "emplace_element t x f = Inr (invalid_index 3, f)"
proof -
  obtain fs where fs: "quiet_repr 3 (small f) fs" using holds_allD(1) [OF f] by (auto simp: quiet_def)
  have "fs = []" using lf_lookup_card [OF fs] holds_allD(2) [OF f] full by (cases fs) auto
  then show ?thesis using fs by (simp add: emplace_element_def lf_emplace_full)
qed

lemma erase_element_ok:
  assumes f: "holds_all t f m" and y: "m i = Some y"
  obtains f' where "erase_element t i f = Inr f'" "holds_all t f' (m(i := None))"
proof -
  note F = holds_allD [OF f]
  obtain fs where fs: "quiet_repr 3 (small f) fs" using F(1) by (auto simp: quiet_def)
  obtain v where v: "lf_erase 3 t (small f) i = Inr v" "quiet 3 v" "lf_lookup 3 v = (lf_lookup 3 (small f))(i := None)"
    using lf.eraseE [OF F(1), of i y t] F(2) y by auto
  have "card (dom (m(i := None))) = card (dom m) - 1" "0 < card (dom m)"
    using y by (auto simp: card_gt_0_iff domIff)
  then have "holds_all t (f\<lparr>small := v, global_count := global_count f - 1\<rparr>) (m(i := None))"
    using v f by (auto simp: holds_all_def ran_def split: if_splits)
  then show ?thesis
    using that v y F(2) F(4) [OF y] lf_move_from_ok [OF fs, of t i] by (simp add: erase_element_def)
qed

lemma destroyed_ok: "\<forall>y \<in> set ys. creator y = t \<Longrightarrow>
    destroyed t ys f = Inr (f\<lparr>global_count := global_count f - int (length ys)\<rparr>)"
  by (induction ys arbitrary: f) (auto simp: algebra_simps)

lemma tear_down_ok:
  assumes f: "holds_all t f m"
  shows "tear_down t f = Inr ()"
proof -
  note F = holds_allD [OF f]
  let ?ss = "slots (small f)"
  obtain fs where fs: "quiet_repr 3 (small f) fs" using F(1) by (auto simp: quiet_def)
  note Q = quiet_reprD [OF fs]
  have "next_slot 3 (small f) i \<noteq> i" if "i \<in> set fs" for i
    using linked_no_loop [OF Q(5,4) _ that] Q(6) [of "2 ^ 3 - 1"] by blast
  then have own: "slot_of 3 (sid (?ss ! i)) = i \<longleftrightarrow> payload (?ss ! i) \<noteq> None" if "i < 7" for i
    using Q(7,8,9) [of i] that by (cases "i \<in> set fs") (auto simp: next_slot_def)
  have d: "destroy_from 3 0 ?ss = Inr (List.map_filter payload ?ss, map (\<lambda>slot. slot\<lparr>payload := None\<rparr>) ?ss)"
    by (rule destroy_from_ok) (use own Q(2) in simp)
  have live: "m (sid (?ss ! i)) = Some y" if "i < 7" "payload (?ss ! i) = Some y" for i y
    using own [OF that(1)] that lf_lookup_Some [OF fs, of "sid (?ss ! i)" y] F(2) by (cases "?ss ! i") auto
  then have "\<forall>y \<in> set (List.map_filter payload ?ss). creator y = t"
    using F(4) Q(2) by (fastforce simp: List.map_filter_def in_set_conv_nth)
  moreover have "length (List.map_filter payload ?ss) = card (dom m)"
  proof -
    have "{i. i < length ?ss \<and> payload (?ss ! i) \<noteq> None} = {..<7} - set fs" using Q(2,6,7,9) by auto
    moreover have "card ({..<7} - set fs) = 7 - length fs"
      using Q(6) distinct_card [OF Q(4)] by (subst card_Diff_subset) auto
    moreover have "card (dom m) = 7 - length fs" using lf_lookup_card(1) [OF fs] F(2) by simp
    ultimately show ?thesis by (simp add: List.map_filter_def length_filter_conv_card comp_def)
  qed
  ultimately show ?thesis using d F(3) by (simp add: tear_down_def destroyed_ok)
qed

lemma new_fixture_ok: "holds_all t (new_fixture this) Map.empty"
  using lf_new_quiet [of 3, where 'w = 8 and 'a = element] by (simp add: holds_all_def new_fixture_def)

lemma emplace_times_ok:
  "holds_all t f m \<Longrightarrow> card (dom m) + n \<le> 7 \<Longrightarrow> \<exists>f' m'. emplace_times t n f = Inr f' \<and> holds_all t f' m'"
proof (induction n arbitrary: f m)
  case 0
  then show ?case by auto
next
  case (Suc n)
  obtain i f' where e: "emplace_element t (global_count f) f = Inr (i, f')" "m i = None" "i \<noteq> invalid_index 3"
    "holds_all t f' (m(i \<mapsto> \<lparr>val = global_count f, creator = t\<rparr>))"
    by (rule emplace_element_ok [OF Suc.prems(1), of "global_count f"]) (use Suc.prems(2) in auto)
  have c: "card (dom (m(i \<mapsto> \<lparr>val = global_count f, creator = t\<rparr>))) = Suc (card (dom m))"
    using e(2) by (intro card_dom_new) simp_all
  have "\<exists>f'' m'. emplace_times t n f' = Inr f'' \<and> holds_all t f'' m'"
    by (rule Suc.IH [OF e(4)]) (simp only: c, use Suc.prems(2) in simp)
  then show ?case using e(1,3) by simp
qed

text \<open>What \<open>fill\<close> returns: ids for elements with the values counted from \<open>i\<close>.\<close>

lemma fill_ok:
  "holds_all t f m \<Longrightarrow> global_count f = i \<Longrightarrow> card (dom m) + n \<le> 7 \<Longrightarrow>
    \<exists>js f' m'. fill t i n f = Inr (js, f') \<and> holds_all t f' m' \<and> length js = n \<and> distinct js \<and>
      card (dom m') = card (dom m) + n \<and> set js \<inter> dom m = {} \<and> (\<forall>d. d \<notin> set js \<longrightarrow> m' d = m d) \<and>
      (\<forall>l < n. m' (js ! l) = Some \<lparr>val = i + int l, creator = t\<rparr>)"
proof (induction n arbitrary: f m i)
  case 0
  then show ?case by auto
next
  case (Suc n)
  let ?y = "\<lparr>val = i, creator = t\<rparr>"
  obtain j f1 where e: "emplace_element t i f = Inr (j, f1)" "m j = None" "j \<noteq> invalid_index 3"
    "holds_all t f1 (m(j \<mapsto> ?y))" "global_count f1 = i + 1"
    by (rule emplace_element_ok [OF Suc.prems(1), of i]) (use Suc.prems(2,3) in auto)
  have c: "card (dom (m(j \<mapsto> ?y))) = Suc (card (dom m))" using e(2) by (intro card_dom_new) simp_all
  obtain js f' m' where r: "fill t (i + 1) n f1 = Inr (js, f')" "holds_all t f' m'" "length js = n" "distinct js"
    "card (dom m') = card (dom (m(j \<mapsto> ?y))) + n" "set js \<inter> dom (m(j \<mapsto> ?y)) = {}" "\<forall>d. d \<notin> set js \<longrightarrow> m' d = (m(j \<mapsto> ?y)) d"
    "\<forall>l < n. m' (js ! l) = Some \<lparr>val = i + 1 + int l, creator = t\<rparr>"
    using Suc.IH [OF e(4,5)] Suc.prems(3) c by (metis add_Suc_shift)
  have "j \<notin> set js" using r(6) by auto
  then have "m' ((j # js) ! l) = Some \<lparr>val = i + int l, creator = t\<rparr>" if "l < Suc n" for l
    using that r(7,8) by (cases l) (auto simp: algebra_simps)
  moreover have "fill t i (Suc n) f = Inr (j # js, f')"
    using Suc.prems(2) e(1,3) r(1) holds_allD(5,6) [OF e(4)] by simp
  ultimately show ?case
    using r(2-7) c e(2) \<open>j \<notin> set js\<close> by (intro exI [of _ "j # js"] exI [of _ f'] exI [of _ m']) auto
qed

text \<open>The ids from position \<open>j\<close> on are in use, with their positions as values.\<close>

definition left_from :: "nat \<Rightarrow> nat \<Rightarrow> nat \<Rightarrow> 8 word list \<Rightarrow> (8 word \<Rightarrow> element option) \<Rightarrow> bool" where
  "left_from t j i ds m \<longleftrightarrow>
     (\<forall>l < length ds. m (ds ! l) = (if i + l < j then None else Some \<lparr>val = int (i + l), creator = t\<rparr>))"

lemma check_ids_ok: "holds_all t f m \<Longrightarrow> left_from t j i ds m \<Longrightarrow> check_ids j i ds f = Inr ()"
proof (induction ds arbitrary: i)
  case Nil
  then show ?case by simp
next
  case (Cons d ds)
  have "left_from t j (Suc i) ds m" using Cons.prems(2) unfolding left_from_def by fastforce
  note IH = Cons.IH [OF Cons.prems(1) this]
  have "m d = (if i < j then None else Some \<lparr>val = int i, creator = t\<rparr>)"
    using Cons.prems(2) unfolding left_from_def by fastforce
  then show ?case using IH holds_allD(5,6) [OF Cons.prems(1)] by simp
qed

lemma sweep_ok:
  "holds_all t f m \<Longrightarrow> left_from t j 0 ids m \<Longrightarrow> length ids = 7 \<Longrightarrow> distinct ids \<Longrightarrow> j \<le> 8 \<Longrightarrow>
    \<exists>f' m'. sweep t [j..<8] ids f = Inr f' \<and> holds_all t f' m'"
proof (induction "8 - j" arbitrary: j f m)
  case 0
  then show ?case by auto
next
  case (Suc n)
  then have js: "[j..<8] = j # [Suc j..<8]" by (simp add: upt_conv_Cons)
  note c = check_ids_ok [OF Suc.prems(1,2)]
  show ?case
  proof (cases "j < 7")
    case True
    then have "m (ids ! j) = Some \<lparr>val = int j, creator = t\<rparr>" using Suc.prems(2,3) by (simp add: left_from_def)
    then obtain f' where e: "erase_element t (ids ! j) f = Inr f'" "holds_all t f' (m(ids ! j := None))"
      by (rule erase_element_ok [OF Suc.prems(1)])
    have "left_from t (Suc j) 0 ids (m(ids ! j := None))"
      using Suc.prems(2,3,4) True by (auto simp: left_from_def nth_eq_iff_index_eq)
    then have "\<exists>f'' m'. sweep t [Suc j..<8] ids f' = Inr f'' \<and> holds_all t f'' m'"
      using Suc.hyps(1) [OF _ e(2)] Suc.hyps(2) Suc.prems(3,4) True by simp
    then show ?thesis using True c e(1) Suc.prems(3) by (simp add: js)
  next
    case False
    then have "[Suc j..<8] = []" by simp
    then show ?thesis using False c Suc.prems(1) by (simp only: js sweep.simps) auto
  qed
qed

text \<open>The test with many threads makes at most \<open>8192\<close> calls on each of at most \<open>32\<close> threads and then
  erases what is left, at most \<open>CAPACITY\<close> elements, before \<open>unsafe_clear\<close> starts again. That is less
  than there are tags, so when its threads have been joined \<open>expected_size\<close> and \<open>Element::count\<close>, the
  numbers of ids and of elements, agree, and at the end nothing is left.\<close>

definition max_calls :: nat where
  "max_calls = 32 * 8192 + 4095"

lemma many_threads_counts:
  fixes s :: "('a, 32 word) lockfree"
  assumes run: "lf_run 12 tags s" "length tags = 2 ^ 12 - 1" and rest: "\<forall>t. pcs s t = L_idle"
    and calls: "length (issued s) + length (erased s) \<le> max_calls"
  shows "lf_lookup 12 s i = Some y \<longleftrightarrow> (i, y) \<in> set (issued s) \<and> i \<notin> set (erased s)"
    "length (List.map_filter payload (slots s)) + length (erased s) = length (issued s)"
proof -
  have few: "length (issued s) + length (erased s) < 2 ^ (LENGTH(32) - 12)" using calls by (simp add: max_calls_def)
  then have e: "length (erased s) < 2 ^ (LENGTH(32) - 12)" by simp
  obtain fs where inv: "lf_inv 12 (\<lambda>i. tag_of 12 (tags ! i)) s fs" and "quiet_repr 12 s fs"
    and look: "\<And>i x. lf_lookup 12 s i = Some x \<longleftrightarrow> (i, x) \<in> set (issued s) \<and> i \<notin> set (erased s)"
    by (rule lf_rest_inv [OF run(1) _ run(2) rest few]) (simp, rule that)
  show "lf_lookup 12 s i = Some y \<longleftrightarrow> (i, y) \<in> set (issued s) \<and> i \<notin> set (erased s)" by (rule look)
  show "length (List.map_filter payload (slots s)) + length (erased s) = length (issued s)"
    using quiet_count [OF inv e rest] by simp
qed

subsection \<open>The work-stealing queue\<close>

text \<open>One line of a test of \<open>WorkStealingQueue\<close>: a call and what is expected of it. A pull that is
  expected to fail is expected to return \<open>None\<close>; no other thread holds the lock.\<close>

datatype queue_line = Push "32 word" bool | Pull "32 word option" | Steal "32 word option" | Size "32 word" | Is_empty bool

fun run_line :: "queue_line \<Rightarrow> 32 word wsq \<Rightarrow> 32 word wsq res" where
  "run_line (Push x ok) q = bind_res (unique_push 2 x q) (\<lambda>(r, q). require (r = ok) Check_failed (Inr q))"
| "run_line (Pull to) q = bind_res (unique_pull 2 q) (\<lambda>(r, q). require (r = to) Check_failed (Inr q))"
| "run_line (Steal to) q = bind_res (shared_pull 2 True q) (\<lambda>(r, q). require (r = to) Check_failed (Inr q))"
| "run_line (Size n) q = require (size_queue q = n) Check_failed (Inr q)"
| "run_line (Is_empty b) q = require (empty_queue q = b) Check_failed (Inr q)"

fun run_lines :: "queue_line list \<Rightarrow> 32 word wsq \<Rightarrow> 32 word wsq res" where
  "run_lines [] q = Inr q"
| "run_lines (l # ls) q = bind_res (run_line l q) (run_lines ls)"

definition single_threaded_unique :: "queue_line list" where
  "single_threaded_unique =
     [Is_empty True, Size 0, Pull None,
      Push 1 True, Push 2 True, Push 3 True, Push 4 False, Size 3,
      Pull (Some 3), Pull (Some 2), Size 1,
      Push 4 True, Push 5 True, Size 3,
      Pull (Some 5), Pull (Some 4), Pull (Some 1), Size 0, Pull None, Is_empty True]"

definition single_threaded_unique_and_shared :: "queue_line list" where
  "single_threaded_unique_and_shared =
     [Steal None, Push 1 True, Push 2 True, Push 3 True, Size 3,
      Steal (Some 1), Steal (Some 2), Size 1,
      Push 4 True, Push 5 True, Size 3,
      Pull (Some 5), Steal (Some 3), Steal (Some 4), Size 0, Is_empty True,
      Steal None, Pull None, Size 0, Is_empty True]"

text \<open>The lines say of the queue what they say of a list of at most three elements.\<close>

fun line_ok :: "queue_line \<Rightarrow> 32 word list \<Rightarrow> 32 word list option" where
  "line_ok (Push x ok) xs = (if ok = (length xs < 3) then Some (if ok then xs @ [x] else xs) else None)"
| "line_ok (Pull to) xs = (if to = (if xs = [] then None else Some (last xs)) then Some (butlast xs) else None)"
| "line_ok (Steal to) xs = (if to = (if xs = [] then None else Some (hd xs)) then Some (tl xs) else None)"
| "line_ok (Size n) xs = (if n = of_nat (length xs) then Some xs else None)"
| "line_ok (Is_empty b) xs = (if b = (xs = []) then Some xs else None)"

fun lines_ok :: "queue_line list \<Rightarrow> 32 word list \<Rightarrow> bool" where
  "lines_ok [] xs \<longleftrightarrow> True"
| "lines_ok (l # ls) xs \<longleftrightarrow> (case line_ok l xs of None \<Rightarrow> False | Some ys \<Rightarrow> lines_ok ls ys)"

lemma pull_line:
  assumes ok: "wsq_ok 2 q" and l: "line_ok (Pull to) (contents 2 q) = Some ys"
  obtains q' where "run_line (Pull to) q = Inr q'" "wsq_ok 2 q'" "unat (tail q') \<le> unat (tail q)" "contents 2 q' = ys"
proof (cases "contents 2 q" rule: rev_cases)
  case Nil
  then show ?thesis using that [of q] pull_empty [OF ok] l ok by (auto split: if_splits)
next
  case (snoc xs x)
  then show ?thesis by (rule pull_ok [OF ok]) (use that l snoc in \<open>auto split: if_splits\<close>)
qed

lemma steal_line:
  assumes ok: "wsq_ok 2 q" and wrap: "unat (tail q) + capacity 2 \<le> 2 ^ 32" and l: "line_ok (Steal to) (contents 2 q) = Some ys"
  obtains q' where "run_line (Steal to) q = Inr q'" "wsq_ok 2 q'" "unat (tail q') \<le> unat (tail q)" "contents 2 q' = ys"
proof (cases "contents 2 q")
  case Nil
  then show ?thesis using that [of q] steal_empty [OF ok] l ok by (auto split: if_splits)
next
  case (Cons x xs)
  then show ?thesis by (rule steal_ok [OF ok wrap]) (use that l Cons in \<open>auto split: if_splits\<close>)
qed

lemma push_line:
  assumes ok: "wsq_ok 2 q" and wrap: "unat (tail q) + capacity 2 \<le> 2 ^ 32" and l: "line_ok (Push x b) (contents 2 q) = Some ys"
  obtains q' where "run_line (Push x b) q = Inr q'" "wsq_ok 2 q'" "unat (tail q') \<le> unat (tail q) + 1" "contents 2 q' = ys"
proof (cases "length (contents 2 q) < capacity 2 - 1")
  case True
  then have "b" "ys = contents 2 q @ [x]" using l by (auto simp: capacity_def split: if_splits)
  moreover obtain q' where "unique_push 2 x q = Inr (True, q')" "wsq_ok 2 q'" "contents 2 q' = contents 2 q @ [x]"
    "unat (tail q') = unat (tail q) + 1" by (rule push_ok [OF ok wrap True, of x])
  ultimately show ?thesis using that [of q'] by simp
next
  case False
  then have "\<not> b" "ys = contents 2 q" using l by (auto simp: capacity_def split: if_splits)
  moreover have "unique_push 2 x q = Inr (False, q)" using False by (intro push_full [OF ok wrap]) simp
  ultimately show ?thesis using that [OF _ ok] by simp
qed

lemma run_line_ok:
  assumes ok: "wsq_ok 2 q" and wrap: "unat (tail q) + capacity 2 \<le> 2 ^ 32" and l: "line_ok l (contents 2 q) = Some ys"
  obtains q' where "run_line l q = Inr q'" "wsq_ok 2 q'" "unat (tail q') \<le> unat (tail q) + 1" "contents 2 q' = ys"
proof (cases l)
  case (Push x b)
  with l have l': "line_ok (Push x b) (contents 2 q) = Some ys" by simp
  show ?thesis by (rule push_line [OF ok wrap l']) (use that Push in simp)
next
  case (Pull to)
  with l have l': "line_ok (Pull to) (contents 2 q) = Some ys" by simp
  show ?thesis by (rule pull_line [OF ok l']) (use that Pull in force)
next
  case (Steal to)
  with l have l': "line_ok (Steal to) (contents 2 q) = Some ys" by simp
  show ?thesis by (rule steal_line [OF ok wrap l']) (use that Steal in force)
next
  case (Size n)
  have "size_queue q = of_nat (length (contents 2 q))" unfolding size_ok [OF ok, symmetric] by simp
  then show ?thesis using Size ok l that [of q] by (auto split: if_splits)
next
  case (Is_empty b)
  then show ?thesis using ok l that [of q] contents_Nil [OF ok] by (auto simp: empty_queue_def split: if_splits)
qed

lemma queue_test_ok:
  "lines_ok ls (contents 2 q) \<Longrightarrow> wsq_ok 2 q \<Longrightarrow> unat (tail q) + length ls + capacity 2 \<le> 2 ^ 32 \<Longrightarrow>
    \<exists>q'. run_lines ls q = Inr q'"
proof (induction ls arbitrary: q)
  case Nil
  then show ?case by simp
next
  case (Cons l ls)
  then obtain ys where ys: "line_ok l (contents 2 q) = Some ys" "lines_ok ls ys" by (auto split: option.splits)
  have "unat (tail q) + capacity 2 \<le> 2 ^ 32" using Cons.prems(3) by simp
  from Cons.prems(2) this ys(1) obtain q' where q': "run_line l q = Inr q'" "wsq_ok 2 q'"
    "unat (tail q') \<le> unat (tail q) + 1" "contents 2 q' = ys" by (rule run_line_ok)
  then have "\<exists>q''. run_lines ls q' = Inr q''" using ys(2) Cons.prems(3) by (intro Cons.IH) auto
  then show ?case using q'(1) by simp
qed

text \<open>The queue of four uninitialised elements.\<close>

lemma new_small_queue:
  "lines_ok ls [] \<Longrightarrow> length ls < 2 ^ 31 \<Longrightarrow> \<exists>q. run_lines ls (new_queue [a, b, c, d]) = Inr q"
  using wsq_ok_new [of 2 "[a, b, c, d]"] by (intro queue_test_ok) (simp_all add: capacity_def new_queue_def)

lemma queue_tests_pass:
  "\<exists>q. run_lines single_threaded_unique (new_queue [a, b, c, d]) = Inr q"
  "\<exists>q. run_lines single_threaded_unique_and_shared (new_queue [a, b, c, d]) = Inr q"
  by (rule new_small_queue; simp add: single_threaded_unique_def single_threaded_unique_and_shared_def)+

lemma auto_destruction_passes: "auto_destruction t this = Inr ()"
  using emplace_times_ok [OF new_fixture_ok [of t this], of 5] tear_down_ok by (auto simp: auto_destruction_def)

lemma add_and_remove_passes: "add_and_remove t this = Inr ()"
proof -
  obtain ids f m where f: "fill t 0 7 (new_fixture this) = Inr (ids, f)" "holds_all t f m" "length ids = 7" "distinct ids"
    "card (dom m) = 7" "\<forall>l < 7. m (ids ! l) = Some \<lparr>val = int l, creator = t\<rparr>"
    using fill_ok [OF new_fixture_ok [of t this], of 0 7] by (auto simp: new_fixture_def)
  let ?d = "ids ! 3"
  have "m ?d = Some \<lparr>val = 3, creator = t\<rparr>" using f(6) by simp
  then obtain f1 where f1: "erase_element t ?d f = Inr f1" "holds_all t f1 (m(?d := None))"
    by (rule erase_element_ok [OF f(2)])
  have six: "card (dom (m(?d := None))) = 6" using f(5,6) by (simp add: card_Diff_singleton_if domIff)
  obtain i f2 where f2: "emplace_element t 3 f1 = Inr (i, f2)" "(m(?d := None)) i = None"
    "holds_all t f2 (m(?d := None, i \<mapsto> \<lparr>val = 3, creator = t\<rparr>))" "global_count f2 = global_count f1 + 1"
    by (rule emplace_element_ok [OF f1(2), of 3]) (use six in auto)
  have new: "ids ! l \<noteq> i" if "l < 7" "l \<noteq> 3" for l
    using f2(2) f(3,4,6) that by (auto simp: nth_eq_iff_index_eq split: if_splits)
  have "left_from t 0 0 (ids[3 := i]) (m(?d := None, i \<mapsto> \<lparr>val = 3, creator = t\<rparr>))"
    using f(3,4,6) new by (auto simp: left_from_def nth_list_update nth_eq_iff_index_eq)
  moreover have "distinct (ids[3 := i])"
  proof (rule distinct_list_update [OF f(4)])
    show "i \<notin> set ids - {?d}" using new f(3) by (metis DiffE in_set_conv_nth singletonI)
  qed
  ultimately obtain f' m' where "sweep t [0..<8] (ids[3 := i]) f2 = Inr f'" "holds_all t f' m'"
    using sweep_ok [OF f2(3), of 0 "ids[3 := i]"] f(3) by auto
  then show ?thesis
    using f(1,3) f1(1) f2(1,4) emplace_element_full [OF f(2,5)] holds_allD(5) [OF f1(2), of ?d] holds_allD(3) [OF f1(2)] six tear_down_ok
    by (simp add: add_and_remove_def)
qed

subsection \<open>Properties\<close>

text \<open>C29. The single-threaded unit tests pass on the models, on every thread and wherever the vector and
  the uninitialised elements of the queue lie in memory: what the tests say of the lock-free id
  vector and of the work-stealing queue is true of them, and every element constructed is destroyed.\<close>

theorem unit_tests_pass:
  "auto_destruction t this = Inr () \<and> add_and_remove t this = Inr () \<and>
   (\<exists>q. run_lines single_threaded_unique (new_queue [a, b, c, d]) = Inr q) \<and>
   (\<exists>q. run_lines single_threaded_unique_and_shared (new_queue [a, b, c, d]) = Inr q)"
  using auto_destruction_passes add_and_remove_passes queue_tests_pass by blast

end
