(* ===== verification/Signals.thy ===== *)
theory Signals
  imports Prelude
begin

text \<open>
  The two wake-up primitives of \<open>proto/\<close>: \<open>Signal\<close> (\<open>proto/signal.hpp\<close>), meant as an event that
  many threads wait for, and \<open>UniquePulse\<close> (\<open>proto/unique_pulse.hpp\<close>, \<open>proto/unique_pulse.cpp\<close>,
  with a copy in \<open>proto/scheduler.hpp\<close>), with which one sleeping thread is woken. A critical
  section is one step, as is the atomic load outside it; a thread inside
  \<open>condition_variable::wait\<close> has given the mutex up, may wake spuriously, and must take
  the mutex again to go on.
\<close>

subsection \<open>Signal\<close>

definition spin_count :: nat where
  "spin_count = 8"

datatype sig_pc =
    S_idle
  | S_spin nat \<comment> \<open>loads left in the spin loop\<close>
  | S_lock \<comment> \<open>about to take the mutex\<close>
  | S_blocked \<comment> \<open>inside \<open>condition_variable_.wait\<close>\<close>
  | S_woken \<comment> \<open>about to take the mutex again\<close>

record signal =
  num_waiting :: "32 word"
  triggered :: bool
  sig_pcs :: "nat \<Rightarrow> sig_pc"
  returned :: nat \<comment> \<open>completed calls of \<open>wait\<close>\<close>
  triggers :: nat \<comment> \<open>calls of \<open>trigger\<close>\<close>

definition new_signal :: signal where
  "new_signal = \<lparr>num_waiting = 0, triggered = False, sig_pcs = \<lambda>_. S_idle, returned = 0, triggers = 0\<rparr>"

definition trigger :: "signal \<Rightarrow> signal" where
  "trigger s =
     (let s = s\<lparr>triggers := triggers s + 1\<rparr> in
      if \<not> triggered s \<and> num_waiting s > 0
      then s\<lparr>triggered := True, sig_pcs := \<lambda>t. if sig_pcs s t = S_blocked then S_woken else sig_pcs s t\<rparr>
      else s)"

definition reset_signal :: "signal \<Rightarrow> signal res" where
  "reset_signal s =
     require (num_waiting s = 0) Check_failed (
     require (triggered s) Check_failed (
     Inr (s\<lparr>triggered := False\<rparr>)))"

definition destroy_signal :: "signal \<Rightarrow> unit res" where
  "destroy_signal s = require (num_waiting s = 0) Check_failed (Inr ())"

definition sig_goto :: "nat \<Rightarrow> sig_pc \<Rightarrow> signal \<Rightarrow> signal" where
  "sig_goto t pc s = s\<lparr>sig_pcs := (sig_pcs s)(t := pc)\<rparr>"

text \<open>The loop of \<open>wait\<close> under the mutex: leave it or block.\<close>

definition wait_locked :: "nat \<Rightarrow> signal \<Rightarrow> signal" where
  "wait_locked t s =
     (if \<not> triggered s then sig_goto t S_blocked (s\<lparr>num_waiting := num_waiting s + 1\<rparr>)
      else sig_goto t S_idle (s\<lparr>returned := returned s + 1\<rparr>))"

inductive wait_step :: "nat \<Rightarrow> signal \<Rightarrow> signal \<Rightarrow> bool" for t where
  call: "sig_pcs s t = S_idle \<Longrightarrow> wait_step t s (sig_goto t (S_spin spin_count) s)"
| spin_return: "sig_pcs s t = S_spin (Suc n) \<Longrightarrow> \<not> triggered s \<Longrightarrow>
    wait_step t s (sig_goto t S_idle (s\<lparr>returned := returned s + 1\<rparr>))"
| spin_on: "sig_pcs s t = S_spin (Suc n) \<Longrightarrow> triggered s \<Longrightarrow> wait_step t s (sig_goto t (S_spin n) s)"
| spin_end: "sig_pcs s t = S_spin 0 \<Longrightarrow> wait_step t s (sig_goto t S_lock s)"
| lock: "sig_pcs s t = S_lock \<Longrightarrow> wait_step t s (wait_locked t s)"
| spurious: "sig_pcs s t = S_blocked \<Longrightarrow> wait_step t s (sig_goto t S_woken s)"
| relock: "sig_pcs s t = S_woken \<Longrightarrow>
    wait_step t s (wait_locked t (s\<lparr>num_waiting := num_waiting s - 1\<rparr>))"

inductive signal_run :: "signal \<Rightarrow> bool" where
  init: "signal_run new_signal"
| wait: "signal_run s \<Longrightarrow> wait_step t s s' \<Longrightarrow> signal_run s'"
| trigger: "signal_run s \<Longrightarrow> signal_run (trigger s)"
| reset: "signal_run s \<Longrightarrow> reset_signal s = Inr s' \<Longrightarrow> signal_run s'"

subsection \<open>Unique pulse\<close>

datatype pulse_pc =
    P_idle
  | P_blocked \<comment> \<open>inside \<open>condition_.wait\<close>\<close>
  | P_woken

record pulse_state =
  pulsed :: bool
  asleep :: bool
  waiter :: pulse_pc
  notifies :: nat \<comment> \<open>calls of \<open>pulse\<close> between \<open>unlock\<close> and \<open>notify_one\<close>\<close>
  sent :: nat \<comment> \<open>calls of \<open>pulse\<close> so far\<close>
  received :: nat \<comment> \<open>calls of \<open>wait\<close> that have returned\<close>

definition new_pulse :: pulse_state where
  "new_pulse = \<lparr>pulsed = False, asleep = False, waiter = P_idle, notifies = 0, sent = 0, received = 0\<rparr>"

text \<open>The critical section of \<open>pulse\<close>.\<close>

definition send_pulse :: "pulse_state \<Rightarrow> pulse_state" where
  "send_pulse p =
     (let p = p\<lparr>pulsed := True, sent := sent p + 1\<rparr> in
      if asleep p then p\<lparr>asleep := False, notifies := notifies p + 1\<rparr> else p)"

text \<open>The loop of \<open>wait\<close> under the mutex, and the call itself, whose test is a \<open>DCHECK\<close> in
  \<open>unique_pulse.cpp\<close> and a \<open>CHECK\<close> in \<open>scheduler.hpp\<close>.\<close>

definition pulse_loop :: "pulse_state \<Rightarrow> pulse_state" where
  "pulse_loop p =
     (if \<not> pulsed p then p\<lparr>waiter := P_blocked\<rparr>
      else p\<lparr>pulsed := False, asleep := False, waiter := P_idle, received := received p + 1\<rparr>)"

definition wait_pulse :: "error \<Rightarrow> pulse_state \<Rightarrow> pulse_state res" where
  "wait_pulse e p = require (\<not> asleep p) e (Inr (pulse_loop (p\<lparr>asleep := True\<rparr>)))"

text \<open>The waking of a blocked thread.\<close>

inductive wake_step :: "pulse_state \<Rightarrow> pulse_state \<Rightarrow> bool" where
  notify: "notifies p > 0 \<Longrightarrow>
    wake_step p (p\<lparr>notifies := notifies p - 1, waiter := (if waiter p = P_blocked then P_woken else waiter p)\<rparr>)"
| spurious: "waiter p = P_blocked \<Longrightarrow> wake_step p (p\<lparr>waiter := P_woken\<rparr>)"
| woken: "waiter p = P_woken \<Longrightarrow> wake_step p (pulse_loop p)"

inductive pulse_step :: "pulse_state \<Rightarrow> pulse_state \<Rightarrow> bool" where
  send: "pulse_step p (send_pulse p)"
| wait: "waiter p = P_idle \<Longrightarrow> wait_pulse e p = Inr p' \<Longrightarrow> pulse_step p p'"
| wake: "wake_step p p' \<Longrightarrow> pulse_step p p'"

inductive pulse_run :: "pulse_state \<Rightarrow> bool" where
  init: "pulse_run new_pulse"
| step: "pulse_run p \<Longrightarrow> pulse_step p p' \<Longrightarrow> pulse_run p'"

lemma pulse_run_inv:
  assumes "pulse_run p"
  shows "(waiter p = P_idle \<longrightarrow> \<not> asleep p) \<and>
    (waiter p = P_blocked \<longrightarrow> (if asleep p then \<not> pulsed p else pulsed p \<and> notifies p > 0)) \<and>
    (waiter p = P_woken \<longrightarrow> (if asleep p then \<not> pulsed p else pulsed p)) \<and>
    received p + (if pulsed p then 1 else 0) \<le> sent p"
  using assms
proof (induction rule: pulse_run.induct)
  case init
  then show ?case by (simp add: new_pulse_def)
next
  case (step p p')
  from step.hyps(2) step.IH show ?case
  proof cases
    case wait
    then have "\<not> asleep p" "p' = pulse_loop (p\<lparr>asleep := True\<rparr>)" by (auto simp: wait_pulse_def require_eq_Inr)
    then show ?thesis using step.IH by (auto simp: pulse_loop_def)
  next
    case wake
    then show ?thesis using step.IH by cases (auto simp: pulse_loop_def split: if_splits)
  qed (use step.IH in \<open>auto simp: send_pulse_def pulse_loop_def split: if_splits\<close>)
qed

subsection \<open>Properties\<close>

text \<open>C38. \<open>Signal\<close> never signals: the spin loop of \<open>wait\<close> returns when \<open>triggered_\<close> is \emph{false}, so
  no thread ever blocks, \<open>trigger\<close> finds no waiting thread and does nothing, a call of \<open>wait\<close>
  returns at its first load whether or not \<open>trigger\<close> was called, and \<open>reset\<close> always aborts.\<close>

theorem signal_never_blocks:
  assumes "signal_run s"
  shows "\<not> triggered s \<and> num_waiting s = 0 \<and> (\<forall>t. sig_pcs s t = S_idle \<or> sig_pcs s t = S_spin spin_count) \<and>
    trigger s = s\<lparr>triggers := triggers s + 1\<rparr> \<and> reset_signal s = Inl Check_failed \<and>
    (\<forall>t s'. wait_step t s s' \<longrightarrow> sig_pcs s t = S_spin spin_count \<longrightarrow> s' = sig_goto t S_idle (s\<lparr>returned := returned s + 1\<rparr>))"
proof -
  have inv: "\<not> triggered s \<and> num_waiting s = 0 \<and> (\<forall>t. sig_pcs s t = S_idle \<or> sig_pcs s t = S_spin spin_count)"
    using assms
  proof (induction rule: signal_run.induct)
    case (wait s t s')
    then have pc: "sig_pcs s t = S_idle \<or> sig_pcs s t = S_spin spin_count" by blast
    from wait.hyps(2) pc show ?case using wait.IH by cases (auto simp: sig_goto_def spin_count_def)
  qed (auto simp: new_signal_def trigger_def reset_signal_def require_def)
  moreover have "s' = sig_goto t S_idle (s\<lparr>returned := returned s + 1\<rparr>)"
    if "wait_step t s s'" "sig_pcs s t = S_spin spin_count" for t s'
    using that inv by cases (auto simp: spin_count_def)
  ultimately show ?thesis by (simp add: trigger_def reset_signal_def)
qed

theorem signal_never_blocks_witness:
  "\<exists>s. signal_run s \<and> triggers s = 0 \<and> returned s = 1 \<and> trigger s = s\<lparr>triggers := 1\<rparr>"
proof -
  let ?s1 = "sig_goto 0 (S_spin spin_count) new_signal"
  let ?s2 = "sig_goto 0 S_idle (?s1\<lparr>returned := returned ?s1 + 1\<rparr>)"
  have "wait_step 0 new_signal ?s1" by (rule wait_step.call) (simp add: new_signal_def)
  then have 1: "signal_run ?s1" by (rule signal_run.wait [OF signal_run.init])
  have "wait_step 0 ?s1 ?s2"
    by (rule wait_step.spin_return [where n = 7]) (simp_all add: sig_goto_def new_signal_def spin_count_def)
  then have 2: "signal_run ?s2" by (rule signal_run.wait [OF 1])
  have "triggers ?s2 = 0" "returned ?s2 = 1" by (simp_all add: sig_goto_def new_signal_def)
  then show ?thesis using 2 signal_never_blocks [OF 2] by (intro exI [of _ ?s2]) simp
qed

text \<open>C37. \<open>UniquePulse\<close> loses no pulse: whenever the waiting thread is blocked although it has been
  pulsed, a \<open>notify_one\<close> that will wake it is still to come; blocked and not pulsed, it is
  marked asleep, so the next \<open>pulse\<close> will notify it; it never returns without a pulse sent
  since its last return; and the test of \<open>wait\<close> holds while one thread waits.\<close>

theorem pulse_not_lost:
  assumes run: "pulse_run p"
  shows "(waiter p = P_blocked \<and> pulsed p \<longrightarrow> notifies p > 0) \<and>
    (waiter p = P_blocked \<and> \<not> pulsed p \<longrightarrow> asleep p \<and> notifies (send_pulse p) = notifies p + 1) \<and>
    (waiter p = P_woken \<and> pulsed p \<longrightarrow> waiter (pulse_loop p) = P_idle) \<and>
    received p \<le> sent p \<and> (waiter p = P_idle \<longrightarrow> (\<forall>e. \<exists>p'. wait_pulse e p = Inr p'))"
  using pulse_run_inv [OF run] by (auto simp: send_pulse_def pulse_loop_def wait_pulse_def split: if_splits)

theorem pulse_not_lost_witness:
  "\<exists>p. pulse_run p \<and> waiter p = P_blocked \<and> pulsed p \<and> notifies p > 0"
proof -
  let ?p = "pulse_loop (new_pulse\<lparr>asleep := True\<rparr>)"
  have "pulse_step new_pulse ?p" by (rule pulse_step.wait) (simp_all add: new_pulse_def wait_pulse_def)
  then have "pulse_run ?p" by (rule pulse_run.step [OF pulse_run.init])
  then have run: "pulse_run (send_pulse ?p)" by (rule pulse_run.step) (rule pulse_step.send)
  have "waiter (send_pulse ?p) = P_blocked" "pulsed (send_pulse ?p)"
    by (simp_all add: send_pulse_def pulse_loop_def new_pulse_def)
  then show ?thesis using run pulse_not_lost [OF run] by blast
qed

end
