(* ===== verification/Scheduler.thy ===== *)
theory Scheduler
  imports Work_Stealing_Queue Signals "HOL-Library.Multiset"
begin

text \<open>
  The work-stealing scheduler of \<open>proto/scheduler.hpp\<close>: nodes, one per thread, each with a
  work-stealing queue of task ids, a pulse that wakes it, and flags. A task's closure
  is the list of the scheduler calls it makes and of its accesses to data of the client, on which later
  calls may depend. Each call on a queue, a flag, a pulse or the task vector is
  one step of its node, except that a \<open>shared_pull\<close> takes two or three, for the owner of the queue
  can see its head raised in between; \<open>Work_Stealing_Steps\<close> and \<open>Signals\<close> look inside the queue and the
  pulse, and \<open>Lockfree_Id_Vector\<close> inside the task vector, of which only its contract is used
  here: \<open>emplace\<close> returns an id that is not in use, as long as there is one.
\<close>

subsection \<open>State\<close>

type_synonym task_id = "32 word"

text \<open>A closure: what it does from one call of the scheduler, or one access to the client's own data of
  type \<open>'c\<close>, to the next.\<close>

datatype 'c act =
    New "'c act list" \<comment> \<open>\<open>new_task\<close>\<close>
  | Stop \<comment> \<open>\<open>stop_scheduler\<close>\<close>
  | Touch "'c \<Rightarrow> 'c \<times> 'c act list" \<comment> \<open>one atomic access, and what the closure does next because of it\<close>

definition queue_bits :: nat where
  "queue_bits = 8"

definition max_tasks :: nat where
  "max_tasks = 2 ^ 24 - 1"

text \<open>Calls in progress on a node.\<close>

datatype 'c frame =
    Creating "'c act list" \<comment> \<open>\<open>new_task\<close>, about to call \<open>emplace\<close>\<close>
  | Pushing task_id
  | Full task_id \<comment> \<open>\<open>unique_push\<close> refused; about to pull\<close>
  | Delegating nat
  | Waking nat \<comment> \<open>\<open>available_\<close> was taken; about to store \<open>steal_from_\<close>\<close>
  | Pulsing nat
  | Running task_id "'c act list" \<comment> \<open>\<open>execute\<close>, with what is left of the closure\<close>
  | Stopping nat \<comment> \<open>\<open>stop_scheduler\<close>, about to call \<open>stop\<close> on this node\<close>

datatype loop_pc =
    Begin
  | Deplete nat \<comment> \<open>the number is \<open>steal_id\<close>\<close>
  | Check nat nat \<comment> \<open>with \<open>num_empty_runs\<close>\<close>
  | Pick nat nat \<comment> \<open>in the \<open>do\<close> loop that chooses the next victim\<close>
  | Steal nat nat
  | Probing nat "32 word" loop_pc loop_pc \<comment> \<open>in \<open>shared_pull\<close> of that node's queue, with the old \<open>head_\<close>
      and about to test; where the loop goes on if a task was stolen, and if not\<close>
  | Restoring nat "32 word" loop_pc \<comment> \<open>the test failed; about to restore \<open>head_\<close> and unlock\<close>
  | Stole nat
  | Interleaved nat \<comment> \<open>another node woke this one while it stole\<close>
  | Retry nat nat \<comment> \<open>\<open>steal_id\<close>, and the node to steal from now\<close>
  | Sleep
  | Asleep
  | Awake
  | Drain nat
  | Offer nat \<comment> \<open>about to set \<open>available_\<close>\<close>
  | Exit

record 'c node =
  generic_tasks :: "task_id wsq"
  raised_by :: "nat option" \<comment> \<open>the thief that holds \<open>foreign_sync_\<close> of the queue between two steps\<close>
  wakeup :: pulse_state
  stop_flag :: bool
  available :: bool
  steal_from :: nat
  attached :: bool
  frames :: "'c frame list"
  loop :: loop_pc

record 'c scheduler =
  nodes :: "'c node list"
  tasks :: "task_id \<Rightarrow> 'c act list option"
  created :: nat \<comment> \<open>tasks created so far\<close>
  executed :: nat \<comment> \<open>tasks executed so far\<close>
  client :: 'c \<comment> \<open>data that the closures share\<close>

definition num_nodes :: "'c scheduler \<Rightarrow> nat" where
  "num_nodes s = length (nodes s)"

definition new_node :: "task_id list \<Rightarrow> 'c node" where
  "new_node es = \<lparr>generic_tasks = new_queue es, raised_by = None, wakeup = new_pulse, stop_flag = False, available = False,
     steal_from = 2 ^ 16 - 1, attached = False, frames = [], loop = Begin\<rparr>"

text \<open>\<open>Scheduler::Scheduler\<close>: \<open>es\<close> is the uninitialised storage of the queues.\<close>

definition new_scheduler :: "nat \<Rightarrow> task_id list \<Rightarrow> 'c \<Rightarrow> 'c scheduler" where
  "new_scheduler n es c = \<lparr>nodes = replicate n (new_node es), tasks = Map.empty, created = 0, executed = 0, client = c\<rparr>"

definition next_node :: "nat \<Rightarrow> nat \<Rightarrow> nat" where
  "next_node n this_id = (this_id + 1) mod n"

definition attach :: "nat \<Rightarrow> nat \<Rightarrow> 'c node \<Rightarrow> 'c node res" where
  "attach n this_id x =
     require (\<not> attached x) Check_failed (Inr (x\<lparr>attached := True, steal_from := next_node n this_id\<rparr>))"

fun attach_all :: "nat \<Rightarrow> nat \<Rightarrow> 'c node list \<Rightarrow> 'c node list res" where
  "attach_all n i [] = Inr []"
| "attach_all n i (x # xs) =
     bind_res (attach n i x) (\<lambda>x. bind_res (attach_all n (i + 1) xs) (\<lambda>xs. Inr (x # xs)))"

text \<open>\<open>Scheduler::run\<close> up to where every thread is at the start of its loop, node 0 in the call of
  \<open>new_task\<close> for the root.\<close>

definition run_scheduler :: "'c act list \<Rightarrow> 'c scheduler \<Rightarrow> 'c scheduler res" where
  "run_scheduler root s =
     bind_res (attach_all (num_nodes s) 0 (nodes s)) (\<lambda>xs.
     fetch xs 0 (\<lambda>x. Inr (s\<lparr>nodes := xs[0 := x\<lparr>frames := [Creating root]\<rparr>]\<rparr>)))"

text \<open>The \<open>do\<close> loop of \<open>node_loop\<close> that picks the next victim; it does not end if there is none.\<close>

partial_function (option) next_victim :: "nat \<Rightarrow> nat \<Rightarrow> nat \<Rightarrow> nat option" where
  "next_victim n this_id steal_id =
     (let steal_id = (steal_id + 1) mod n in
      if steal_id = this_id then next_victim n this_id steal_id else Some steal_id)"

subsection \<open>Steps\<close>

definition set_node :: "nat \<Rightarrow> 'c node \<Rightarrow> 'c scheduler \<Rightarrow> 'c scheduler" where
  "set_node i x s = s\<lparr>nodes := (nodes s)[i := x]\<rparr>"

text \<open>\<open>execute\<close>: look the task up, then run its closure; \<open>Running i []\<close> erases it.\<close>

definition execute :: "task_id \<Rightarrow> 'c node \<Rightarrow> 'c scheduler \<Rightarrow> 'c node res" where
  "execute i x s =
     (case tasks s i of None \<Rightarrow> Inl Dcheck_failed | Some work \<Rightarrow> Inr (x\<lparr>frames := Running i work # frames x\<rparr>))"

text \<open>A node pulls from its own queue and executes what it gets; \<open>pc\<close> is where its loop goes on if
  there is nothing.\<close>

definition pull_and_execute :: "'c node \<Rightarrow> 'c node \<Rightarrow> 'c scheduler \<Rightarrow> 'c node res" where
  "pull_and_execute otherwise x s =
     bind_res (unique_pull queue_bits (generic_tasks x)) (\<lambda>(r, q).
       case r of None \<Rightarrow> Inr (otherwise\<lparr>generic_tasks := q\<rparr>) | Some i \<Rightarrow> execute i (x\<lparr>generic_tasks := q\<rparr>) s)"

text \<open>\<open>steal_and_execute\<close> on node \<open>m\<close>, from node \<open>v\<close>: \<open>shared_pull\<close> up to the store of the incremented
  head; \<open>acquired\<close> is whether the lock, if free, was taken before the timeout. The loop goes on at \<open>yes\<close>
  after a stolen task, at \<open>no\<close> without.\<close>

definition steal_and_execute :: "nat \<Rightarrow> nat \<Rightarrow> bool \<Rightarrow> loop_pc \<Rightarrow> loop_pc \<Rightarrow> 'c scheduler \<Rightarrow> 'c scheduler res" where
  "steal_and_execute m v acquired yes no s =
     fetch (nodes s) v (\<lambda>y.
     if \<not> acquired \<or> raised_by y \<noteq> None then Inr (set_node m ((nodes s ! m)\<lparr>loop := no\<rparr>) s)
     else
       let s = set_node v (y\<lparr>generic_tasks := begin_steal (generic_tasks y), raised_by := Some m\<rparr>) s; x = nodes s ! m in
       Inr (set_node m (x\<lparr>loop := Probing v (head (generic_tasks y)) yes no\<rparr>) s))"

text \<open>The test of \<open>shared_pull\<close>, with the load of the element, the unlock and the call of \<open>execute\<close> if it
  succeeds.\<close>

definition probe_step :: "nat \<Rightarrow> nat \<Rightarrow> 32 word \<Rightarrow> loop_pc \<Rightarrow> loop_pc \<Rightarrow> 'c scheduler \<Rightarrow> 'c scheduler res" where
  "probe_step m v h yes no s =
     fetch (nodes s) v (\<lambda>y.
     bind_res (try_steal queue_bits h (generic_tasks y)) (\<lambda>r.
     case r of
       None \<Rightarrow> Inr (set_node m ((nodes s ! m)\<lparr>loop := Restoring v h no\<rparr>) s)
     | Some i \<Rightarrow>
         let s = set_node v (y\<lparr>raised_by := None\<rparr>) s; x = nodes s ! m in
         bind_res (execute i (x\<lparr>loop := yes\<rparr>) s) (\<lambda>x. Inr (set_node m x s))))"

text \<open>The end of a steal that found nothing.\<close>

definition restore_step :: "nat \<Rightarrow> nat \<Rightarrow> 32 word \<Rightarrow> loop_pc \<Rightarrow> 'c scheduler \<Rightarrow> 'c scheduler res" where
  "restore_step m v h pc s =
     fetch (nodes s) v (\<lambda>y.
     let s = set_node v (y\<lparr>generic_tasks := undo_steal h (generic_tasks y), raised_by := None\<rparr>) s; x = nodes s ! m in
     Inr (set_node m (x\<lparr>loop := pc\<rparr>) s))"

text \<open>Each of the calls below acts on node \<open>m\<close>, with \<open>f\<close> the innermost call in progress and \<open>fs\<close> the
  calls around it. Steps of \<open>new_task\<close>: \<open>fresh\<close> is the id that \<open>emplace\<close> returns.\<close>

definition new_task_step :: "task_id \<Rightarrow> nat \<Rightarrow> 'c frame \<Rightarrow> 'c frame list \<Rightarrow> 'c scheduler \<Rightarrow> 'c scheduler res" where
  "new_task_step fresh m f fs s =
     (let x = nodes s ! m; n = num_nodes s in
      case f of
        Creating work \<Rightarrow>
          Inr (set_node m (x\<lparr>frames := Pushing fresh # fs\<rparr>) s
            \<lparr>tasks := (tasks s)(fresh \<mapsto> work), created := created s + 1\<rparr>)
      | Pushing i \<Rightarrow>
          bind_res (unique_push queue_bits i (generic_tasks x)) (\<lambda>(ok, q).
          Inr (set_node m (x\<lparr>generic_tasks := q,
            frames := (if ok then Delegating ((m + 1) mod n) else Full i) # fs\<rparr>) s))
      | Full i \<Rightarrow>
          bind_res (pull_and_execute (x\<lparr>frames := Pushing i # fs\<rparr>) (x\<lparr>frames := Pushing i # fs\<rparr>) s)
            (\<lambda>x. Inr (set_node m x s))
      | Delegating i \<Rightarrow>
          if size_queue (generic_tasks x) > 1 \<and> i \<noteq> m then
            fetch (nodes s) i (\<lambda>y.
            if available y then Inr (set_node m (x\<lparr>frames := Waking i # fs\<rparr>) (set_node i (y\<lparr>available := False\<rparr>) s))
            else Inr (set_node m (x\<lparr>frames := Delegating ((i + 1) mod n) # fs\<rparr>) s))
          else Inr (set_node m (x\<lparr>frames := fs\<rparr>) s)
      | _ \<Rightarrow> Inr s)"

text \<open>\<open>wakeup_and_steal_from\<close> after it has taken \<open>available_\<close> of node \<open>i\<close>.\<close>

definition wakeup_step :: "nat \<Rightarrow> 'c frame \<Rightarrow> 'c frame list \<Rightarrow> 'c scheduler \<Rightarrow> 'c scheduler res" where
  "wakeup_step m f fs s =
     (case f of
        Waking i \<Rightarrow>
          fetch (nodes s) i (\<lambda>y. let s = set_node i (y\<lparr>steal_from := m\<rparr>) s; x = nodes s ! m in
            Inr (set_node m (x\<lparr>frames := Pulsing i # fs\<rparr>) s))
      | Pulsing i \<Rightarrow>
          fetch (nodes s) i (\<lambda>y. let s = set_node i (y\<lparr>wakeup := send_pulse (wakeup y)\<rparr>) s; x = nodes s ! m in
            Inr (set_node m (x\<lparr>frames := fs\<rparr>) s))
      | _ \<Rightarrow> Inr s)"

text \<open>The loop of \<open>stop_scheduler\<close>: \<open>stop\<close> on each node.\<close>

definition stop_step :: "nat \<Rightarrow> nat \<Rightarrow> 'c frame list \<Rightarrow> 'c scheduler \<Rightarrow> 'c scheduler res" where
  "stop_step m i fs s =
     (let x = nodes s ! m in
      if i < num_nodes s then
        let y = nodes s ! i; s = set_node i (y\<lparr>stop_flag := True\<rparr>) s; x = nodes s ! m in
        Inr (set_node m (x\<lparr>frames := Pulsing i # Stopping (i + 1) # fs\<rparr>) s)
      else Inr (set_node m (x\<lparr>frames := fs\<rparr>) s))"

text \<open>A running closure makes its next call, \<open>new_task\<close> or \<open>stop_scheduler\<close> (with its exchange of
  \<open>stop_flag_\<close>), accesses the client's data, or returns to \<open>execute\<close>, which erases the task.\<close>

definition closure_step :: "nat \<Rightarrow> task_id \<Rightarrow> 'c act list \<Rightarrow> 'c frame list \<Rightarrow> 'c scheduler \<Rightarrow> 'c scheduler res" where
  "closure_step m i acts fs s =
     (let x = nodes s ! m in
      case acts of
        New work # acts \<Rightarrow>
          Inr (set_node m (x\<lparr>frames := Creating work # Running i acts # fs\<rparr>) s)
      | Stop # acts \<Rightarrow>
          Inr (set_node m (x\<lparr>stop_flag := True,
            frames := (if stop_flag x then Running i acts # fs else Stopping 0 # Running i acts # fs)\<rparr>) s)
      | Touch f # acts \<Rightarrow>
          let (c, cont) = f (client s) in
          Inr (set_node m (x\<lparr>frames := Running i (cont @ acts) # fs\<rparr>) s\<lparr>client := c\<rparr>)
      | [] \<Rightarrow>
          Inr (set_node m (x\<lparr>frames := fs\<rparr>) s\<lparr>tasks := (tasks s)(i := None), executed := executed s + 1\<rparr>))"

definition frame_step :: "task_id \<Rightarrow> nat \<Rightarrow> 'c scheduler \<Rightarrow> 'c scheduler res" where
  "frame_step fresh m s =
     (case frames (nodes s ! m) of
        [] \<Rightarrow> Inr s
      | f # fs \<Rightarrow>
          (case f of
             Waking i \<Rightarrow> wakeup_step m f fs s
           | Pulsing i \<Rightarrow> wakeup_step m f fs s
           | Stopping i \<Rightarrow> stop_step m i fs s
           | Running i acts \<Rightarrow> closure_step m i acts fs s
           | _ \<Rightarrow> new_task_step fresh m f fs s))"

text \<open>Steps of \<open>deplete_local_queue\<close> and \<open>node_loop\<close>, when no call is in progress.\<close>

definition loop_step :: "bool \<Rightarrow> nat \<Rightarrow> 'c scheduler \<Rightarrow> 'c scheduler res" where
  "loop_step acquired m s =
     (let x = nodes s ! m; n = num_nodes s in
      case loop x of
        Begin \<Rightarrow> Inr (set_node m (x\<lparr>loop := Deplete (steal_from x)\<rparr>) s)
      | Deplete v \<Rightarrow> bind_res (pull_and_execute (x\<lparr>loop := Offer v\<rparr>) x s) (\<lambda>x. Inr (set_node m x s))
      | Offer v \<Rightarrow> Inr (set_node m (x\<lparr>available := True, loop := Check v 0\<rparr>) s)
      | Check v e \<Rightarrow>
          Inr (set_node m (x\<lparr>loop := (if stop_flag x then Exit else Pick v e)\<rparr>) s)
      | Pick v e \<Rightarrow>
          (case next_victim n m v of
            None \<Rightarrow> Inr s \<comment> \<open>the loop does not end\<close>
          | Some v' \<Rightarrow> Inr (set_node m (x\<lparr>loop := Steal v' e\<rparr>) s))
      | Steal v e \<Rightarrow> steal_and_execute m v acquired (Stole v) (if e + 1 = n then Sleep else Check v (e + 1)) s
      | Probing v h yes no \<Rightarrow> probe_step m v h yes no s
      | Restoring v h pc \<Rightarrow> restore_step m v h pc s
      | Stole v \<Rightarrow>
          Inr (set_node m (x\<lparr>available := False, loop := (if available x then Drain v else Interleaved v)\<rparr>) s)
      | Interleaved v \<Rightarrow>
          Inr (set_node m (x\<lparr>loop := (if v \<noteq> steal_from x then Retry v (steal_from x) else Drain v)\<rparr>) s)
      | Retry v w \<Rightarrow> steal_and_execute m w acquired (Drain w) (Drain v) s
      | Sleep \<Rightarrow> bind_res (wait_pulse Check_failed (wakeup x)) (\<lambda>w. Inr (set_node m (x\<lparr>wakeup := w, loop := Asleep\<rparr>) s))
      | Asleep \<Rightarrow> if waiter (wakeup x) = P_idle then Inr (set_node m (x\<lparr>loop := Awake\<rparr>) s) else Inr s
      | Awake \<Rightarrow> Inr (set_node m (x\<lparr>loop := Retry (steal_from x) (steal_from x)\<rparr>) s)
      | Drain v \<Rightarrow> bind_res (pull_and_execute (x\<lparr>loop := Offer v\<rparr>) x s) (\<lambda>x. Inr (set_node m x s))
      | Exit \<Rightarrow> Inr s)"

inductive sched_step :: "'c scheduler \<Rightarrow> 'c scheduler \<Rightarrow> bool" where
  frame: "m < num_nodes s \<Longrightarrow> frames (nodes s ! m) \<noteq> [] \<Longrightarrow> tasks s fresh = None \<Longrightarrow>
    frame_step fresh m s = Inr s' \<Longrightarrow> sched_step s s'"
| loop: "m < num_nodes s \<Longrightarrow> frames (nodes s ! m) = [] \<Longrightarrow> loop_step acquired m s = Inr s' \<Longrightarrow> sched_step s s'"
| wake: "m < num_nodes s \<Longrightarrow> wake_step (wakeup (nodes s ! m)) w \<Longrightarrow>
    sched_step s (set_node m ((nodes s ! m)\<lparr>wakeup := w\<rparr>) s)"

inductive sched_run :: "nat \<Rightarrow> 'c act list \<Rightarrow> 'c \<Rightarrow> 'c scheduler \<Rightarrow> bool" for n root c where
  init: "length es = capacity queue_bits \<Longrightarrow> run_scheduler root (new_scheduler n es c) = Inr s \<Longrightarrow> sched_run n root c s"
| step: "sched_run n root c s \<Longrightarrow> sched_step s s' \<Longrightarrow> sched_run n root c s'"

lemmas frame_step_defs = frame_step_def new_task_step_def wakeup_step_def stop_step_def closure_step_def

subsection \<open>The invariant\<close>

fun frame_ids :: "'c frame list \<Rightarrow> task_id multiset" where
  "frame_ids [] = {#}"
| "frame_ids (Pushing i # fs) = add_mset i (frame_ids fs)"
| "frame_ids (Full i # fs) = add_mset i (frame_ids fs)"
| "frame_ids (Running i acts # fs) = add_mset i (frame_ids fs)"
| "frame_ids (f # fs) = frame_ids fs"

abbreviation raised :: "'c node \<Rightarrow> bool" where
  "raised x \<equiv> raised_by x \<noteq> None"

definition node_queue :: "'c node \<Rightarrow> task_id list" where
  "node_queue x = probed_contents queue_bits (raised x) (generic_tasks x)"

definition node_ids :: "'c node \<Rightarrow> task_id multiset" where
  "node_ids x = mset (node_queue x) + frame_ids (frames x)"

fun pushes :: "'c frame list \<Rightarrow> nat" where
  "pushes [] = 0"
| "pushes (Pushing i # fs) = Suc (pushes fs)"
| "pushes (Full i # fs) = Suc (pushes fs)"
| "pushes (f # fs) = pushes fs"

fun frame_ok :: "nat \<Rightarrow> 'c frame \<Rightarrow> bool" where
  "frame_ok n (Delegating i) \<longleftrightarrow> i < n"
| "frame_ok n (Waking i) \<longleftrightarrow> i < n"
| "frame_ok n (Pulsing i) \<longleftrightarrow> i < n"
| "frame_ok n _ \<longleftrightarrow> True"

text \<open>The queue whose lock a node holds, and its head before the node raised it.\<close>

fun holding :: "loop_pc \<Rightarrow> (nat \<times> 32 word) option" where
  "holding (Probing v h yes no) = Some (v, h)"
| "holding (Restoring v h pc) = Some (v, h)"
| "holding _ = None"

fun after_steal :: "loop_pc \<Rightarrow> bool" where
  "after_steal (Stole v) \<longleftrightarrow> True"
| "after_steal (Drain v) \<longleftrightarrow> True"
| "after_steal _ \<longleftrightarrow> False"

fun loop_ok :: "nat \<Rightarrow> loop_pc \<Rightarrow> bool" where
  "loop_ok n (Steal v e) \<longleftrightarrow> v < n"
| "loop_ok n (Retry v w) \<longleftrightarrow> w < n"
| "loop_ok n (Probing v h yes no) \<longleftrightarrow> after_steal yes \<and> loop_ok n no \<and> holding no = None \<and> no \<noteq> Asleep"
| "loop_ok n (Restoring v h pc) \<longleftrightarrow> loop_ok n pc \<and> holding pc = None \<and> pc \<noteq> Asleep"
| "loop_ok n _ \<longleftrightarrow> True"

definition node_ok :: "nat \<Rightarrow> nat \<Rightarrow> 'c node \<Rightarrow> bool" where
  "node_ok n c x \<longleftrightarrow> probed_ok queue_bits (raised x) (generic_tasks x) \<and>
     unat (tail (generic_tasks x)) + pushes (frames x) \<le> c \<and> steal_from x < n \<and>
     (\<forall>f \<in> set (frames x). frame_ok n f) \<and> loop_ok n (loop x) \<and>
     pulse_run (wakeup x) \<and> (loop x \<noteq> Asleep \<longrightarrow> waiter (wakeup x) = P_idle)"

text \<open>A thief inside \<open>shared_pull\<close> of a queue holds its lock, and the head is one higher than it was.\<close>

definition restore_ok :: "'c scheduler \<Rightarrow> bool" where
  "restore_ok s \<longleftrightarrow> (\<forall>m < num_nodes s. \<forall>v h. holding (loop (nodes s ! m)) = Some (v, h) \<longrightarrow>
     v < num_nodes s \<and> raised_by (nodes s ! v) = Some m \<and> head (generic_tasks (nodes s ! v)) = h + 1)"

definition sched_inv :: "'c scheduler \<Rightarrow> bool" where
  "sched_inv s \<longleftrightarrow> finite (dom (tasks s)) \<and> created s = executed s + card (dom (tasks s)) \<and>
     sum_list (map node_ids (nodes s)) = mset_set (dom (tasks s)) \<and> restore_ok s \<and>
     (\<forall>m < num_nodes s. node_ok (num_nodes s) (created s) (nodes s ! m))"

lemma next_victim_lt: "next_victim n m v = Some v' \<Longrightarrow> (0 < n \<longrightarrow> v' < n) \<and> v' \<noteq> m"
  by (rule next_victim.raw_induct [where P = "\<lambda>n m v v'. (0 < n \<longrightarrow> v' < n) \<and> v' \<noteq> m"])
    (auto simp: Let_def split: if_splits)

declare next_victim.simps [code]

lemma next_victim_eq:
  assumes "2 \<le> n" "m < n"
  shows "next_victim n m v = Some (if (v + 1) mod n = m then (m + 1) mod n else (v + 1) mod n)"
proof -
  have "(m + 1) mod n \<noteq> m"
  proof (cases "m + 1 = n")
    case False
    then show ?thesis using assms by simp
  qed (use assms in auto)
  then show ?thesis
    by (subst next_victim.simps) (simp add: Let_def next_victim.simps [of n m m])
qed

lemma next_victim_alone: "next_victim 1 0 v = None"
  using next_victim_lt [of 1 0 v] by (cases "next_victim 1 0 v") auto

subsection \<open>Preservation\<close>

lemma node_okD:
  assumes "node_ok n c x"
  shows "probed_ok queue_bits (raised x) (generic_tasks x)" "unat (tail (generic_tasks x)) + pushes (frames x) \<le> c"
    "steal_from x < n" "f \<in> set (frames x) \<Longrightarrow> frame_ok n f" "loop_ok n (loop x)" "pulse_run (wakeup x)"
    "loop x \<noteq> Asleep \<Longrightarrow> waiter (wakeup x) = P_idle"
  using assms by (auto simp: node_ok_def)

lemma node_ok_mono: "node_ok n c x \<Longrightarrow> c \<le> c' \<Longrightarrow> node_ok n c' x"
  by (auto simp: node_ok_def)

lemma sched_invD:
  assumes "sched_inv s"
  shows "finite (dom (tasks s))" "created s = executed s + card (dom (tasks s))"
    "sum_list (map node_ids (nodes s)) = mset_set (dom (tasks s))"
    "m < num_nodes s \<Longrightarrow> node_ok (num_nodes s) (created s) (nodes s ! m)" "restore_ok s"
  using assms by (auto simp: sched_inv_def)

lemma set_node_simps [simp]:
  "tasks (set_node m x s) = tasks s" "created (set_node m x s) = created s" "executed (set_node m x s) = executed s"
  "num_nodes (set_node m x s) = num_nodes s" "nodes (set_node m x s) = (nodes s)[m := x]"
  by (simp_all add: set_node_def num_nodes_def)

lemma num_nodes_length: "num_nodes s = length (nodes s)"
  by (simp add: num_nodes_def)

lemma sum_list_update_mset:
  "m < length xs \<Longrightarrow> sum_list (map f (xs[m := x])) + f (xs ! m) = sum_list (map f xs) + (f x :: 'b multiset)"
  by (induction xs arbitrary: m) (auto split: nat.split simp: ac_simps)

lemmas sum_node_ids = sum_list_update_mset [where f = node_ids]

lemma node_ids_sum: "m < length xs \<Longrightarrow> i \<in># node_ids (xs ! m) \<Longrightarrow> i \<in># sum_list (map node_ids xs)"
  by (induction xs arbitrary: m) (auto simp: less_Suc_eq_0_disj)

text \<open>A task id a node has is in the task vector.\<close>

lemma node_id_task:
  assumes inv: "sched_inv s" and m: "m < num_nodes s" and i: "i \<in># node_ids (nodes s ! m)"
  obtains work where "tasks s i = Some work"
proof -
  have "m < length (nodes s)" using m by (simp add: num_nodes_def)
  then have "i \<in># sum_list (map node_ids (nodes s))" using i by (rule node_ids_sum)
  then have "i \<in> dom (tasks s)" using sched_invD(1,3) [OF inv] by simp
  then show ?thesis using that by blast
qed

text \<open>Changing one node, without moving tasks and without raising or restoring a head.\<close>

definition node_kept :: "'c node \<Rightarrow> 'c node \<Rightarrow> bool" where
  "node_kept x y \<longleftrightarrow> raised_by x = raised_by y \<and> head (generic_tasks x) = head (generic_tasks y) \<and>
     (holding (loop x) = None \<or> holding (loop x) = holding (loop y))"

lemma restore_ok_nodes: "nodes s = nodes s' \<Longrightarrow> restore_ok s = restore_ok s'"
  by (simp add: restore_ok_def num_nodes_def)

lemma restore_okD:
  assumes "restore_ok s" "m < num_nodes s" "holding (loop (nodes s ! m)) = Some (v, h)"
  shows "v < num_nodes s" "raised_by (nodes s ! v) = Some m" "head (generic_tasks (nodes s ! v)) = h + 1"
  using assms unfolding restore_ok_def by blast+

lemma restore_ok_set_node:
  assumes ok: "restore_ok s" and m: "m < num_nodes s" and kept: "node_kept x (nodes s ! m)"
  shows "restore_ok (set_node m x s)"
  unfolding restore_ok_def
proof (intro allI impI)
  fix j v h
  assume j: "j < num_nodes (set_node m x s)" and pc: "holding (loop (nodes (set_node m x s) ! j)) = Some (v, h)"
  have "holding (loop (nodes s ! j)) = Some (v, h)"
    using pc j m kept by (cases "j = m") (auto simp: node_kept_def num_nodes_def)
  then have "v < num_nodes s \<and> raised_by (nodes s ! v) = Some j \<and> head (generic_tasks (nodes s ! v)) = h + 1"
    using ok j by (simp add: restore_ok_def)
  then show "v < num_nodes (set_node m x s) \<and> raised_by (nodes (set_node m x s) ! v) = Some j \<and>
      head (generic_tasks (nodes (set_node m x s) ! v)) = h + 1"
    using m kept by (cases "v = m") (simp_all add: node_kept_def num_nodes_def)
qed

lemma inv_set_node:
  assumes inv: "sched_inv s" and m: "m < num_nodes s"
    and x: "node_ok (num_nodes s) (created s) x" "node_ids x = node_ids (nodes s ! m)" "node_kept x (nodes s ! m)"
  shows "sched_inv (set_node m x s)"
proof -
  have "sum_list (map node_ids ((nodes s)[m := x])) = sum_list (map node_ids (nodes s))"
    using sum_node_ids [of m "nodes s" x] m x(2) by (simp add: num_nodes_def)
  moreover have "restore_ok (set_node m x s)" using sched_invD(5) [OF inv] m x(3) by (rule restore_ok_set_node)
  ultimately show ?thesis
    using inv m x(1) by (auto simp: sched_inv_def num_nodes_def nth_list_update)
qed

text \<open>Pulling from the own queue and executing.\<close>

lemma size_wrap: "c + 2 ^ 8 < 2 ^ 32 \<Longrightarrow> node_ok n c x \<Longrightarrow> unat (tail (generic_tasks x)) + capacity queue_bits < 2 ^ 32"
  using node_okD(2) [of n c x] by (simp add: capacity_def queue_bits_def)

lemma pull_inv:
  assumes inv: "sched_inv s" and m: "m < num_nodes s" and x: "x = nodes s ! m"
    and y: "node_ok (num_nodes s) (created s) y" "node_ids y = node_ids x" "generic_tasks y = generic_tasks x" "node_kept y x"
    and z: "node_ok (num_nodes s) (created s) z" "node_ids z = node_ids x" "generic_tasks z = generic_tasks x" "node_kept z x"
  obtains x' where "pull_and_execute y z s = Inr x'" "sched_inv (set_node m x' s)"
proof -
  let ?q = "generic_tasks z"
  have ok: "probed_ok queue_bits (raised z) ?q" using node_okD(1) [OF z(1)] .
  show ?thesis
  proof (cases rule: wq.pullE [OF ok, case_names none some])
    case none
    then have "pull_and_execute y z s = Inr (y\<lparr>generic_tasks := generic_tasks y\<rparr>)"
      by (simp add: pull_and_execute_def z(3) y(3))
    then have "pull_and_execute y z s = Inr y" by simp
    moreover have "sched_inv (set_node m y s)" by (rule inv_set_node [OF inv m]) (use y x in simp_all)
    ultimately show ?thesis by (rule that)
  next
    case (some i q')
    note q = some
    have "raised z = raised x" using z(4) by (simp add: node_kept_def)
    then have "i \<in># node_ids z" using q(3) by (simp add: node_ids_def node_queue_def)
    then have "i \<in># node_ids (nodes s ! m)" using z(2) x by simp
    then obtain work where work: "tasks s i = Some work" by (rule node_id_task [OF inv m])
    let ?x' = "z\<lparr>generic_tasks := q', frames := Running i work # frames z\<rparr>"
    have "pull_and_execute y z s = Inr ?x'" using q(1) work by (simp add: pull_and_execute_def execute_def)
    moreover have "sched_inv (set_node m ?x' s)"
    proof (rule inv_set_node [OF inv m])
      show "node_ok (num_nodes s) (created s) ?x'" using z(1) q(2,4) by (auto simp: node_ok_def)
      have "node_ids ?x' = node_ids z" using q(3) by (simp add: node_ids_def node_queue_def)
      then show "node_ids ?x' = node_ids (nodes s ! m)" using z(2) x by simp
      show "node_kept ?x' (nodes s ! m)" using z(4) x pull_head [OF q(1)] by (auto simp: node_kept_def)
    qed
    ultimately show ?thesis by (rule that)
  qed
qed

lemma mset_cancel_mid: "(A :: 'a multiset) + (B + C) = D + B \<Longrightarrow> A + C = D"
  by (metis add.assoc add.commute add_right_cancel)

lemma mset_pair:
  fixes S :: "'a multiset"
  assumes "S1 + V = S + Y" "S2 + Z = S1 + X" "X + Y = Z + V"
  shows "S2 = S"
proof (rule multiset_eqI)
  fix a
  have "count S1 a + count V a = count S a + count Y a" "count S2 a + count Z a = count S1 a + count X a"
    "count X a + count Y a = count Z a + count V a"
    using assms [THEN arg_cong [where f = "\<lambda>M. count M a"]] by simp_all
  then show "count S2 a = count S a" by linarith
qed

text \<open>Changing the victim \<open>v\<close> and the thief \<open>m\<close>.\<close>

lemma sched_inv_pair:
  assumes inv: "sched_inv s" and m: "m < num_nodes s" and v: "v < num_nodes s"
    and y: "node_ok (num_nodes s) (created s) y"
    and x: "node_ok (num_nodes s) (created s) x"
    and ids: "node_ids x + node_ids y = node_ids ((nodes s)[v := y] ! m) + node_ids (nodes s ! v)"
    and restore: "restore_ok (set_node m x (set_node v y s))"
  shows "sched_inv (set_node m x (set_node v y s))"
proof -
  let ?z = "(nodes s)[v := y] ! m"
  have len: "m < length (nodes s)" "v < length (nodes s)" using m v by (simp_all add: num_nodes_def)
  have "sum_list (map node_ids ((nodes s)[v := y])) + node_ids (nodes s ! v) = sum_list (map node_ids (nodes s)) + node_ids y"
    by (rule sum_node_ids [OF len(2)])
  moreover have "sum_list (map node_ids ((nodes s)[v := y, m := x])) + node_ids ?z = sum_list (map node_ids ((nodes s)[v := y])) + node_ids x"
    using sum_node_ids [of m "(nodes s)[v := y]" x] len by simp
  ultimately have "sum_list (map node_ids ((nodes s)[v := y, m := x])) = sum_list (map node_ids (nodes s))"
    using ids by (rule mset_pair)
  moreover have "node_ok (num_nodes s) (created s) ((nodes s)[v := y, m := x] ! j)" if "j < num_nodes s" for j
    using that len x y sched_invD(4) [OF inv that] by (cases "j = m"; cases "j = v") (simp_all add: num_nodes_def)
  ultimately show ?thesis using inv restore by (simp add: sched_inv_def)
qed

lemma restore_ok_pair:
  assumes ok: "restore_ok s" and m: "m < num_nodes s" and v: "v < num_nodes s"
    and free: "raised_by (nodes s ! v) = None \<or> raised_by (nodes s ! v) = Some m"
    and x: "raised_by x = raised_by ((nodes s)[v := y] ! m)" "generic_tasks x = generic_tasks ((nodes s)[v := y] ! m)"
    and pc: "holding (loop x) = None \<or> holding (loop x) = Some (v, h) \<and> raised_by y = Some m \<and> head (generic_tasks y) = h + 1"
    and y: "loop y = loop (nodes s ! v)"
  shows "restore_ok (set_node m x (set_node v y s))"
  unfolding restore_ok_def
proof (intro allI impI)
  let ?s = "set_node m x (set_node v y s)"
  have len: "m < length (nodes s)" "v < length (nodes s)" using m v by (simp_all add: num_nodes_def)
  fix j w g
  assume j: "j < num_nodes ?s" and p: "holding (loop (nodes ?s ! j)) = Some (w, g)"
  show "w < num_nodes ?s \<and> raised_by (nodes ?s ! w) = Some j \<and> head (generic_tasks (nodes ?s ! w)) = g + 1"
  proof (cases "j = m")
    case True
    then have "holding (loop x) = Some (w, g)" using p len by simp
    then have "w = v" "raised_by y = Some m" "head (generic_tasks y) = g + 1" using pc by auto
    then show ?thesis using True len v x by (cases "v = m") simp_all
  next
    case False
    then have "holding (loop (nodes s ! j)) = Some (w, g)" using p j y len by (cases "j = v") (simp_all add: num_nodes_def)
    note w = restore_okD [OF ok _ this]
    have "w \<noteq> v" using free False w(2) j by auto
    then show ?thesis using w len x j by (cases "w = m") (simp_all add: num_nodes_def)
  qed
qed

text \<open>The steps of a steal: the head of the other queue is raised, then a task moves from one node to
  another or the head is restored.\<close>

lemma steal_inv:
  assumes inv: "sched_inv s" and m: "m < num_nodes s" and v: "v < num_nodes s"
    and few: "created s + 2 ^ 8 < 2 ^ 32"
    and pcs: "loop_ok (num_nodes s) (Probing v h yes no)" "loop (nodes s ! m) \<noteq> Asleep"
  obtains s' where "steal_and_execute m v acquired yes no s = Inr s'" "sched_inv s'"
    "created s' = created s" "num_nodes s' = num_nodes s"
proof -
  let ?y = "nodes s ! v" and ?n = "num_nodes s"
  have len: "m < length (nodes s)" "v < length (nodes s)" using m v by (simp_all add: num_nodes_def)
  have oky: "node_ok ?n (created s) ?y" using sched_invD(4) [OF inv v] .
  have okx: "node_ok ?n (created s) (nodes s ! m)" using sched_invD(4) [OF inv m] .
  have idle: "waiter (wakeup (nodes s ! m)) = P_idle" using node_okD(7) [OF okx] pcs(2) by simp
  show ?thesis
  proof (cases "acquired \<and> raised_by ?y = None")
    case False
    then have "steal_and_execute m v acquired yes no s = Inr (set_node m ((nodes s ! m)\<lparr>loop := no\<rparr>) s)"
      using len by (auto simp: steal_and_execute_def)
    moreover have "sched_inv (set_node m ((nodes s ! m)\<lparr>loop := no\<rparr>) s)"
      by (rule inv_set_node [OF inv m])
        (use okx pcs idle in \<open>auto simp: node_ok_def node_ids_def node_queue_def node_kept_def\<close>)
    ultimately show ?thesis by (rule that) simp_all
  next
    case True
    then have free: "raised_by ?y = None" and ok: "probed_ok queue_bits False (generic_tasks ?y)"
      using node_okD(1) [OF oky] by auto
    note q = wq.raise_law [OF ok size_wrap [OF few oky]]
    let ?y' = "?y\<lparr>generic_tasks := begin_steal (generic_tasks ?y), raised_by := Some m\<rparr>"
    let ?x = "(nodes s)[v := ?y'] ! m"
    let ?x' = "?x\<lparr>loop := Probing v (head (generic_tasks ?y)) yes no\<rparr>"
    let ?s' = "set_node m ?x' (set_node v ?y' s)"
    have eq: "steal_and_execute m v acquired yes no s = Inr ?s'"
      using True len by (simp add: steal_and_execute_def Let_def)
    have oky': "node_ok ?n (created s) ?y'" using oky q by (auto simp: node_ok_def)
    then have "node_ok ?n (created s) ?x" using okx len by (cases "v = m") simp_all
    moreover have "wakeup ?x = wakeup (nodes s ! m)" using len by (simp add: nth_list_update)
    ultimately have okx': "node_ok ?n (created s) ?x'" using pcs idle by (simp add: node_ok_def)
    have ids: "node_ids ?x' + node_ids ?y' = node_ids ?x + node_ids ?y"
      using q free by (simp add: node_ids_def node_queue_def)
    have "restore_ok ?s'"
      by (rule restore_ok_pair [OF sched_invD(5) [OF inv] m v]) (use free in \<open>simp_all add: begin_steal_def\<close>)
    then have "sched_inv ?s'" by (rule sched_inv_pair [OF inv m v oky' okx' ids])
    then show ?thesis using that [OF eq] by simp
  qed
qed

text \<open>The queue of the victim, seen by the thief that has raised its head.\<close>

lemma holding_queue:
  assumes inv: "sched_inv s" and m: "m < num_nodes s" and pc: "holding (loop (nodes s ! m)) = Some (v, h)"
  shows "v < num_nodes s" "raised_by (nodes s ! v) = Some m" "head (generic_tasks (nodes s ! v)) = h + 1"
    "probed_ok queue_bits True (generic_tasks (nodes s ! v))" "waiter (wakeup (nodes s ! m)) = P_idle"
proof -
  note v = restore_okD [OF sched_invD(5) [OF inv] m pc]
  show "v < num_nodes s" "raised_by (nodes s ! v) = Some m" "head (generic_tasks (nodes s ! v)) = h + 1"
    by (fact v)+
  show "probed_ok queue_bits True (generic_tasks (nodes s ! v))"
    using node_okD(1) [OF sched_invD(4) [OF inv v(1)]] v(2) by simp
  have "loop (nodes s ! m) \<noteq> Asleep" using pc by auto
  then show "waiter (wakeup (nodes s ! m)) = P_idle" using node_okD(7) [OF sched_invD(4) [OF inv m]] by simp
qed

lemma probe_inv:
  assumes inv: "sched_inv s" and m: "m < num_nodes s" and pc: "loop (nodes s ! m) = Probing v h yes no"
    and few: "created s + 2 ^ 8 < 2 ^ 32"
  obtains s' where "probe_step m v h yes no s = Inr s'" "sched_inv s'" "created s' = created s" "num_nodes s' = num_nodes s"
proof -
  let ?y = "nodes s ! v" and ?n = "num_nodes s"
  have "holding (loop (nodes s ! m)) = Some (v, h)" using pc by simp
  note v = holding_queue [OF inv m this]
  have len: "m < length (nodes s)" "v < length (nodes s)" using m v(1) by (simp_all add: num_nodes_def)
  have oky: "node_ok ?n (created s) ?y" using sched_invD(4) [OF inv v(1)] .
  have okx: "node_ok ?n (created s) (nodes s ! m)" using sched_invD(4) [OF inv m] .
  have "after_steal yes" and no: "loop_ok ?n no" "holding no = None" "no \<noteq> Asleep"
    using node_okD(5) [OF okx] pc by simp_all
  then have yes: "loop_ok ?n yes" "holding yes = None" "yes \<noteq> Asleep" by (cases yes; simp)+
  note pcs = yes no
  have h: "head (generic_tasks ?y) - 1 = h" using v(3) by simp
  show ?thesis
  proof (cases rule: wq.probeE [OF v(4) size_wrap [OF few oky], unfolded h, case_names none some])
    case none
    then have "probe_step m v h yes no s = Inr (set_node m ((nodes s ! m)\<lparr>loop := Restoring v h no\<rparr>) s)"
      using len by (simp add: probe_step_def)
    moreover have "sched_inv (set_node m ((nodes s ! m)\<lparr>loop := Restoring v h no\<rparr>) s)"
      by (rule inv_set_node [OF inv m])
        (use okx pc pcs in \<open>simp_all add: node_ok_def node_ids_def node_queue_def node_kept_def\<close>)
    ultimately show ?thesis by (rule that) simp_all
  next
    case (some i)
    have "i \<in># node_ids ?y" using some(3) v(2) by (simp add: node_ids_def node_queue_def)
    then obtain work where work: "tasks s i = Some work" by (rule node_id_task [OF inv v(1)])
    let ?y' = "?y\<lparr>raised_by := None\<rparr>"
    let ?x = "(nodes s)[v := ?y'] ! m"
    let ?x' = "?x\<lparr>loop := yes, frames := Running i work # frames ?x\<rparr>"
    let ?s' = "set_node m ?x' (set_node v ?y' s)"
    have eq: "probe_step m v h yes no s = Inr ?s'"
      using some(1) len work by (simp add: probe_step_def execute_def Let_def)
    have oky': "node_ok ?n (created s) ?y'" using oky some(2) by (auto simp: node_ok_def)
    then have "node_ok ?n (created s) ?x" using okx len by (cases "v = m") simp_all
    moreover have "wakeup ?x = wakeup (nodes s ! m)" using len by (simp add: nth_list_update)
    ultimately have okx': "node_ok ?n (created s) ?x'" using pcs v(5) by (auto simp: node_ok_def)
    have ids: "node_ids ?x' + node_ids ?y' = node_ids ?x + node_ids ?y"
      using some(3) v(2) by (simp add: node_ids_def node_queue_def)
    have "restore_ok ?s'"
      by (rule restore_ok_pair [OF sched_invD(5) [OF inv] m v(1)]) (use v pcs in simp_all)
    then have "sched_inv ?s'" by (rule sched_inv_pair [OF inv m v(1) oky' okx' ids])
    then show ?thesis using that [OF eq] by simp
  qed
qed

lemma restore_inv:
  assumes inv: "sched_inv s" and m: "m < num_nodes s" and pc: "loop (nodes s ! m) = Restoring v h pc'"
  obtains s' where "restore_step m v h pc' s = Inr s'" "sched_inv s'" "created s' = created s" "num_nodes s' = num_nodes s"
proof -
  let ?y = "nodes s ! v" and ?n = "num_nodes s"
  have "holding (loop (nodes s ! m)) = Some (v, h)" using pc by simp
  note v = holding_queue [OF inv m this]
  have len: "m < length (nodes s)" "v < length (nodes s)" using m v(1) by (simp_all add: num_nodes_def)
  have oky: "node_ok ?n (created s) ?y" using sched_invD(4) [OF inv v(1)] .
  have okx: "node_ok ?n (created s) (nodes s ! m)" using sched_invD(4) [OF inv m] .
  have pc_ok: "loop_ok ?n pc'" "holding pc' = None" "pc' \<noteq> Asleep"
    using node_okD(5) [OF okx] pc by simp_all
  have q: "probed_ok queue_bits False (undo_steal h (generic_tasks ?y))"
    "probed_contents queue_bits False (undo_steal h (generic_tasks ?y)) = probed_contents queue_bits True (generic_tasks ?y)"
    "unat (tail (undo_steal h (generic_tasks ?y))) = unat (tail (generic_tasks ?y))"
    using wq.undo_law [OF v(4)] v(3) by simp_all
  let ?y' = "?y\<lparr>generic_tasks := undo_steal h (generic_tasks ?y), raised_by := None\<rparr>"
  let ?x = "(nodes s)[v := ?y'] ! m"
  let ?x' = "?x\<lparr>loop := pc'\<rparr>"
  let ?s' = "set_node m ?x' (set_node v ?y' s)"
  have eq: "restore_step m v h pc' s = Inr ?s'" using len by (simp add: restore_step_def Let_def)
  have oky': "node_ok ?n (created s) ?y'" using oky q(1,3) by (auto simp: node_ok_def)
  then have "node_ok ?n (created s) ?x" using okx len by (cases "v = m") simp_all
  moreover have "wakeup ?x = wakeup (nodes s ! m)" using len by (simp add: nth_list_update)
  ultimately have okx': "node_ok ?n (created s) ?x'" using pc_ok v(5) by (auto simp: node_ok_def)
  have ids: "node_ids ?x' + node_ids ?y' = node_ids ?x + node_ids ?y"
    using q(2) v(2) by (simp add: node_ids_def node_queue_def)
  have "restore_ok ?s'"
    by (rule restore_ok_pair [OF sched_invD(5) [OF inv] m v(1)]) (use v pc_ok in simp_all)
  then have "sched_inv ?s'" by (rule sched_inv_pair [OF inv m v(1) oky' okx' ids])
  then show ?thesis using that [OF eq] by simp
qed

lemma send_pulse_ok: "node_ok n c x \<Longrightarrow> node_ok n c (x\<lparr>wakeup := send_pulse (wakeup x)\<rparr>)"
proof -
  assume x: "node_ok n c x"
  have "pulse_run (send_pulse (wakeup x))" using node_okD(6) [OF x] by (rule pulse_run.step) (rule pulse_step.send)
  moreover have "waiter (send_pulse (wakeup x)) = waiter (wakeup x)" by (simp add: send_pulse_def Let_def)
  ultimately show ?thesis using x by (auto simp: node_ok_def)
qed

text \<open>A step that succeeds and keeps the invariant.\<close>

definition step_ok :: "'c scheduler \<Rightarrow> 'c scheduler res \<Rightarrow> bool" where
  "step_ok s r \<longleftrightarrow> (\<exists>s'. r = Inr s' \<and> sched_inv s' \<and> created s \<le> created s' \<and> num_nodes s' = num_nodes s)"

lemma step_ok_move:
  assumes inv: "sched_inv s" and m: "m < num_nodes s"
    and x: "node_ok (num_nodes s) (created s) x" "node_ids x = node_ids (nodes s ! m)" "node_kept x (nodes s ! m)"
  shows "step_ok s (Inr (set_node m x s))"
  using inv_set_node [OF assms] by (simp add: step_ok_def)

lemmas node_defs = node_ok_def node_ids_def node_queue_def node_kept_def

text \<open>The call on top of the stack of node \<open>m\<close> becomes other calls with the same tasks.\<close>

lemma step_ok_frames:
  assumes inv: "sched_inv s" and m: "m < num_nodes s" and f: "frames (nodes s ! m) = f # fs"
    and gs: "frame_ids gs = frame_ids (f # fs)" "pushes gs = pushes (f # fs)"
      "\<forall>g \<in> set gs. frame_ok (num_nodes s) g \<or> g \<in> set fs"
  shows "step_ok s (Inr (set_node m ((nodes s ! m)\<lparr>frames := gs\<rparr>) s))"
    "step_ok s (Inr (set_node m ((nodes s ! m)\<lparr>stop_flag := b, frames := gs\<rparr>) s))"
  using sched_invD(4) [OF inv m] f gs
  by (intro step_ok_move [OF inv m]; auto simp: node_defs)+

text \<open>Another node is changed first.\<close>

lemma step_ok_two:
  assumes inv: "sched_inv s" and m: "m < num_nodes s" and f: "frames (nodes s ! m) = f # fs" and i: "i < num_nodes s"
    and y: "node_ok (num_nodes s) (created s) y" "node_ids y = node_ids (nodes s ! i)" "node_kept y (nodes s ! i)"
      "frames y = frames (nodes s ! i)"
    and gs: "frame_ids gs = frame_ids (f # fs)" "pushes gs = pushes (f # fs)"
      "\<forall>g \<in> set gs. frame_ok (num_nodes s) g \<or> g \<in> set fs"
  shows "step_ok s (let s = set_node i y s; x = nodes s ! m in Inr (set_node m (x\<lparr>frames := gs\<rparr>) s))"
proof -
  let ?s = "set_node i y s"
  have inv': "sched_inv ?s" by (rule inv_set_node [OF inv i y(1-3)])
  have "frames (nodes ?s ! m) = f # fs" using f y(4) i m by (cases "i = m") (simp_all add: num_nodes_def)
  then have "step_ok ?s (Inr (set_node m ((nodes ?s ! m)\<lparr>frames := gs\<rparr>) ?s))"
    by (intro step_ok_frames(1) [OF inv']) (use m gs in simp_all)
  then show ?thesis by (simp add: step_ok_def Let_def)
qed

text \<open>\<open>new_task\<close>, call by call.\<close>

lemma creating_ok:
  assumes inv: "sched_inv s" and m: "m < num_nodes s" and f: "frames (nodes s ! m) = Creating work # fs"
    and fresh: "tasks s fresh = None"
  shows "step_ok s (new_task_step fresh m (Creating work) fs s)"
proof -
  let ?x = "nodes s ! m" and ?n = "num_nodes s" and ?c = "created s"
  let ?x' = "?x\<lparr>frames := Pushing fresh # fs\<rparr>"
  let ?s' = "set_node m ?x' s\<lparr>tasks := (tasks s)(fresh \<mapsto> work), created := ?c + 1\<rparr>"
  have x: "node_ok ?n ?c ?x" and len: "m < length (nodes s)" using sched_invD(4) [OF inv m] m by (simp_all add: num_nodes_def)
  have "node_ids ?x' = node_ids ?x + {#fresh#}" using f by (simp add: node_ids_def node_queue_def)
  then have "sum_list (map node_ids ((nodes s)[m := ?x'])) = sum_list (map node_ids (nodes s)) + {#fresh#}"
    using sum_node_ids [OF len, of ?x'] by simp
  also have "\<dots> = mset_set (insert fresh (dom (tasks s)))"
    using sched_invD(1,3) [OF inv] fresh by (simp add: domIff)
  finally have sum: "sum_list (map node_ids (nodes ?s')) = mset_set (dom (tasks ?s'))" by simp
  have "node_ok ?n (?c + 1) ?x'" using x f by (auto simp: node_ok_def)
  then have "node_ok ?n (?c + 1) ((nodes s)[m := ?x'] ! j)" if "j < ?n" for j
    using that len node_ok_mono [OF sched_invD(4) [OF inv that], of "?c + 1"] by (cases "j = m") simp_all
  moreover have "card (dom (tasks ?s')) = Suc (card (dom (tasks s)))"
    using sched_invD(1) [OF inv] fresh by (simp add: domIff)
  moreover have "restore_ok (set_node m ?x' s)"
    by (rule restore_ok_set_node [OF sched_invD(5) [OF inv] m]) (simp add: node_kept_def)
  then have "restore_ok ?s'" by (rule restore_ok_nodes [THEN iffD1, rotated]) simp
  ultimately have "sched_inv ?s'"
    using sum sched_invD(1,2) [OF inv] by (simp add: sched_inv_def num_nodes_length)
  then show ?thesis by (simp add: new_task_step_def step_ok_def num_nodes_length)
qed

lemma pushing_ok:
  assumes inv: "sched_inv s" and m: "m < num_nodes s" and f: "frames (nodes s ! m) = Pushing i # fs"
    and few: "created s + 2 ^ 8 < 2 ^ 32"
  shows "step_ok s (new_task_step fresh m (Pushing i) fs s)"
proof -
  let ?x = "nodes s ! m" and ?n = "num_nodes s"
  have x: "node_ok ?n (created s) ?x" and n: "0 < ?n" using sched_invD(4) [OF inv m] m by simp_all
  show ?thesis
  proof (cases rule: wq.pushE [OF node_okD(1) [OF x] size_wrap [OF few x], of i, case_names refused pushed])
    case (pushed q)
    have "step_ok s (Inr (set_node m (?x\<lparr>generic_tasks := q, frames := Delegating ((m + 1) mod ?n) # fs\<rparr>) s))"
      by (rule step_ok_move [OF inv m]) (use x f pushed n push_head [OF pushed(1)] in \<open>auto simp: node_defs\<close>)
    then show ?thesis using pushed(1) by (simp add: new_task_step_def Let_def)
  next
    case refused
    then have "new_task_step fresh m (Pushing i) fs s = Inr (set_node m (?x\<lparr>frames := Full i # fs\<rparr>) s)"
      by (simp add: new_task_step_def Let_def)
    then show ?thesis using step_ok_frames(1) [OF inv m f, of "Full i # fs"] by simp
  qed
qed

lemma full_ok:
  assumes inv: "sched_inv s" and m: "m < num_nodes s" and f: "frames (nodes s ! m) = Full i # fs"
  shows "step_ok s (new_task_step fresh m (Full i) fs s)"
proof -
  let ?x = "nodes s ! m"
  let ?y = "?x\<lparr>frames := Pushing i # fs\<rparr>"
  have y: "node_ok (num_nodes s) (created s) ?y" "node_ids ?y = node_ids ?x" "generic_tasks ?y = generic_tasks ?x" "node_kept ?y ?x"
    using sched_invD(4) [OF inv m] f by (auto simp: node_defs)
  obtain x' where "pull_and_execute ?y ?y s = Inr x'" "sched_inv (set_node m x' s)"
    by (rule pull_inv [OF inv m refl y y])
  then show ?thesis by (simp add: new_task_step_def Let_def step_ok_def)
qed

lemma delegating_ok:
  assumes inv: "sched_inv s" and m: "m < num_nodes s" and f: "frames (nodes s ! m) = Delegating i # fs"
  shows "step_ok s (new_task_step fresh m (Delegating i) fs s)"
proof -
  let ?x = "nodes s ! m" and ?n = "num_nodes s"
  have i: "i < ?n" "i < length (nodes s)" using node_okD(4) [OF sched_invD(4) [OF inv m]] f by (force simp: num_nodes_def)+
  note stay = step_ok_frames(1) [OF inv m f]
  show ?thesis
  proof (cases "size_queue (generic_tasks ?x) > 1 \<and> i \<noteq> m")
    case False
    then have "new_task_step fresh m (Delegating i) fs s = Inr (set_node m (?x\<lparr>frames := fs\<rparr>) s)"
      by (auto simp: new_task_step_def Let_def)
    then show ?thesis using stay [of fs] by simp
  next
    case go: True
    show ?thesis
    proof (cases "available (nodes s ! i)")
      case True
      let ?y = "(nodes s ! i)\<lparr>available := False\<rparr>"
      have "step_ok s (let s = set_node i ?y s; x = nodes s ! m in Inr (set_node m (x\<lparr>frames := Waking i # fs\<rparr>) s))"
        by (rule step_ok_two [OF inv m f i(1)]) (use sched_invD(4) [OF inv i(1)] i in \<open>auto simp: node_defs\<close>)
      then show ?thesis using go True i by (simp add: new_task_step_def Let_def)
    next
      case False
      then have "new_task_step fresh m (Delegating i) fs s = Inr (set_node m (?x\<lparr>frames := Delegating ((i + 1) mod ?n) # fs\<rparr>) s)"
        using go i by (simp add: new_task_step_def Let_def)
      then show ?thesis using stay [of "Delegating ((i + 1) mod ?n) # fs"] m by auto
    qed
  qed
qed

text \<open>Waking and stopping other nodes.\<close>

lemma wakeup_step_ok:
  assumes inv: "sched_inv s" and m: "m < num_nodes s" and f: "frames (nodes s ! m) = f # fs"
    and call: "f = Waking i \<or> f = Pulsing i"
  shows "step_ok s (wakeup_step m f fs s)"
proof -
  have i: "i < num_nodes s" "i < length (nodes s)"
    using node_okD(4) [OF sched_invD(4) [OF inv m]] f call by (force simp: num_nodes_def)+
  have y: "node_ok (num_nodes s) (created s) (nodes s ! i)" using sched_invD(4) [OF inv i(1)] .
  from call show ?thesis
  proof
    assume w: "f = Waking i"
    show ?thesis using step_ok_two [OF inv m f i(1), of "(nodes s ! i)\<lparr>steal_from := m\<rparr>" "Pulsing i # fs"] y m i w
      by (simp add: wakeup_step_def node_defs)
  next
    assume p: "f = Pulsing i"
    show ?thesis
      using step_ok_two [OF inv m f i(1), of "(nodes s ! i)\<lparr>wakeup := send_pulse (wakeup (nodes s ! i))\<rparr>" fs]
        send_pulse_ok [OF y] i p
      by (simp add: wakeup_step_def node_ids_def node_queue_def node_kept_def)
  qed
qed

lemma stop_step_ok:
  assumes inv: "sched_inv s" and m: "m < num_nodes s" and f: "frames (nodes s ! m) = Stopping i # fs"
  shows "step_ok s (stop_step m i fs s)"
proof (cases "i < num_nodes s")
  case True
  show ?thesis
    using step_ok_two [OF inv m f True, of "(nodes s ! i)\<lparr>stop_flag := True\<rparr>" "Pulsing i # Stopping (i + 1) # fs"]
      sched_invD(4) [OF inv True] True
    by (simp add: stop_step_def Let_def node_defs)
next
  case False
  then show ?thesis using step_ok_frames(1) [OF inv m f, of fs] by (simp add: stop_step_def)
qed

text \<open>Running a closure.\<close>

lemma finish_ok:
  assumes inv: "sched_inv s" and m: "m < num_nodes s" and f: "frames (nodes s ! m) = Running i [] # fs"
  shows "step_ok s (closure_step m i [] fs s)"
proof -
  let ?x = "nodes s ! m" and ?n = "num_nodes s" and ?c = "created s"
  let ?x' = "?x\<lparr>frames := fs\<rparr>"
  let ?s' = "set_node m ?x' s\<lparr>tasks := (tasks s)(i := None), executed := executed s + 1\<rparr>"
  have x: "node_ok ?n ?c ?x" and len: "m < length (nodes s)" using sched_invD(4) [OF inv m] m by (simp_all add: num_nodes_def)
  have "i \<in># node_ids ?x" using f by (simp add: node_ids_def)
  then obtain work where work: "tasks s i = Some work" by (rule node_id_task [OF inv m])
  have x_eq: "node_ids ?x = node_ids ?x' + {#i#}" using f by (simp add: node_ids_def node_queue_def)
  have "sum_list (map node_ids ((nodes s)[m := ?x'])) + {#i#} = sum_list (map node_ids (nodes s))"
    by (rule mset_cancel_mid [OF sum_node_ids [OF len, of ?x', unfolded x_eq]])
  then have "sum_list (map node_ids ((nodes s)[m := ?x'])) = mset_set (dom (tasks s)) - {#i#}"
    using sched_invD(3) [OF inv] by (metis add_diff_cancel_right')
  also have "\<dots> = mset_set (dom (tasks s) - {i})"
    using sched_invD(1) [OF inv] work by (simp add: mset_set_Diff domI)
  finally have sum: "sum_list (map node_ids (nodes ?s')) = mset_set (dom (tasks ?s'))" by simp
  have "node_ok ?n ?c ?x'" using x f by (auto simp: node_ok_def)
  then have "node_ok ?n ?c ((nodes s)[m := ?x'] ! j)" if "j < ?n" for j
    using that len sched_invD(4) [OF inv that] by (cases "j = m") simp_all
  moreover have "card (dom (tasks s)) = Suc (card (dom (tasks s) - {i}))"
    using sched_invD(1) [OF inv] work by (metis card_Suc_Diff1 domI)
  moreover have "restore_ok (set_node m ?x' s)"
    by (rule restore_ok_set_node [OF sched_invD(5) [OF inv] m]) (simp add: node_kept_def)
  then have "restore_ok ?s'" by (rule restore_ok_nodes [THEN iffD1, rotated]) simp
  ultimately have "sched_inv ?s'"
    using sum sched_invD(1,2) [OF inv] by (simp add: sched_inv_def num_nodes_length)
  then show ?thesis by (simp add: closure_step_def step_ok_def num_nodes_length)
qed

lemma sched_inv_client: "sched_inv (s\<lparr>client := c\<rparr>) = sched_inv s"
  by (simp add: sched_inv_def restore_ok_def num_nodes_def)

lemma closure_step_ok:
  assumes inv: "sched_inv s" and m: "m < num_nodes s" and f: "frames (nodes s ! m) = Running i acts # fs"
  shows "step_ok s (closure_step m i acts fs s)"
proof (cases acts)
  case Nil
  then show ?thesis using finish_ok [OF inv m] f by simp
next
  case (Cons a rest)
  note stay = step_ok_frames [OF inv m f]
  show ?thesis
  proof (cases a)
    case (New work)
    then show ?thesis using stay(1) [of "Creating work # Running i rest # fs"] Cons by (simp add: closure_step_def)
  next
    case Stop
    then show ?thesis
      using stay(2) [of "Running i rest # fs"] stay(2) [of "Stopping 0 # Running i rest # fs"] Cons
      by (simp add: closure_step_def Let_def)
  next
    case (Touch h)
    obtain c cont where h: "h (client s) = (c, cont)" by (cases "h (client s)") simp
    show ?thesis using stay(1) [of "Running i (cont @ rest) # fs"] Cons Touch h
      by (simp add: closure_step_def step_ok_def sched_inv_client num_nodes_length)
  qed
qed

lemma frame_step_ok:
  assumes inv: "sched_inv s" and m: "m < num_nodes s" and fs: "frames (nodes s ! m) \<noteq> []"
    and fresh: "tasks s fresh = None" and few: "created s + 2 ^ 8 < 2 ^ 32"
  shows "step_ok s (frame_step fresh m s)"
proof -
  obtain f fs where f: "frames (nodes s ! m) = f # fs" using fs by (cases "frames (nodes s ! m)") auto
  note ok = creating_ok [OF inv m _ fresh] pushing_ok [OF inv m _ few] full_ok [OF inv m] delegating_ok [OF inv m]
    wakeup_step_ok [OF inv m] stop_step_ok [OF inv m] closure_step_ok [OF inv m]
  show ?thesis using f ok by (cases f) (simp_all add: frame_step_def)
qed

lemma step_ok_pull:
  assumes inv: "sched_inv s" and m: "m < num_nodes s" and idle: "loop (nodes s ! m) \<noteq> Asleep"
  shows "step_ok s (bind_res (pull_and_execute ((nodes s ! m)\<lparr>loop := Offer v\<rparr>) (nodes s ! m) s)
    (\<lambda>x. Inr (set_node m x s)))"
proof -
  have x: "node_ok (num_nodes s) (created s) (nodes s ! m)" using sched_invD(4) [OF inv m] .
  then have y: "node_ok (num_nodes s) (created s) ((nodes s ! m)\<lparr>loop := Offer v\<rparr>)"
    using idle by (auto simp: node_ok_def)
  obtain x' where "pull_and_execute ((nodes s ! m)\<lparr>loop := Offer v\<rparr>) (nodes s ! m) s = Inr x'" "sched_inv (set_node m x' s)"
    by (rule pull_inv [OF inv m refl y _ _ _ x]) (simp_all add: node_ids_def node_queue_def node_kept_def)
  then show ?thesis by (simp add: step_ok_def)
qed

lemma step_ok_steal:
  assumes "sched_inv s" "m < num_nodes s" "v < num_nodes s" "created s + 2 ^ 8 < 2 ^ 32"
    and "loop_ok (num_nodes s) (Probing v 0 yes no)" "loop (nodes s ! m) \<noteq> Asleep"
  shows "step_ok s (steal_and_execute m v acquired yes no s)"
  by (rule steal_inv [OF assms, of acquired]) (simp add: step_ok_def)

lemma step_ok_probe:
  assumes "sched_inv s" "m < num_nodes s" "loop (nodes s ! m) = Probing v h yes no" "created s + 2 ^ 8 < 2 ^ 32"
  shows "step_ok s (probe_step m v h yes no s)"
  by (rule probe_inv [OF assms]) (simp add: step_ok_def)

lemma step_ok_restore:
  assumes "sched_inv s" "m < num_nodes s" "loop (nodes s ! m) = Restoring v h pc"
  shows "step_ok s (restore_step m v h pc s)"
  by (rule restore_inv [OF assms]) (simp add: step_ok_def)

lemma loop_step_ok:
  assumes inv: "sched_inv s" and m: "m < num_nodes s" and few: "created s + 2 ^ 8 < 2 ^ 32"
  shows "step_ok s (loop_step acquired m s)"
proof -
  let ?x = "nodes s ! m" and ?n = "num_nodes s" and ?c = "created s"
  have x: "node_ok ?n ?c ?x" using sched_invD(4) [OF inv m] .
  note X = node_okD [OF x]
  note move = step_ok_move [OF inv m]
  have stay: "step_ok s (Inr s)" using inv by (simp add: step_ok_def)
  have n: "0 < ?n" using m by simp
  show ?thesis
  proof (cases "loop ?x")
    case Begin
    have "step_ok s (Inr (set_node m (?x\<lparr>loop := Deplete (steal_from ?x)\<rparr>) s))"
      by (rule move) (use x Begin in \<open>auto simp: node_defs\<close>)
    then show ?thesis using Begin by (simp add: loop_step_def Let_def)
  next
    case (Deplete v)
    then show ?thesis using step_ok_pull [OF inv m, of v] by (simp add: loop_step_def Let_def)
  next
    case (Check v e)
    have "step_ok s (Inr (set_node m (?x\<lparr>loop := (if stop_flag ?x then Exit else Pick v e)\<rparr>) s))"
      by (rule move) (use x Check in \<open>simp_all add: node_defs\<close>)
    then show ?thesis using Check by (simp add: loop_step_def Let_def)
  next
    case (Pick v e)
    have "step_ok s (Inr (set_node m (?x\<lparr>loop := Steal v' e\<rparr>) s))" if "next_victim ?n m v = Some v'" for v'
      by (rule move) (use next_victim_lt [OF that] n x Pick in \<open>simp_all add: node_defs\<close>)
    then show ?thesis using Pick stay by (simp add: loop_step_def Let_def split: option.split)
  next
    case (Steal v e)
    then have "step_ok s (steal_and_execute m v acquired (Stole v) (if e + 1 = ?n then Sleep else Check v (e + 1)) s)"
      using X(5) by (intro step_ok_steal [OF inv m _ few]) simp_all
    then show ?thesis using Steal by (simp add: loop_step_def Let_def)
  next
    case (Probing v h yes no)
    then show ?thesis using step_ok_probe [OF inv m _ few] by (simp add: loop_step_def Let_def)
  next
    case (Restoring v h pc)
    then show ?thesis using step_ok_restore [OF inv m] by (simp add: loop_step_def Let_def)
  next
    case (Stole v)
    have "step_ok s (Inr (set_node m (?x\<lparr>available := False, loop := (if available ?x then Drain v else Interleaved v)\<rparr>) s))"
      by (rule move) (use x Stole in \<open>auto simp: node_defs\<close>)
    then show ?thesis using Stole by (simp add: loop_step_def Let_def)
  next
    case (Interleaved v)
    have "step_ok s (Inr (set_node m (?x\<lparr>loop := (if v \<noteq> steal_from ?x then Retry v (steal_from ?x) else Drain v)\<rparr>) s))"
      by (rule move) (use x Interleaved in \<open>auto simp: node_defs\<close>)
    then show ?thesis using Interleaved by (simp add: loop_step_def Let_def)
  next
    case (Retry v w)
    then have "step_ok s (steal_and_execute m w acquired (Drain w) (Drain v) s)"
      using X(5) by (intro step_ok_steal [OF inv m _ few]) simp_all
    then show ?thesis using Retry by (simp add: loop_step_def Let_def)
  next
    case Sleep
    then have idle: "waiter (wakeup ?x) = P_idle" using X(7) by simp
    then have "\<not> asleep (wakeup ?x)" using pulse_run_inv [OF X(6)] by simp
    then obtain w where w: "wait_pulse Check_failed (wakeup ?x) = Inr w" by (simp add: wait_pulse_def)
    then have "pulse_run w" using X(6) idle by (auto intro: pulse_run.step pulse_step.wait)
    then have "step_ok s (Inr (set_node m (?x\<lparr>wakeup := w, loop := Asleep\<rparr>) s))"
      by (intro move) (use x in \<open>simp_all add: node_defs\<close>)
    then show ?thesis using Sleep w by (simp add: loop_step_def Let_def)
  next
    case Asleep
    have "step_ok s (Inr (set_node m (?x\<lparr>loop := Awake\<rparr>) s))" if "waiter (wakeup ?x) = P_idle"
      by (rule move) (use x that in \<open>simp_all add: node_defs\<close>)
    then show ?thesis using Asleep stay by (simp add: loop_step_def Let_def)
  next
    case Awake
    have "step_ok s (Inr (set_node m (?x\<lparr>loop := Retry (steal_from ?x) (steal_from ?x)\<rparr>) s))"
      by (rule move) (use x Awake in \<open>auto simp: node_defs\<close>)
    then show ?thesis using Awake by (simp add: loop_step_def Let_def)
  next
    case (Drain v)
    then show ?thesis using step_ok_pull [OF inv m, of v] by (simp add: loop_step_def Let_def)
  next
    case (Offer v)
    have "step_ok s (Inr (set_node m (?x\<lparr>available := True, loop := Check v 0\<rparr>) s))"
      by (rule move) (use x Offer in \<open>auto simp: node_defs\<close>)
    then show ?thesis using Offer by (simp add: loop_step_def Let_def)
  next
    case Exit
    then show ?thesis using stay by (simp add: loop_step_def)
  qed
qed

lemma wake_step_ok:
  assumes inv: "sched_inv s" and m: "m < num_nodes s" and w: "wake_step (wakeup (nodes s ! m)) w"
  shows "step_ok s (Inr (set_node m ((nodes s ! m)\<lparr>wakeup := w\<rparr>) s))"
proof (rule step_ok_move [OF inv m])
  have x: "node_ok (num_nodes s) (created s) (nodes s ! m)" using sched_invD(4) [OF inv m] .
  have "pulse_run w" using node_okD(6) [OF x] w by (auto intro: pulse_run.step pulse_step.wake)
  moreover have "waiter w = P_idle" if "waiter (wakeup (nodes s ! m)) = P_idle" using w that by cases auto
  ultimately show "node_ok (num_nodes s) (created s) ((nodes s ! m)\<lparr>wakeup := w\<rparr>)" using x by (auto simp: node_ok_def)
qed (simp_all add: node_ids_def node_queue_def node_kept_def)

lemma attach_all_ok:
  assumes "\<forall>x \<in> set xs. \<not> attached x"
  shows "\<exists>ys. attach_all n i xs = Inr ys \<and> length ys = length xs \<and>
    (\<forall>j < length xs. ys ! j = (xs ! j)\<lparr>attached := True, steal_from := next_node n (i + j)\<rparr>)"
  using assms
proof (induction xs arbitrary: i)
  case Nil
  then show ?case by simp
next
  case (Cons x xs)
  have fresh: "\<forall>x \<in> set xs. \<not> attached x" using Cons.prems by simp
  from Cons.IH [of "i + 1", OF fresh] obtain ys where ys: "attach_all n (i + 1) xs = Inr ys" "length ys = length xs"
    "\<forall>j < length xs. ys ! j = (xs ! j)\<lparr>attached := True, steal_from := next_node n (i + 1 + j)\<rparr>"
    by (elim exE conjE) (rule that)
  let ?y = "x\<lparr>attached := True, steal_from := next_node n i\<rparr>"
  have eq: "attach_all n i (x # xs) = Inr (?y # ys)" using ys(1) Cons.prems by (simp add: attach_def)
  have "(?y # ys) ! j = ((x # xs) ! j)\<lparr>attached := True, steal_from := next_node n (i + j)\<rparr>"
    if "j < length (x # xs)" for j
  proof (cases j)
    case 0
    then show ?thesis by simp
  next
    case (Suc l)
    then have "l < length xs" using that by simp
    then have "ys ! l = (xs ! l)\<lparr>attached := True, steal_from := next_node n (i + 1 + l)\<rparr>" using ys(3) by blast
    then show ?thesis using Suc by simp
  qed
  then show ?case using eq ys(2) by (intro exI [of _ "?y # ys"]) simp
qed

lemma sum_list_all_empty: "\<forall>x \<in> set xs. f x = {#} \<Longrightarrow> sum_list (map f xs) = {#}"
  by (induction xs) auto

lemma start_node_ok:
  assumes "0 < n" "length es = capacity queue_bits"
  shows "node_ok n 0 ((new_node es)\<lparr>attached := True, steal_from := next_node n j\<rparr>)"
    "node_ids (new_node es) = {#}"
proof -
  have q: "wsq_ok queue_bits (new_queue es)" "contents queue_bits (new_queue es) = []"
    using wsq_ok_new [of queue_bits es] assms(2) by (simp_all add: queue_bits_def)
  then show "node_ids (new_node es) = {#}" by (simp add: node_ids_def node_queue_def probed_contents_def new_node_def)
  show "node_ok n 0 ((new_node es)\<lparr>attached := True, steal_from := next_node n j\<rparr>)"
    using probed_ok_wsq [OF q(1)] assms(1) pulse_run.init
    by (simp add: node_ok_def new_node_def next_node_def new_queue_def new_pulse_def)
qed

lemma run_start:
  fixes root :: "'c act list"
  assumes "0 < n" "length es = capacity queue_bits"
  obtains s where "run_scheduler root (new_scheduler n es c) = Inr s" "sched_inv s" "created s = 0" "num_nodes s = n"
proof -
  let ?xs = "replicate n (new_node es) :: 'c node list"
  have "\<forall>x \<in> set ?xs. \<not> attached x" by (auto simp: new_node_def)
  from attach_all_ok [OF this, of n 0] obtain ys where ys: "attach_all n 0 ?xs = Inr ys" "length ys = n"
    "\<forall>j < n. ys ! j = (new_node es)\<lparr>attached := True, steal_from := next_node n j\<rparr>" by auto
  let ?x = "(ys ! 0)\<lparr>frames := [Creating root]\<rparr>"
  let ?s = "(new_scheduler n es c)\<lparr>nodes := ys[0 := ?x]\<rparr>"
  have eq: "run_scheduler root (new_scheduler n es c) = Inr ?s"
    using ys(1,2) assms(1) by (simp add: run_scheduler_def new_scheduler_def num_nodes_def)
  note start = start_node_ok [OF assms]
  have node: "node_ok n 0 (ys ! j)" "node_ids (ys ! j) = {#}" if "j < n" for j
    using that ys(3) start by (simp_all add: node_ids_def node_queue_def)
  have "loop (ys[0 := ?x] ! j) = Begin" if "j < n" for j
    using that ys(2,3) by (cases "j = 0") (simp_all add: new_node_def)
  then have restore: "restore_ok ?s" using ys(2) by (simp add: restore_ok_def new_scheduler_def num_nodes_def)
  have x: "node_ok n 0 ?x" "node_ids ?x = {#}"
    using node [OF assms(1)] by (auto simp: node_defs)
  have each: "node_ok n 0 (ys[0 := ?x] ! j)" "node_ids (ys[0 := ?x] ! j) = {#}" if "j < n" for j
    using that node x ys(2) by (cases "j = 0"; simp)+
  have "\<forall>y \<in> set (ys[0 := ?x]). node_ids y = {#}"
  proof
    fix y assume "y \<in> set (ys[0 := ?x])"
    then obtain j where "j < n" "y = ys[0 := ?x] ! j" using ys(2) by (metis in_set_conv_nth length_list_update)
    then show "node_ids y = {#}" using each(2) by simp
  qed
  then have "sum_list (map node_ids (ys[0 := ?x])) = {#}" by (rule sum_list_all_empty)
  then have "sched_inv ?s" using each(1) ys(2) restore by (simp add: sched_inv_def new_scheduler_def num_nodes_def)
  then show ?thesis using that [OF eq] ys(2) by (simp add: new_scheduler_def num_nodes_def)
qed

lemma steal_created: "steal_and_execute m v acquired yes no s = Inr s' \<Longrightarrow> created s' = created s"
  by (auto simp: steal_and_execute_def fetch_eq_Inr bind_res_eq_Inr Let_def split: option.splits if_splits)

lemma probe_created: "probe_step m v h yes no s = Inr s' \<Longrightarrow> created s' = created s"
  by (auto simp: probe_step_def fetch_eq_Inr bind_res_eq_Inr Let_def split: option.splits if_splits)

lemma restore_created: "restore_step m v h pc s = Inr s' \<Longrightarrow> created s' = created s"
  by (auto simp: restore_step_def fetch_eq_Inr Let_def)

lemma frame_step_created: "frame_step fresh m s = Inr s' \<Longrightarrow> created s \<le> created s'"
  by (cases "frames (nodes s ! m)")
    (auto simp: frame_step_defs res_Inr_iff Let_def split: frame.splits list.splits act.splits if_splits prod.splits)

lemma loop_step_created: "loop_step acquired m s = Inr s' \<Longrightarrow> created s \<le> created s'"
  by (cases "loop (nodes s ! m)")
    (auto simp: loop_step_def res_Inr_iff Let_def steal_created probe_created restore_created split: option.splits if_splits)

lemma sched_step_created: "sched_step s s' \<Longrightarrow> created s \<le> created s'"
  by (cases rule: sched_step.cases) (auto simp: frame_step_created loop_step_created)

lemma sched_run_inv:
  assumes "sched_run n root c s" "0 < n" "created s + 2 ^ 8 < 2 ^ 32"
  shows "sched_inv s \<and> num_nodes s = n"
  using assms
proof (induction rule: sched_run.induct)
  case (init es s)
  then show ?case using run_start [of n es root] by (metis sum.inject(2))
next
  case (step s s')
  have ok: "step_ok s (Inr s')" if "created s + 2 ^ 8 < 2 ^ 32"
  proof -
    have s: "sched_inv s" using step.IH step.prems that by blast
    from step.hyps(2) show ?thesis
    proof cases
      case (frame m fresh)
      show ?thesis
        using frame_step_ok [OF s frame(1,2,3) that] frame(4) by simp
    next
      case (loop m acquired)
      then show ?thesis using loop_step_ok [OF s loop(1) that, of acquired] by simp
    next
      case (wake m w)
      then show ?thesis using wake_step_ok [OF s wake(2,3)] by simp
    qed
  qed
  have "created s \<le> created s'" using step.hyps(2) by (rule sched_step_created)
  then show ?case using ok step.IH step.prems by (auto simp: step_ok_def)
qed

end
