(* ===== verification/Scheduler_Runs.thy ===== *)
theory Scheduler_Runs
  imports Scheduler
begin

text \<open>
  What holds of whole runs of the scheduler: a node that looks for a task or sleeps has at
  most one of its own, so at most one per node is left when all have stopped or fallen asleep, and an
  interleaving that leaves one; a node told to stop does not sleep on;
  and a scheduler of one node hangs. The end of the theory replays given interleavings.
\<close>

subsection \<open>A node that looks for work has at most one task\<close>

text \<open>Between emptying its queue and stealing a task or being woken, a node has no call in progress
  and at most one task in its queue, which a thief made it miss: only the node itself pushes on
  its queue.\<close>

fun searching :: "loop_pc \<Rightarrow> bool" where
  "searching (Offer v) \<longleftrightarrow> True"
| "searching (Check v e) \<longleftrightarrow> True"
| "searching (Pick v e) \<longleftrightarrow> True"
| "searching (Steal v e) \<longleftrightarrow> True"
| "searching Sleep \<longleftrightarrow> True"
| "searching Asleep \<longleftrightarrow> True"
| "searching Exit \<longleftrightarrow> True"
| "searching (Probing v h yes no) \<longleftrightarrow> searching no"
| "searching (Restoring v h pc) \<longleftrightarrow> searching pc"
| "searching _ \<longleftrightarrow> False"

definition workless :: "'c node \<Rightarrow> bool" where
  "workless x \<longleftrightarrow> (searching (loop x) \<longrightarrow> frames x = [] \<and> length (node_queue x) \<le> 1)"

definition all_workless :: "'c scheduler \<Rightarrow> bool" where
  "all_workless s \<longleftrightarrow> (\<forall>x \<in> set (nodes s). workless x)"

lemma all_worklessD: "all_workless s \<Longrightarrow> m < num_nodes s \<Longrightarrow> workless (nodes s ! m)"
  by (simp add: all_workless_def num_nodes_def)

lemma workless_set_node: "all_workless s \<Longrightarrow> workless x \<Longrightarrow> all_workless (set_node m x s)"
  using set_update_subset_insert [of "nodes s" m x] by (auto simp: all_workless_def)

lemma workless_busy: "\<not> searching (loop x) \<Longrightarrow> workless x"
  by (simp add: workless_def)

text \<open>A call in progress on node \<open>m\<close> leaves the program counters of all loops, and the queues and
  calls of the other nodes, as they are.\<close>

lemma execute_eq_Inr:
  "execute i x s = Inr y \<longleftrightarrow> (\<exists>w. tasks s i = Some w \<and> y = x\<lparr>frames := Running i w # frames x\<rparr>)"
  by (auto simp: execute_def split: option.split)

lemma pull_loop: "pull_and_execute y z s = Inr x' \<Longrightarrow> loop y = loop z \<Longrightarrow> loop x' = loop z"
  by (auto simp: pull_and_execute_def execute_eq_Inr res_Inr_iff split: option.splits)

lemma frame_step_others:
  assumes step: "frame_step fresh m s = Inr s'" and m: "m < length (nodes s)" and j: "j < length (nodes s)"
  shows "length (nodes s') = length (nodes s) \<and> loop (nodes s' ! j) = loop (nodes s ! j) \<and>
    (j \<noteq> m \<longrightarrow> frames (nodes s' ! j) = frames (nodes s ! j) \<and> generic_tasks (nodes s' ! j) = generic_tasks (nodes s ! j) \<and> raised_by (nodes s' ! j) = raised_by (nodes s ! j))"
proof (cases "frames (nodes s ! m)")
  case Nil
  then show ?thesis using step by (simp add: frame_step_defs)
next
  case (Cons f fs)
  note * = step m j Cons
  show ?thesis
  proof (cases f)
    case (Creating work)
    then show ?thesis using * by (auto simp: frame_step_defs nth_list_update)
  next
    case (Pushing i)
    then show ?thesis using * by (auto simp: frame_step_defs res_Inr_iff Let_def nth_list_update)
  next
    case (Full i)
    then show ?thesis using * by (auto simp: frame_step_defs res_Inr_iff Let_def nth_list_update dest: pull_loop)
  next
    case (Delegating i)
    then show ?thesis using * by (auto simp: frame_step_defs res_Inr_iff Let_def nth_list_update split: if_splits)
  next
    case (Waking i)
    then show ?thesis using * by (auto simp: frame_step_defs res_Inr_iff Let_def nth_list_update)
  next
    case (Pulsing i)
    then show ?thesis using * by (auto simp: frame_step_defs res_Inr_iff Let_def nth_list_update)
  next
    case (Running i acts)
    then show ?thesis using *
      by (auto simp: frame_step_defs Let_def nth_list_update split: list.splits act.splits prod.splits)
  next
    case (Stopping i)
    then show ?thesis using * by (auto simp: frame_step_defs Let_def nth_list_update num_nodes_def split: if_splits)
  qed
qed

lemma frame_step_workless:
  assumes inv: "all_workless s" and m: "m < num_nodes s" and fs: "frames (nodes s ! m) \<noteq> []"
    and step: "frame_step fresh m s = Inr s'"
  shows "all_workless s'"
proof -
  have len: "m < length (nodes s)" using m by (simp add: num_nodes_def)
  have busy: "\<not> searching (loop (nodes s ! m))" using all_worklessD [OF inv m] fs by (auto simp: workless_def)
  note kept = frame_step_others [OF step len]
  have "workless (nodes s' ! j)" if j: "j < length (nodes s)" for j
  proof (cases "j = m")
    case True
    then show ?thesis using busy kept [OF j] by (intro workless_busy) simp
  next
    case False
    then show ?thesis using all_worklessD [OF inv, of j] kept [OF j] j by (simp add: workless_def node_queue_def num_nodes_def)
  qed
  moreover have "length (nodes s') = length (nodes s)" using kept [OF len] by blast
  ultimately show ?thesis by (auto simp: all_workless_def in_set_conv_nth)
qed

lemma pull_workless:
  assumes ok: "probed_ok queue_bits (raised x) (generic_tasks x)" and x: "frames x = []" "\<not> searching (loop x)"
    and step: "pull_and_execute (x\<lparr>loop := pc\<rparr>) x s = Inr x'"
  shows "workless x'"
proof (cases rule: wq.pullE [OF ok, case_names none some])
  case none
  then have "x' = x\<lparr>loop := pc\<rparr>" using step by (simp add: pull_and_execute_def)
  moreover have "length (node_queue x) \<le> 1" unfolding node_queue_def by (rule order_trans [OF none(2)]) simp
  ultimately show ?thesis using x(1) by (simp add: workless_def node_queue_def)
next
  case (some i q')
  then have "loop x' = loop x" using step by (auto simp: pull_and_execute_def execute_eq_Inr)
  then show ?thesis using x by (intro workless_busy) simp
qed

lemma workless_fewer:
  "workless y \<Longrightarrow> loop y' = loop y \<Longrightarrow> frames y' = frames y \<Longrightarrow> length (node_queue y') \<le> length (node_queue y) \<Longrightarrow> workless y'"
  by (auto simp: workless_def)

text \<open>A thief and its victim, whose queue does not grow.\<close>

lemma workless_pair:
  assumes work: "all_workless s" and m: "m < num_nodes s" and v: "v < num_nodes s"
    and y: "loop y = loop (nodes s ! v)" "frames y = frames (nodes s ! v)"
      "length (node_queue y) \<le> length (node_queue (nodes s ! v))"
    and x: "searching (loop x) \<Longrightarrow> workless ((nodes s ! m)\<lparr>loop := loop x\<rparr>) \<and>
      frames x = frames ((nodes s)[v := y] ! m) \<and> node_queue x = node_queue ((nodes s)[v := y] ! m)"
  shows "all_workless (set_node m x (set_node v y s))"
proof (intro workless_set_node [OF workless_set_node [OF work]])
  have len: "m < length (nodes s)" "v < length (nodes s)" using m v by (simp_all add: num_nodes_def)
  show "workless y" using all_worklessD [OF work v] y by (rule workless_fewer)
  show "workless x"
    using x y len by (cases "v = m") (auto simp: workless_def node_queue_def)
qed

lemma workless_loop: "searching pc \<Longrightarrow> searching (loop x) \<Longrightarrow> workless x \<Longrightarrow> workless (x\<lparr>loop := pc\<rparr>)"
  by (simp add: workless_def node_queue_def)

lemma steal_workless:
  assumes inv: "sched_inv s" and work: "all_workless s" and m: "m < num_nodes s" and few: "created s + 2 ^ 8 < 2 ^ 32"
    and no: "searching no \<longrightarrow> workless ((nodes s ! m)\<lparr>loop := no\<rparr>)"
    and step: "steal_and_execute m v acquired yes no s = Inr s'"
  shows "all_workless s'"
proof -
  let ?y = "nodes s ! v"
  from step have v: "v < num_nodes s" by (simp add: steal_and_execute_def fetch_eq_Inr num_nodes_def)
  have len: "m < length (nodes s)" "v < length (nodes s)" using m v by (simp_all add: num_nodes_def)
  have oky: "node_ok (num_nodes s) (created s) ?y" using sched_invD(4) [OF inv v] .
  show ?thesis
  proof (cases "acquired \<and> raised_by ?y = None")
    case False
    then have "s' = set_node m ((nodes s ! m)\<lparr>loop := no\<rparr>) s" using step len by (auto simp: steal_and_execute_def)
    moreover have "workless ((nodes s ! m)\<lparr>loop := no\<rparr>)" using no by (cases "searching no") (simp_all add: workless_busy)
    ultimately show ?thesis using workless_set_node [OF work] by simp
  next
    case True
    then have free: "raised_by ?y = None" and ok: "probed_ok queue_bits False (generic_tasks ?y)"
      using node_okD(1) [OF oky] by auto
    let ?y' = "?y\<lparr>generic_tasks := begin_steal (generic_tasks ?y), raised_by := Some m\<rparr>"
    have "node_queue ?y' = node_queue ?y"
      using wq.raise_law [OF ok size_wrap [OF few oky]] free by (simp add: node_queue_def)
    moreover have "s' = set_node m (((nodes s)[v := ?y'] ! m)\<lparr>loop := Probing v (head (generic_tasks ?y)) yes no\<rparr>) (set_node v ?y' s)"
      using step True len by (simp add: steal_and_execute_def Let_def)
    moreover have "workless ((nodes s ! m)\<lparr>loop := Probing v h yes no\<rparr>)" if "searching no" for h
      using no that by (simp add: workless_def node_queue_def)
    ultimately show ?thesis by (auto intro!: workless_pair [OF work m v] simp: node_queue_def)
  qed
qed

lemma probe_workless:
  assumes inv: "sched_inv s" and work: "all_workless s" and m: "m < num_nodes s" and few: "created s + 2 ^ 8 < 2 ^ 32"
    and pc: "loop (nodes s ! m) = Probing v h yes no" and yes: "\<not> searching yes"
    and step: "probe_step m v h yes no s = Inr s'"
  shows "all_workless s'"
proof -
  let ?y = "nodes s ! v"
  have "holding (loop (nodes s ! m)) = Some (v, h)" using pc by simp
  note v = holding_queue [OF inv m this]
  have len: "v < length (nodes s)" using v(1) by (simp add: num_nodes_def)
  have h: "head (generic_tasks ?y) - 1 = h" using v(3) by simp
  show ?thesis
  proof (cases rule: wq.probeE [OF v(4) size_wrap [OF few sched_invD(4) [OF inv v(1)]], unfolded h, case_names none some])
    case none
    then have "s' = set_node m ((nodes s ! m)\<lparr>loop := Restoring v h no\<rparr>) s" using step len by (simp add: probe_step_def)
    moreover have "workless ((nodes s ! m)\<lparr>loop := Restoring v h no\<rparr>)"
      using all_worklessD [OF work m] pc by (simp add: workless_def node_queue_def)
    ultimately show ?thesis using workless_set_node [OF work] by simp
  next
    case (some i)
    obtain x where "s' = set_node m x (set_node v (?y\<lparr>raised_by := None\<rparr>) s)" "loop x = yes"
      using step len some(1) by (auto simp: probe_step_def Let_def bind_res_eq_Inr execute_eq_Inr)
    then show ?thesis using some(3) yes v(2)
      by (auto intro!: workless_pair [OF work m v(1)] simp: node_queue_def)
  qed
qed

lemma restore_workless:
  assumes inv: "sched_inv s" and work: "all_workless s" and m: "m < num_nodes s"
    and pc: "loop (nodes s ! m) = Restoring v h pc'" and step: "restore_step m v h pc' s = Inr s'"
  shows "all_workless s'"
proof -
  let ?y = "nodes s ! v"
  have "holding (loop (nodes s ! m)) = Some (v, h)" using pc by simp
  note v = holding_queue [OF inv m this]
  let ?y' = "?y\<lparr>generic_tasks := undo_steal h (generic_tasks ?y), raised_by := None\<rparr>"
  have q: "node_queue ?y' = node_queue ?y" using wq.undo_law [OF v(4)] v(2,3) by (simp add: node_queue_def)
  have "s' = set_node m (((nodes s)[v := ?y'] ! m)\<lparr>loop := pc'\<rparr>) (set_node v ?y' s)"
    using step v(1) by (simp add: restore_step_def Let_def num_nodes_def)
  moreover have "searching pc' \<Longrightarrow> workless ((nodes s ! m)\<lparr>loop := pc'\<rparr>)"
    using all_worklessD [OF work m] pc by (simp add: workless_def node_queue_def)
  ultimately show ?thesis using q
    by (auto intro!: workless_pair [OF work m v(1)] simp: node_queue_def)
qed

lemma loop_step_workless:
  assumes inv: "sched_inv s" and work: "all_workless s" and m: "m < num_nodes s" and few: "created s + 2 ^ 8 < 2 ^ 32"
    and fs: "frames (nodes s ! m) = []" and step: "loop_step acquired m s = Inr s'"
  shows "all_workless s'"
proof -
  let ?x = "nodes s ! m" and ?n = "num_nodes s"
  have ok: "probed_ok queue_bits (raised ?x) (generic_tasks ?x)" using node_okD(1) [OF sched_invD(4) [OF inv m]] .
  have x: "workless ?x" using all_worklessD [OF work m] .
  note set = workless_set_node [OF work]
  have pull: "all_workless s'" if "\<not> searching (loop ?x)"
    "bind_res (pull_and_execute (?x\<lparr>loop := pc\<rparr>) ?x s) (\<lambda>x. Inr (set_node m x s)) = Inr s'" for pc
    using that pull_workless [OF ok fs] set by (auto simp: res_Inr_iff)
  show ?thesis
  proof (cases "loop ?x")
    case (Deplete v)
    then show ?thesis using step by (intro pull [of "Offer v"]) (simp_all add: loop_step_def Let_def)
  next
    case (Drain v)
    then show ?thesis using step by (intro pull [of "Offer v"]) (simp_all add: loop_step_def Let_def)
  next
    case (Steal v e)
    let ?no = "if e + 1 = ?n then Sleep else Check v (e + 1)"
    have "steal_and_execute m v acquired (Stole v) ?no s = Inr s'" using step Steal by (simp add: loop_step_def Let_def)
    then show ?thesis using x Steal by (intro steal_workless [OF inv work m few, of ?no v acquired "Stole v"]) (simp_all add: workless_def node_queue_def)
  next
    case (Retry v w)
    have "steal_and_execute m w acquired (Drain w) (Drain v) s = Inr s'" using step Retry by (simp add: loop_step_def Let_def)
    then show ?thesis by (intro steal_workless [OF inv work m few, of "Drain v" w acquired "Drain w"]) simp_all
  next
    case (Probing v h yes no)
    then have "probe_step m v h yes no s = Inr s'" using step by (simp add: loop_step_def Let_def)
    moreover have "after_steal yes" using node_okD(5) [OF sched_invD(4) [OF inv m]] Probing by simp
    then have "\<not> searching yes" by (cases yes) simp_all
    ultimately show ?thesis by (intro probe_workless [OF inv work m few Probing])
  next
    case (Restoring v h pc)
    then have "restore_step m v h pc s = Inr s'" using step by (simp add: loop_step_def Let_def)
    then show ?thesis by (rule restore_workless [OF inv work m Restoring])
  next
    case (Pick v e)
    have "workless (?x\<lparr>loop := Steal v' e\<rparr>)" for v' using x Pick by (simp add: workless_def node_queue_def)
    then show ?thesis using step Pick work set by (auto simp: loop_step_def Let_def split: option.splits)
  next
    case (Check v e)
    then have "workless (?x\<lparr>loop := (if stop_flag ?x then Exit else Pick v e)\<rparr>)" using x by (simp add: workless_def node_queue_def)
    then show ?thesis using step Check set by (auto simp: loop_step_def Let_def)
  next
    case (Offer v)
    then have "workless (?x\<lparr>available := True, loop := Check v 0\<rparr>)" using x by (simp add: workless_def node_queue_def)
    then show ?thesis using step Offer set by (auto simp: loop_step_def Let_def)
  next
    case Asleep
    then show ?thesis using step work set [of "?x\<lparr>loop := Awake\<rparr>" m]
      by (auto simp: loop_step_def Let_def workless_def node_queue_def split: if_splits)
  next
    case Sleep
    then have "workless (?x\<lparr>wakeup := w, loop := Asleep\<rparr>)" for w using x by (simp add: workless_def node_queue_def)
    then show ?thesis using step Sleep set by (auto simp: loop_step_def Let_def res_Inr_iff)
  next
    case Exit
    then show ?thesis using step work by (simp add: loop_step_def)
  qed (use step set in \<open>auto simp: loop_step_def Let_def workless_def node_queue_def\<close>)
qed

lemma run_start_eq:
  assumes "0 < n" "length es = capacity queue_bits" "run_scheduler root (new_scheduler n es c) = Inr s"
  shows "sched_inv s \<and> created s = 0 \<and> num_nodes s = n"
  by (rule run_start [OF assms(1,2), where root = root and c = c]) (use assms(3) in simp)

lemma attach_all_loop: "attach_all n i xs = Inr ys \<Longrightarrow> map loop ys = map loop xs"
  by (induction xs arbitrary: i ys) (auto simp: res_Inr_iff attach_def)

lemma run_start_begin:
  assumes "run_scheduler root (new_scheduler n es c) = Inr s" "j < length (nodes s)"
  shows "loop (nodes s ! j) = Begin"
proof -
  obtain xs where xs: "attach_all n 0 (replicate n (new_node es)) = Inr xs" "0 < length xs"
    and s: "nodes s = xs[0 := (xs ! 0)\<lparr>frames := [Creating root]\<rparr>]"
    using assms(1) by (auto simp: run_scheduler_def new_scheduler_def num_nodes_def res_Inr_iff)
  have "map loop xs = replicate n Begin" using attach_all_loop [OF xs(1)] by (simp add: new_node_def map_replicate)
  then have "\<forall>x \<in> set xs. loop x = Begin" by (metis in_set_replicate image_eqI set_map)
  then have "loop (xs ! j) = Begin" "loop (xs ! 0) = Begin" using assms(2) s xs(2) by simp_all
  then show ?thesis using s xs(2) assms(2) by (cases "j = 0") simp_all
qed

lemma run_start_workless:
  assumes "run_scheduler root (new_scheduler n es c) = Inr s"
  shows "all_workless s"
  using run_start_begin [OF assms] by (auto simp: all_workless_def workless_def in_set_conv_nth [of _ "nodes s"])

lemma sched_run_workless:
  assumes "sched_run n root c s" "0 < n" "created s + 2 ^ 8 < 2 ^ 32"
  shows "all_workless s"
  using assms
proof (induction rule: sched_run.induct)
  case (init es s)
  then show ?case by (simp add: run_start_workless)
next
  case (step s s')
  have few: "created s + 2 ^ 8 < 2 ^ 32" using sched_step_created [OF step.hyps(2)] step.prems(2) by simp
  have inv: "sched_inv s" using sched_run_inv [OF step.hyps(1) step.prems(1) few] by simp
  have work: "all_workless s" using step.IH step.prems(1) few by simp
  from step.hyps(2) show ?case
  proof cases
    case (frame m fresh)
    then show ?thesis by (intro frame_step_workless [OF work])
  next
    case (loop m acquired)
    then show ?thesis by (intro loop_step_workless [OF inv work _ few])
  next
    case (wake m w)
    have "workless ((nodes s ! m)\<lparr>wakeup := w\<rparr>)" using all_worklessD [OF work wake(2)] by (simp add: workless_def node_queue_def)
    then show ?thesis unfolding wake(1) by (rule workless_set_node [OF work])
  qed
qed

subsection \<open>A stopped node does not sleep on\<close>

text \<open>A node that has last read \<open>stop_flag_\<close> as false and will not read it before it has slept.\<close>

fun committed_pc :: "bool \<Rightarrow> loop_pc \<Rightarrow> bool" where
  "committed_pc woken (Pick v e) \<longleftrightarrow> True"
| "committed_pc woken (Steal v e) \<longleftrightarrow> True"
| "committed_pc woken (Probing v h yes no) \<longleftrightarrow> committed_pc woken no"
| "committed_pc woken (Restoring v h pc) \<longleftrightarrow> committed_pc woken pc"
| "committed_pc woken Sleep \<longleftrightarrow> True"
| "committed_pc woken Asleep \<longleftrightarrow> \<not> woken"
| "committed_pc woken _ \<longleftrightarrow> False"

definition committed :: "'c node \<Rightarrow> bool" where
  "committed x \<longleftrightarrow> committed_pc (waiter (wakeup x) = P_idle) (loop x)"

definition pulse_due :: "'c scheduler \<Rightarrow> nat \<Rightarrow> bool" where
  "pulse_due s m \<longleftrightarrow> pulsed (wakeup (nodes s ! m)) \<or> (\<exists>x \<in> set (nodes s). Pulsing m \<in> set (frames x))"

definition stop_due :: "'c scheduler \<Rightarrow> bool" where
  "stop_due s \<longleftrightarrow> (\<forall>m < length (nodes s). stop_flag (nodes s ! m) \<and> committed (nodes s ! m) \<longrightarrow> pulse_due s m)"

lemma committed_searching: "committed x \<Longrightarrow> searching (loop x)"
proof -
  have "committed_pc b pc \<Longrightarrow> searching pc" for b pc by (induction pc) auto
  then show "committed x \<Longrightarrow> searching (loop x)" by (simp add: committed_def)
qed

lemma committed_cong: "loop x = loop y \<Longrightarrow> wakeup x = wakeup y \<Longrightarrow> committed x = committed y"
  by (simp add: committed_def)

lemma bind_set_node: "bind_res r (\<lambda>x. Inr (set_node m x s)) = Inr s' \<longleftrightarrow> (\<exists>x'. r = Inr x' \<and> s' = set_node m x' s)"
  by (cases r) auto

lemma send_pulse_pulsed [simp]: "waiter (send_pulse p) = waiter p" "pulsed (send_pulse p)"
  by (simp_all add: send_pulse_def Let_def)

lemma pull_kept:
  assumes "pull_and_execute y z s = Inr x'" "stop_flag y = stop_flag z" "wakeup y = wakeup z" "frames y = frames z"
  shows "stop_flag x' = stop_flag z \<and> wakeup x' = wakeup z \<and> (Pulsing i \<in> set (frames x') \<longleftrightarrow> Pulsing i \<in> set (frames z))"
  using assms by (auto simp: pull_and_execute_def execute_eq_Inr res_Inr_iff split: option.splits)

text \<open>What a call in progress does to the flags and pulses of the nodes.\<close>

lemma frame_step_pulse:
  assumes step: "frame_step fresh m s = Inr s'" and m: "m < length (nodes s)" and j: "j < length (nodes s)"
  shows "waiter (wakeup (nodes s' ! j)) = waiter (wakeup (nodes s ! j)) \<and>
    (pulsed (wakeup (nodes s ! j)) \<longrightarrow> pulsed (wakeup (nodes s' ! j))) \<and>
    (j \<noteq> m \<and> stop_flag (nodes s' ! j) \<and> \<not> stop_flag (nodes s ! j) \<longrightarrow> Pulsing j \<in> set (frames (nodes s' ! m))) \<and>
    (Pulsing j \<in> set (frames (nodes s ! m)) \<longrightarrow>
      pulsed (wakeup (nodes s' ! j)) \<or> Pulsing j \<in> set (frames (nodes s' ! m)))"
proof (cases "frames (nodes s ! m)")
  case Nil
  then show ?thesis using step by (simp add: frame_step_defs)
next
  case (Cons f fs)
  note * = step m j Cons
  show ?thesis
  proof (cases f)
    case (Creating work)
    then show ?thesis using * by (auto simp: frame_step_defs nth_list_update)
  next
    case (Pushing i)
    then show ?thesis using * by (auto simp: frame_step_defs res_Inr_iff Let_def nth_list_update)
  next
    case (Full i)
    then obtain x' where "pull_and_execute ((nodes s ! m)\<lparr>frames := Pushing i # fs\<rparr>) ((nodes s ! m)\<lparr>frames := Pushing i # fs\<rparr>) s = Inr x'"
      "s' = set_node m x' s" using * by (auto simp: frame_step_defs res_Inr_iff Let_def)
    then show ?thesis using pull_kept [of _ _ s x' j] * Full by (simp add: nth_list_update)
  next
    case (Delegating i)
    then show ?thesis using * by (auto simp: frame_step_defs res_Inr_iff Let_def nth_list_update split: if_splits)
  next
    case (Waking i)
    then show ?thesis using * by (auto simp: frame_step_defs res_Inr_iff Let_def nth_list_update split: if_splits)
  next
    case (Pulsing i)
    then show ?thesis using * by (auto simp: frame_step_defs res_Inr_iff Let_def nth_list_update split: if_splits)
  next
    case (Running i acts)
    then show ?thesis using *
      by (auto simp: frame_step_defs Let_def nth_list_update split: list.splits act.splits prod.splits if_splits)
  next
    case (Stopping i)
    then show ?thesis using * by (auto simp: frame_step_defs Let_def nth_list_update num_nodes_def split: if_splits)
  qed
qed

lemma frame_step_stop_due:
  assumes due: "stop_due s" and work: "all_workless s" and m: "m < length (nodes s)"
    and fs: "frames (nodes s ! m) \<noteq> []" and step: "frame_step fresh m s = Inr s'"
  shows "stop_due s'"
  unfolding stop_due_def
proof (intro allI impI)
  fix j assume "j < length (nodes s')" and *: "stop_flag (nodes s' ! j) \<and> committed (nodes s' ! j)"
  then have j: "j < length (nodes s)" using frame_step_others [OF step m m] by simp
  note P = frame_step_pulse [OF step m j]
  have same: "loop (nodes s' ! j) = loop (nodes s ! j)" using frame_step_others [OF step m j] by simp
  then have com: "committed (nodes s ! j)" using * P same by (simp add: committed_def)
  then have "frames (nodes s ! j) = []"
    using committed_searching all_worklessD [OF work, of j] j by (auto simp: workless_def num_nodes_def)
  then have jm: "j \<noteq> m" using fs by auto
  have mem: "nodes s' ! m \<in> set (nodes s')" using frame_step_others [OF step m m] m by simp
  show "pulse_due s' j"
  proof (cases "stop_flag (nodes s ! j)")
    case False
    then show ?thesis using P jm * mem by (auto simp: pulse_due_def)
  next
    case True
    then have "pulse_due s j" using due com j by (simp add: stop_due_def)
    then consider (pulsed) "pulsed (wakeup (nodes s ! j))"
      | (call) l where "l < length (nodes s)" "Pulsing j \<in> set (frames (nodes s ! l))"
      by (auto simp: pulse_due_def in_set_conv_nth [of _ "nodes s"])
    then show ?thesis
    proof cases
      case pulsed
      then show ?thesis using P by (simp add: pulse_due_def)
    next
      case (call l)
      show ?thesis
      proof (cases "l = m")
        case True
        then show ?thesis using call P mem by (auto simp: pulse_due_def)
      next
        case False
        then have "frames (nodes s' ! l) = frames (nodes s ! l)" "nodes s' ! l \<in> set (nodes s')"
          using frame_step_others [OF step m call(1)] call(1) by simp_all
        then show ?thesis using call(2) unfolding pulse_due_def by force
      qed
    qed
  qed
qed

lemma steal_others:
  assumes step: "steal_and_execute m v acquired yes no s = Inr s'" and m: "m < length (nodes s)" and j: "j < length (nodes s)"
  shows "length (nodes s') = length (nodes s) \<and> stop_flag (nodes s' ! j) = stop_flag (nodes s ! j) \<and>
    wakeup (nodes s' ! j) = wakeup (nodes s ! j) \<and>
    (if j = m then loop (nodes s' ! j) = no \<or> (\<exists>h. loop (nodes s' ! j) = Probing v h yes no)
     else loop (nodes s' ! j) = loop (nodes s ! j) \<and> frames (nodes s' ! j) = frames (nodes s ! j))"
  using assms
  by (auto simp: steal_and_execute_def fetch_eq_Inr bind_res_eq_Inr Let_def execute_eq_Inr nth_list_update
      split: option.splits if_splits)

lemma probe_others:
  assumes step: "probe_step m v h yes no s = Inr s'" and m: "m < length (nodes s)" and j: "j < length (nodes s)"
  shows "length (nodes s') = length (nodes s) \<and> stop_flag (nodes s' ! j) = stop_flag (nodes s ! j) \<and>
    wakeup (nodes s' ! j) = wakeup (nodes s ! j) \<and>
    (if j = m then loop (nodes s' ! j) = yes \<or> loop (nodes s' ! j) = Restoring v h no
     else loop (nodes s' ! j) = loop (nodes s ! j) \<and> frames (nodes s' ! j) = frames (nodes s ! j))"
  using assms
  by (auto simp: probe_step_def fetch_eq_Inr bind_res_eq_Inr Let_def execute_eq_Inr nth_list_update
      split: option.splits if_splits)

lemma restore_others:
  assumes step: "restore_step m v h pc s = Inr s'" and m: "m < length (nodes s)" and j: "j < length (nodes s)"
  shows "length (nodes s') = length (nodes s) \<and> stop_flag (nodes s' ! j) = stop_flag (nodes s ! j) \<and>
    wakeup (nodes s' ! j) = wakeup (nodes s ! j) \<and>
    (if j = m then loop (nodes s' ! j) = pc
     else loop (nodes s' ! j) = loop (nodes s ! j) \<and> frames (nodes s' ! j) = frames (nodes s ! j))"
  using assms by (auto simp: restore_step_def fetch_eq_Inr Let_def nth_list_update split: if_splits)

lemma loop_step_others:
  assumes step: "loop_step acquired m s = Inr s'" and m: "m < length (nodes s)" and j: "j < length (nodes s)"
  shows "length (nodes s') = length (nodes s) \<and> stop_flag (nodes s' ! j) = stop_flag (nodes s ! j) \<and>
    (j \<noteq> m \<longrightarrow> loop (nodes s' ! j) = loop (nodes s ! j) \<and> frames (nodes s' ! j) = frames (nodes s ! j) \<and>
      wakeup (nodes s' ! j) = wakeup (nodes s ! j))"
proof -
  let ?x = "nodes s ! m"
  have pull: ?thesis if "bind_res (pull_and_execute (?x\<lparr>loop := pc\<rparr>) ?x s) (\<lambda>x. Inr (set_node m x s)) = Inr s'" for pc
  proof -
    from that obtain x' where x': "pull_and_execute (?x\<lparr>loop := pc\<rparr>) ?x s = Inr x'" "s' = set_node m x' s"
      unfolding bind_set_node by (elim exE conjE) (rule that)
    then show ?thesis using m j pull_kept [OF x'(1)] by (cases "j = m") simp_all
  qed
  show ?thesis
  proof (cases "loop ?x")
    case (Deplete v)
    then show ?thesis using step by (intro pull [of "Offer v"]) (simp add: loop_step_def Let_def)
  next
    case (Drain v)
    then show ?thesis using step by (intro pull [of "Offer v"]) (simp add: loop_step_def Let_def)
  next
    case (Steal v e)
    then have "steal_and_execute m v acquired (Stole v) (if e + 1 = num_nodes s then Sleep else Check v (e + 1)) s = Inr s'"
      using step by (simp add: loop_step_def Let_def)
    from steal_others [OF this m j] show ?thesis by (simp split: if_splits)
  next
    case (Retry v w)
    then have "steal_and_execute m w acquired (Drain w) (Drain v) s = Inr s'"
      using step by (simp add: loop_step_def Let_def)
    from steal_others [OF this m j] show ?thesis by (simp split: if_splits)
  next
    case (Probing v h yes no)
    then have "probe_step m v h yes no s = Inr s'" using step by (simp add: loop_step_def Let_def)
    from probe_others [OF this m j] show ?thesis by (simp split: if_splits)
  next
    case (Restoring v h pc)
    then have "restore_step m v h pc s = Inr s'" using step by (simp add: loop_step_def Let_def)
    from restore_others [OF this m j] show ?thesis by (simp split: if_splits)
  qed (use step m j in \<open>auto simp: loop_step_def Let_def res_Inr_iff nth_list_update split: if_splits option.splits\<close>)
qed

lemma loop_step_committed:
  assumes step: "loop_step acquired m s = Inr s'" and m: "m < length (nodes s)"
    and ok: "loop_ok (num_nodes s) (loop (nodes s ! m))"
    and com: "committed (nodes s' ! m)" and stop: "stop_flag (nodes s ! m)"
  shows "committed (nodes s ! m) \<and> pulsed (wakeup (nodes s' ! m)) = pulsed (wakeup (nodes s ! m))"
proof -
  let ?x = "nodes s ! m"
  have pull: ?thesis if "bind_res (pull_and_execute (?x\<lparr>loop := Offer v\<rparr>) ?x s) (\<lambda>x. Inr (set_node m x s)) = Inr s'"
    "\<not> committed ?x" for v
  proof -
    from that(1) obtain x' where x': "pull_and_execute (?x\<lparr>loop := Offer v\<rparr>) ?x s = Inr x'" "s' = set_node m x' s"
      unfolding bind_set_node by (elim exE conjE) (rule that)
    then have "loop x' = Offer v \<or> loop x' = loop ?x"
      by (auto simp: pull_and_execute_def execute_eq_Inr res_Inr_iff split: option.splits)
    moreover have "wakeup x' = wakeup ?x" using pull_kept [OF x'(1)] by simp
    ultimately have "\<not> committed x'" using that(2) committed_cong [of x' ?x] by (auto simp: committed_def [of x'])
    then show ?thesis using com m x'(2) by simp
  qed
  show ?thesis
  proof (cases "loop ?x")
    case (Deplete v)
    then show ?thesis using step by (intro pull [of v]) (simp_all add: loop_step_def Let_def committed_def)
  next
    case (Drain v)
    then show ?thesis using step by (intro pull [of v]) (simp_all add: loop_step_def Let_def committed_def)
  next
    case (Steal v e)
    then have "steal_and_execute m v acquired (Stole v) (if e + 1 = num_nodes s then Sleep else Check v (e + 1)) s = Inr s'"
      using step by (simp add: loop_step_def Let_def)
    from steal_others [OF this m m] show ?thesis using Steal by (simp add: committed_def)
  next
    case (Retry v w)
    then have "steal_and_execute m w acquired (Drain w) (Drain v) s = Inr s'"
      using step by (simp add: loop_step_def Let_def)
    from steal_others [OF this m m] show ?thesis using com by (auto simp: committed_def)
  next
    case (Probing v h yes no)
    then have "probe_step m v h yes no s = Inr s'" using step by (simp add: loop_step_def Let_def)
    moreover have "after_steal yes" using ok Probing by simp
    then have "\<not> committed_pc b yes" for b by (cases yes) simp_all
    ultimately show ?thesis using probe_others [of m v h yes no s s' m] m com Probing by (auto simp: committed_def)
  next
    case (Restoring v h pc)
    then have "restore_step m v h pc s = Inr s'" using step by (simp add: loop_step_def Let_def)
    from restore_others [OF this m m] show ?thesis using com Restoring by (simp add: committed_def)
  next
    case Sleep
    then show ?thesis using step m com
      by (auto simp: loop_step_def Let_def res_Inr_iff committed_def wait_pulse_def require_eq_Inr pulse_loop_def split: if_splits)
  qed (use step m com stop in \<open>auto simp: loop_step_def Let_def committed_def split: if_splits option.splits\<close>)
qed

text \<open>Steps that change no stop flag, and no calls and no pulse of the other nodes.\<close>

lemma stop_due_local:
  assumes due: "stop_due s" and m: "m < length (nodes s)" 
    and calls: "\<And>j. Pulsing j \<in> set (frames (nodes s ! m)) \<Longrightarrow> Pulsing j \<in> set (frames (nodes s' ! m))"
    and len: "length (nodes s') = length (nodes s)"
    and flags: "\<And>j. j < length (nodes s) \<Longrightarrow> stop_flag (nodes s' ! j) = stop_flag (nodes s ! j)"
    and others: "\<And>j. j < length (nodes s) \<Longrightarrow> j \<noteq> m \<Longrightarrow> loop (nodes s' ! j) = loop (nodes s ! j) \<and>
      frames (nodes s' ! j) = frames (nodes s ! j) \<and> wakeup (nodes s' ! j) = wakeup (nodes s ! j)"
    and own: "committed (nodes s' ! m) \<Longrightarrow> stop_flag (nodes s ! m) \<Longrightarrow>
      committed (nodes s ! m) \<and> pulsed (wakeup (nodes s' ! m)) = pulsed (wakeup (nodes s ! m))"
  shows "stop_due s'"
  unfolding stop_due_def
proof (intro allI impI)
  fix j assume "j < length (nodes s')" and *: "stop_flag (nodes s' ! j) \<and> committed (nodes s' ! j)"
  then have j: "j < length (nodes s)" using len by simp
  have com: "committed (nodes s ! j) \<and> pulsed (wakeup (nodes s' ! j)) = pulsed (wakeup (nodes s ! j))"
  proof (cases "j = m")
    case True
    then show ?thesis using * own flags [OF j] by simp
  next
    case False
    then show ?thesis using * others [OF j] committed_cong [of "nodes s' ! j" "nodes s ! j"] by simp
  qed
  then have "pulse_due s j" using due j * flags [OF j] by (simp add: stop_due_def)
  then consider (pulsed) "pulsed (wakeup (nodes s ! j))"
    | (call) l where "l < length (nodes s)" "Pulsing j \<in> set (frames (nodes s ! l))"
    by (auto simp: pulse_due_def in_set_conv_nth [of _ "nodes s"])
  then show "pulse_due s' j"
  proof cases
    case pulsed
    then show ?thesis using com by (simp add: pulse_due_def)
  next
    case (call l)
    then have "Pulsing j \<in> set (frames (nodes s' ! l))" using calls others by (cases "l = m") simp_all
    moreover have "nodes s' ! l \<in> set (nodes s')" using call(1) len by simp
    ultimately show ?thesis unfolding pulse_due_def by blast
  qed
qed

lemma wake_step_stop_due:
  assumes due: "stop_due s" and m: "m < length (nodes s)"
    and idle: "loop (nodes s ! m) \<noteq> Asleep \<longrightarrow> waiter (wakeup (nodes s ! m)) = P_idle"
    and w: "wake_step (wakeup (nodes s ! m)) w"
  shows "stop_due (set_node m ((nodes s ! m)\<lparr>wakeup := w\<rparr>) s)"
proof (rule stop_due_local [OF due m])
  let ?x = "nodes s ! m"
  assume "committed (nodes (set_node m (?x\<lparr>wakeup := w\<rparr>) s) ! m)"
  then have com: "committed (?x\<lparr>wakeup := w\<rparr>)" using m by simp
  have kept: "pulsed w = pulsed (wakeup ?x)" if "waiter w \<noteq> P_idle \<or> waiter (wakeup ?x) = P_idle"
    using w that by cases (auto simp: pulse_loop_def split: if_splits)
  have stay: "waiter (wakeup ?x) = P_idle \<Longrightarrow> waiter w = P_idle" using w by cases auto
  have "committed ?x \<and> pulsed w = pulsed (wakeup ?x)"
  proof (cases "loop ?x = Asleep")
    case True
    then show ?thesis using com kept stay by (auto simp: committed_def)
  next
    case False
    then show ?thesis using com kept idle stay by (simp add: committed_def)
  qed
  then show "committed ?x \<and> pulsed (wakeup (nodes (set_node m (?x\<lparr>wakeup := w\<rparr>) s) ! m)) = pulsed (wakeup ?x)"
    using m by simp
qed (use m in \<open>simp_all add: nth_list_update\<close>)

lemma run_start_stop_due:
  assumes "run_scheduler root (new_scheduler n es c) = Inr s"
  shows "stop_due s"
proof -
  have "\<not> committed x" if "loop x = Begin" for x using that by (simp add: committed_def)
  then show ?thesis using run_start_begin [OF assms] by (auto simp: stop_due_def)
qed

lemma sched_run_stop_due:
  assumes "sched_run n root c s" "0 < n" "created s + 2 ^ 8 < 2 ^ 32"
  shows "stop_due s"
  using assms
proof (induction rule: sched_run.induct)
  case (init es s)
  then show ?case by (simp add: run_start_stop_due)
next
  case (step s s')
  have few: "created s + 2 ^ 8 < 2 ^ 32" using sched_step_created [OF step.hyps(2)] step.prems(2) by simp
  have inv: "sched_inv s" using sched_run_inv [OF step.hyps(1) step.prems(1) few] by simp
  have work: "all_workless s" using sched_run_workless [OF step.hyps(1) step.prems(1) few] .
  have due: "stop_due s" using step.IH step.prems(1) few by simp
  from step.hyps(2) show ?case
  proof cases
    case (frame m fresh)
    then show ?thesis by (intro frame_step_stop_due [OF due work]) (simp_all add: num_nodes_def)
  next
    case (loop m acquired)
    then have m: "m < length (nodes s)" by (simp add: num_nodes_def)
    note others = loop_step_others [OF loop(3) m]
    show ?thesis
      by (rule stop_due_local [OF due m]) (use loop(2) others m loop_step_committed [OF loop(3) m node_okD(5) [OF sched_invD(4) [OF inv loop(1)]]] in simp_all)
  next
    case (wake m w)
    then have m: "m < length (nodes s)" by (simp add: num_nodes_def)
    have "loop (nodes s ! m) \<noteq> Asleep \<longrightarrow> waiter (wakeup (nodes s ! m)) = P_idle"
      using node_okD(7) [OF sched_invD(4) [OF inv wake(2)]] by blast
    then show ?thesis unfolding wake(1) by (rule wake_step_stop_due [OF due m _ wake(3)])
  qed
qed

subsection \<open>Executable interleavings\<close>

datatype choice = Frame nat task_id | Loop nat bool

fun apply_choice :: "choice \<Rightarrow> 'c scheduler \<Rightarrow> 'c scheduler option" where
  "apply_choice (Frame m fresh) s =
     (if m < num_nodes s \<and> \<not> List.null (frames (nodes s ! m)) \<and> Option.is_none (tasks s fresh)
      then (case frame_step fresh m s of Inl e \<Rightarrow> None | Inr s' \<Rightarrow> Some s') else None)"
| "apply_choice (Loop m acquired) s =
     (if m < num_nodes s \<and> List.null (frames (nodes s ! m))
      then (case loop_step acquired m s of Inl e \<Rightarrow> None | Inr s' \<Rightarrow> Some s') else None)"

fun run_choices :: "choice list \<Rightarrow> 'c scheduler \<Rightarrow> 'c scheduler option" where
  "run_choices [] s = Some s"
| "run_choices (c # cs) s = (case apply_choice c s of None \<Rightarrow> None | Some s' \<Rightarrow> run_choices cs s')"

definition run_schedule :: "nat \<Rightarrow> 'c act list \<Rightarrow> 'c \<Rightarrow> choice list \<Rightarrow> 'c scheduler option" where
  "run_schedule n root c cs =
     (case run_scheduler root (new_scheduler n (replicate (capacity queue_bits) 0) c) of
        Inl e \<Rightarrow> None | Inr s \<Rightarrow> run_choices cs s)"

lemma choice_step: "apply_choice c s = Some s' \<Longrightarrow> sched_step s s'"
  by (cases c) (auto simp: List.null_iff Option.is_none_def intro: sched_step.frame sched_step.loop split: if_splits sum.splits)

lemma run_choices_run: "sched_run n root c s \<Longrightarrow> run_choices cs s = Some s' \<Longrightarrow> sched_run n root c s'"
  by (induction cs arbitrary: s) (auto split: option.splits dest: choice_step intro: sched_run.step)

lemma run_schedule_run: "run_schedule n root c cs = Some s \<Longrightarrow> sched_run n root c s"
  using run_choices_run [of n root c _ cs s] sched_run.init [of "replicate (capacity queue_bits) 0" root n c]
  by (auto simp: run_schedule_def split: sum.splits)

text \<open>Two runs: on two nodes, a root task that makes one task and stops the scheduler; on one node,
  an empty root task.\<close>

lemma queue_eval: "capacity queue_bits = 256" "ring_mask queue_bits = 255"
  by (simp_all add: ring_mask_def capacity_def queue_bits_def)

lemma replicate_two: "replicate 2 x = [x, x]"
  by (simp add: numeral_2_eq_2)

lemmas sched_eval = run_schedule_def run_scheduler_def new_scheduler_def new_node_def new_queue_def new_pulse_def
  num_nodes_def attach_def next_node_def frame_step_defs loop_step_def set_node_def Let_def unique_push_def
  unique_pull_def slot_def queue_eval replicate_two pull_and_execute_def execute_def size_queue_def send_pulse_def

definition stopping_schedule :: "choice list" where
  "stopping_schedule =
     [Frame 0 5, Frame 0 6, Frame 0 6, Loop 0 True, Loop 0 True, Frame 0 7, Frame 0 7, Frame 0 8, Frame 0 8,
      Frame 0 8, Frame 0 8, Frame 0 8, Frame 0 8, Frame 0 8, Frame 0 8, Frame 0 8, Loop 0 True, Frame 0 0,
      Loop 0 True, Loop 0 True, Loop 0 True, Loop 1 True, Loop 1 True, Loop 1 True, Loop 1 True]"

lemma stopping_run:
  "\<exists>s. run_schedule 2 [New [], Stop] () stopping_schedule = Some s \<and>
     num_nodes s = 2 \<and> map loop (nodes s) = [Exit, Exit] \<and> created s = 2 \<and> executed s = 2"
  by (simp add: sched_eval stopping_schedule_def)

definition lonely_schedule :: "choice list" where
  "lonely_schedule =
     [Frame 0 5, Frame 0 6, Frame 0 6, Loop 0 True, Loop 0 True, Frame 0 0, Loop 0 True, Loop 0 True, Loop 0 True]"

lemma lonely_run:
  "\<exists>s. run_schedule 1 [] () lonely_schedule = Some s \<and> loop (nodes s ! 0) = Pick 0 0 \<and> created s = 1 \<and> executed s = 1"
  by (simp add: sched_eval lonely_schedule_def)

definition sleeping_schedule :: "choice list" where
  "sleeping_schedule =
     [Loop 1 True, Loop 1 True, Loop 1 True, Loop 1 True, Loop 1 True, Loop 1 True, Loop 1 True, Loop 1 True, Loop 1 True, Loop 1 True,
      Loop 1 True, Loop 1 True, Loop 1 True, Loop 1 True,
      Frame 0 5, Frame 0 6, Frame 0 6, Loop 0 True, Loop 0 True, Frame 0 7, Frame 0 7, Frame 0 8, Frame 0 8,
      Frame 0 8, Frame 0 8, Frame 0 8, Frame 0 8]"

lemma sleeping_run:
  "\<exists>s. run_schedule 2 [New [], Stop] () sleeping_schedule = Some s \<and> created s = 2 \<and>
     stop_flag (nodes s ! 1) \<and> loop (nodes s ! 1) = Asleep \<and> waiter (wakeup (nodes s ! 1)) = P_blocked"
  by (simp add: sched_eval next_victim_eq steal_and_execute_def begin_steal_def try_steal_def probe_step_def restore_step_def undo_steal_def wait_pulse_def pulse_loop_def sleeping_schedule_def)

definition losing_schedule :: "choice list" where
  "losing_schedule =
     [Frame 0 5, Frame 0 6, Frame 0 6, Loop 0 True, Loop 0 True,
      Loop 1 True, Loop 1 True, Loop 1 True, Loop 1 True, Loop 1 True, Loop 1 True, Loop 1 True,
      Frame 0 7, Frame 0 7, Frame 0 8, Frame 0 8, Frame 0 8, Frame 0 8, Frame 0 8, Frame 0 8, Frame 0 8, Frame 0 8, Frame 0 8,
      Loop 0 True, Loop 0 True, Loop 0 True, Loop 1 True, Loop 1 True]"

lemma losing_run:
  "\<exists>s. run_schedule 2 [New [], Stop] () losing_schedule = Some s \<and> map loop (nodes s) = [Exit, Exit] \<and>
     created s = 2 \<and> executed s = 1 \<and> map node_queue (nodes s) = [[7], []] \<and> tasks s 7 = Some []"
  by (simp add: sched_eval next_victim_eq steal_and_execute_def begin_steal_def try_steal_def probe_step_def restore_step_def undo_steal_def losing_schedule_def
      node_queue_def probed_contents_def lowered_def contents_def cell_def)

text \<open>A node that has left its loop, or sleeps.\<close>

lemma exited_workless:
  assumes run: "sched_run n root c s" and n: "0 < n" and few: "created s + 2 ^ 8 < 2 ^ 32"
    and exit: "\<forall>m < n. loop (nodes s ! m) \<in> {Exit, Asleep}" and x: "x \<in> set (nodes s)"
  shows "frames x = [] \<and> length (node_queue x) \<le> 1"
proof -
  have num: "num_nodes s = n" using sched_run_inv [OF run n few] by blast
  have "searching (loop x)" using x exit num by (auto simp: in_set_conv_nth num_nodes_def)
  then show ?thesis using sched_run_workless [OF run n few] x by (auto simp: all_workless_def workless_def)
qed

subsection \<open>Properties\<close>





text \<open>C33. A task can be lost: a thief that finds the queue of another node empty raises \<open>head_\<close> before it
  tests and lowers it afterwards; in between the owner pushes a task, which its own
  \<open>unique_pull\<close> then does not see. The owner goes on as if its queue were empty, and if the
  scheduler is stopped now, \<open>run\<close> returns with the task still in the queue.\<close>

theorem exit_can_lose_task:
  "\<exists>s. sched_run 2 [New [], Stop] () s \<and> map loop (nodes s) = [Exit, Exit] \<and> created s = 2 \<and> executed s = 1 \<and>
     map node_queue (nodes s) = [[7], []] \<and> tasks s 7 = Some []"
proof -
  obtain s where s: "run_schedule 2 [New [], Stop] () losing_schedule = Some s"
    and at: "map loop (nodes s) = [Exit, Exit]" "created s = 2" "executed s = 1" "map node_queue (nodes s) = [[7], []]" "tasks s 7 = Some []"
    using losing_run by (elim exE conjE) (rule that)
  show ?thesis by (intro exI [of _ s] conjI run_schedule_run [OF s] at)
qed

text \<open>C34. A node that is told to stop does not sleep on: if \<open>stop_flag_\<close> is set and the node is inside
  \<open>wakeup_.wait\<close>, then it has been pulsed and, if it is still blocked, its notification is on the
  way, or a call of \<open>pulse\<close> for it is in progress on some node.\<close>

theorem stop_wakes_sleepers:
  assumes run: "sched_run n root c s" and n: "0 < n" and few: "created s + 2 ^ 8 < 2 ^ 32" and m: "m < n"
    and stop: "stop_flag (nodes s ! m)" and sleeping: "loop (nodes s ! m) = Asleep" "waiter (wakeup (nodes s ! m)) \<noteq> P_idle"
  shows "pulsed (wakeup (nodes s ! m)) \<and> (waiter (wakeup (nodes s ! m)) = P_blocked \<longrightarrow> notifies (wakeup (nodes s ! m)) > 0) \<or>
    (\<exists>x \<in> set (nodes s). Pulsing m \<in> set (frames x))"
proof -
  have inv: "sched_inv s" and num: "num_nodes s = n" using sched_run_inv [OF run n few] by blast+
  have "committed (nodes s ! m)" using sleeping by (simp add: committed_def)
  then have "pulse_due s m" using sched_run_stop_due [OF run n few] m num stop by (simp add: stop_due_def num_nodes_def)
  moreover have "pulse_run (wakeup (nodes s ! m))" using node_okD(6) [OF sched_invD(4) [OF inv]] m num by simp
  from pulse_run_inv [OF this] have "notifies (wakeup (nodes s ! m)) > 0"
    if "pulsed (wakeup (nodes s ! m))" "waiter (wakeup (nodes s ! m)) = P_blocked"
    using that by (simp split: if_splits)
  ultimately show ?thesis by (auto simp: pulse_due_def)
qed

theorem stop_wakes_sleepers_witness:
  "\<exists>s. run_schedule 2 [New [], Stop] () sleeping_schedule = Some s \<and>
     (pulsed (wakeup (nodes s ! 1)) \<and> notifies (wakeup (nodes s ! 1)) > 0 \<or> (\<exists>x \<in> set (nodes s). Pulsing 1 \<in> set (frames x)))"
proof -
  obtain s where s: "run_schedule 2 [New [], Stop] () sleeping_schedule = Some s"
    and at: "created s = 2" "stop_flag (nodes s ! 1)" "loop (nodes s ! 1) = Asleep" "waiter (wakeup (nodes s ! 1)) = P_blocked"
    using sleeping_run by (elim exE conjE) (rule that)
  show ?thesis using stop_wakes_sleepers [OF run_schedule_run [OF s], of 1] at s by simp
qed

text \<open>With at least two nodes the loop that picks the next victim ends, with the number of another
  node; a scheduler of one node never finds one, and once it looks for one it never leaves its
  loop again, so that \<open>run\<close> does not return.\<close>

theorem victim_unless_alone:
  "(2 \<le> n \<and> m < n \<longrightarrow> (\<exists>v'. next_victim n m v = Some v' \<and> v' < n \<and> v' \<noteq> m)) \<and>
   (sched_run 1 root c s \<and> created s + 2 ^ 8 < 2 ^ 32 \<and> loop (nodes s ! 0) = Pick v e \<and> sched_step\<^sup>*\<^sup>* s s' \<longrightarrow>
     loop (nodes s' ! 0) = Pick v e)"
proof (intro conjI impI)
  assume "2 \<le> n \<and> m < n"
  then have n: "2 \<le> n" "m < n" by simp_all
  then obtain v' where "next_victim n m v = Some v'" using next_victim_eq by blast
  then show "\<exists>v'. next_victim n m v = Some v' \<and> v' < n \<and> v' \<noteq> m" using next_victim_lt n by fastforce
next
  assume *: "sched_run 1 root c s \<and> created s + 2 ^ 8 < 2 ^ 32 \<and> loop (nodes s ! 0) = Pick v e \<and> sched_step\<^sup>*\<^sup>* s s'"
  then have run: "sched_run 1 root c s" and few: "created s + 2 ^ 8 < 2 ^ 32" and pc: "loop (nodes s ! 0) = Pick v e"
    and steps: "sched_step\<^sup>*\<^sup>* s s'" by blast+
  have num: "num_nodes s = 1" using sched_run_inv [OF run _ few] by simp
  have "workless (nodes s ! 0)" using all_worklessD [OF sched_run_workless [OF run _ few], of 0] num by simp
  then have idle: "frames (nodes s ! 0) = []" using pc by (simp add: workless_def)
  from steps have "num_nodes s' = 1 \<and> frames (nodes s' ! 0) = [] \<and> loop (nodes s' ! 0) = Pick v e"
  proof (induction rule: rtranclp_induct)
    case base
    then show ?case using num idle pc by simp
  next
    case (step s1 s2)
    from step.hyps(2) step.IH show ?case
      by cases (auto simp: loop_step_def next_victim_alone [simplified] num_nodes_def)
  qed
  then show "loop (nodes s' ! 0) = Pick v e" by blast
qed

theorem victim_unless_alone_witness:
  "(\<exists>v'. next_victim 2 0 0 = Some v' \<and> v' < 2 \<and> v' \<noteq> 0) \<and>
   (\<exists>s. run_schedule 1 [] () lonely_schedule = Some s \<and> executed s = 1 \<and>
     (\<forall>s'. sched_step\<^sup>*\<^sup>* s s' \<longrightarrow> loop (nodes s' ! 0) = Pick 0 0))"
proof -
  obtain s where s: "run_schedule 1 [] () lonely_schedule = Some s" "loop (nodes s ! 0) = Pick 0 0" "created s = 1" "executed s = 1"
    using lonely_run by (elim exE conjE) (rule that)
  have "loop (nodes s' ! 0) = Pick 0 0" if "sched_step\<^sup>*\<^sup>* s s'" for s'
    using victim_unless_alone [where n = 2 and m = 0 and root = "[]" and s = s and v = 0 and e = 0 and s' = s'] run_schedule_run [OF s(1)] s(2,3) that by simp
  then show ?thesis using victim_unless_alone [where n = 2 and m = 0 and root = "[]" and s = s and v = 0 and e = 0 and s' = s] s(1,4) by auto
qed

end
