(* ===== verification/Scheduler_Closures.thy ===== *)
theory Scheduler_Closures
  imports Scheduler_Runs
begin

text \<open>
  Which closures there can be in a scheduler, and which nodes have been stopped. The interface
  \<open>closure_kinds\<close> is what a client promises of its closures: of those that it hands to \<open>new_task\<close>
  (\<open>stored\<close>) and of what is left of those once they run (\<open>rest\<close>). The scheduler then keeps to
  them in all of its steps.
\<close>

subsection \<open>Kinds of closures\<close>

locale closure_kinds =
  fixes stored :: "'c act list \<Rightarrow> bool" and rest :: "'c act list \<Rightarrow> bool"
  assumes rest_stored: "stored work \<Longrightarrow> rest work"
    and rest_new: "rest (New work # acts) \<Longrightarrow> stored work \<and> rest acts"
    and rest_stop: "rest (Stop # acts) \<Longrightarrow> rest acts"
    and rest_touch: "rest (Touch f # acts) \<Longrightarrow> rest (snd (f c) @ acts)"

text \<open>A node whose calls include \<open>stop_scheduler\<close> has set its own flag, and so has one that leaves its loop.\<close>

fun call_ok :: "('c act list \<Rightarrow> bool) \<Rightarrow> ('c act list \<Rightarrow> bool) \<Rightarrow> bool \<Rightarrow> 'c frame \<Rightarrow> bool" where
  "call_ok S R b (Creating work) \<longleftrightarrow> S work"
| "call_ok S R b (Running i acts) \<longleftrightarrow> R acts"
| "call_ok S R b (Stopping i) \<longleftrightarrow> b"
| "call_ok S R b _ \<longleftrightarrow> True"

fun may_exit :: "loop_pc \<Rightarrow> bool" where
  "may_exit Exit \<longleftrightarrow> True"
| "may_exit (Probing v h yes no) \<longleftrightarrow> may_exit yes \<or> may_exit no"
| "may_exit (Restoring v h pc) \<longleftrightarrow> may_exit pc"
| "may_exit _ \<longleftrightarrow> False"

definition calls_ok :: "('c act list \<Rightarrow> bool) \<Rightarrow> ('c act list \<Rightarrow> bool) \<Rightarrow> 'c node \<Rightarrow> bool" where
  "calls_ok S R x \<longleftrightarrow> (\<forall>f \<in> set (frames x). call_ok S R (stop_flag x) f) \<and> (may_exit (loop x) \<longrightarrow> stop_flag x)"

definition closures_ok :: "('c act list \<Rightarrow> bool) \<Rightarrow> ('c act list \<Rightarrow> bool) \<Rightarrow> 'c scheduler \<Rightarrow> bool" where
  "closures_ok S R s \<longleftrightarrow> (\<forall>x \<in> set (nodes s). calls_ok S R x) \<and> (\<forall>i work. tasks s i = Some work \<longrightarrow> S work)"

lemma closures_set_node: "closures_ok S R s \<Longrightarrow> calls_ok S R x \<Longrightarrow> closures_ok S R (set_node m x s)"
  using set_update_subset_insert [of "nodes s" m x] by (auto simp: closures_ok_def)

lemma calls_okD: "closures_ok S R s \<Longrightarrow> m < length (nodes s) \<Longrightarrow> calls_ok S R (nodes s ! m)"
  by (simp add: closures_ok_def)

lemma closures_nodes: "closures_ok S R s \<Longrightarrow> nodes s' = nodes s \<Longrightarrow> (\<And>i work. tasks s' i = Some work \<Longrightarrow> S work) \<Longrightarrow>
    closures_ok S R s'"
  by (simp add: closures_ok_def)

lemma call_ok_mono: "call_ok S R b f \<Longrightarrow> b \<longrightarrow> b' \<Longrightarrow> call_ok S R b' f"
  by (cases f) auto

lemma calls_ok_frames:
  "calls_ok S R x \<Longrightarrow> frames x = f # fs \<Longrightarrow> \<forall>g \<in> set gs. g \<in> set fs \<or> call_ok S R (stop_flag x) g \<Longrightarrow>
    calls_ok S R (x\<lparr>frames := gs\<rparr>)"
  by (auto simp: calls_ok_def)

lemma calls_ok_simps [simp]:
  "calls_ok S R (x\<lparr>available := b\<rparr>) = calls_ok S R x" "calls_ok S R (x\<lparr>wakeup := w\<rparr>) = calls_ok S R x"
  "calls_ok S R (x\<lparr>generic_tasks := q\<rparr>) = calls_ok S R x" "calls_ok S R (x\<lparr>raised_by := r\<rparr>) = calls_ok S R x"
  "calls_ok S R (x\<lparr>steal_from := i\<rparr>) = calls_ok S R x"
  by (simp_all add: calls_ok_def)

lemma calls_ok_loop: "calls_ok S R x \<Longrightarrow> (may_exit pc \<longrightarrow> stop_flag x) \<Longrightarrow> calls_ok S R (x\<lparr>loop := pc\<rparr>)"
  by (simp add: calls_ok_def)

lemma calls_ok_stop: "calls_ok S R x \<Longrightarrow> calls_ok S R (x\<lparr>stop_flag := True\<rparr>)"
  by (auto simp: calls_ok_def intro: call_ok_mono)

text \<open>Node \<open>m\<close> changes after node \<open>i\<close> did.\<close>

lemma closures_two:
  assumes "closures_ok S R s" "m < num_nodes s" "i < num_nodes s" "calls_ok S R y"
    "frames y = frames (nodes s ! i)" "loop y = loop (nodes s ! i)" "stop_flag (nodes s ! i) \<longrightarrow> stop_flag y"
    "\<And>z. frames z = frames (nodes s ! m) \<Longrightarrow> loop z = loop (nodes s ! m) \<Longrightarrow> calls_ok S R z \<Longrightarrow>
      (stop_flag (nodes s ! m) \<longrightarrow> stop_flag z) \<Longrightarrow> calls_ok S R (g z)"
  shows "closures_ok S R (set_node m (g ((nodes s)[i := y] ! m)) (set_node i y s))"
proof -
  have "closures_ok S R (set_node i y s)" using assms(1,4) by (rule closures_set_node)
  moreover have "calls_ok S R (g ((nodes s)[i := y] ! m))"
    using assms(2-7) calls_okD [OF assms(1), of m] by (intro assms(8)) (simp_all add: nth_list_update num_nodes_def)
  ultimately show ?thesis by (rule closures_set_node)
qed

subsection \<open>The steps of a steal, case by case\<close>

lemma steal_cases:
  assumes "steal_and_execute m v acquired yes no s = Inr s'"
  obtains (refused) "v < num_nodes s" "s' = set_node m ((nodes s ! m)\<lparr>loop := no\<rparr>) s"
  | (raised) y where "v < num_nodes s" "raised_by (nodes s ! v) = None"
      "y = (nodes s ! v)\<lparr>generic_tasks := begin_steal (generic_tasks (nodes s ! v)), raised_by := Some m\<rparr>"
      "s' = set_node m (((nodes s)[v := y] ! m)\<lparr>loop := Probing v (head (generic_tasks (nodes s ! v))) yes no\<rparr>) (set_node v y s)"
  using assms by (auto simp: steal_and_execute_def fetch_eq_Inr num_nodes_def Let_def split: if_splits)

lemma probe_cases:
  assumes "probe_step m v h yes no s = Inr s'"
  obtains (none) "v < num_nodes s" "try_steal queue_bits h (generic_tasks (nodes s ! v)) = Inr None"
      "s' = set_node m ((nodes s ! m)\<lparr>loop := Restoring v h no\<rparr>) s"
  | (some) i work y where "v < num_nodes s" "try_steal queue_bits h (generic_tasks (nodes s ! v)) = Inr (Some i)"
      "tasks s i = Some work" "y = (nodes s ! v)\<lparr>raised_by := None\<rparr>"
      "s' = set_node m (((nodes s)[v := y] ! m)\<lparr>loop := yes, frames := Running i work # frames ((nodes s)[v := y] ! m)\<rparr>) (set_node v y s)"
proof -
  have v: "v < length (nodes s)" using assms by (auto simp: probe_step_def fetch_eq_Inr)
  then obtain r where r: "try_steal queue_bits h (generic_tasks (nodes s ! v)) = Inr r"
    using assms by (auto simp: probe_step_def bind_res_eq_Inr)
  show ?thesis
  proof (cases r)
    case None
    then show ?thesis using none assms v r by (simp add: probe_step_def num_nodes_def)
  next
    case (Some i)
    then obtain work where "tasks s i = Some work" using assms v r
      by (auto simp: probe_step_def Let_def bind_res_eq_Inr execute_eq_Inr)
    then show ?thesis using some assms v r Some by (simp add: probe_step_def num_nodes_def Let_def execute_def)
  qed
qed

lemma restore_cases:
  assumes "restore_step m v h pc s = Inr s'"
  obtains y where "v < num_nodes s"
    "y = (nodes s ! v)\<lparr>generic_tasks := undo_steal h (generic_tasks (nodes s ! v)), raised_by := None\<rparr>"
    "s' = set_node m (((nodes s)[v := y] ! m)\<lparr>loop := pc\<rparr>) (set_node v y s)"
  using assms by (auto simp: restore_step_def fetch_eq_Inr num_nodes_def Let_def)

subsection \<open>The scheduler keeps to them\<close>

context closure_kinds
begin

lemma pull_calls:
  assumes pull: "pull_and_execute y z s = Inr x'" and ok: "closures_ok stored rest s"
    and y: "calls_ok stored rest y" and z: "calls_ok stored rest z"
  shows "calls_ok stored rest x'"
proof -
  obtain r q where q: "unique_pull queue_bits (generic_tasks z) = Inr (r, q)"
    using pull by (auto simp: pull_and_execute_def bind_res_eq_Inr)
  show ?thesis
  proof (cases r)
    case None
    then have "x' = y\<lparr>generic_tasks := q\<rparr>" using pull q by (simp add: pull_and_execute_def)
    then show ?thesis using y by simp
  next
    case (Some i)
    then obtain work where "tasks s i = Some work" "x' = z\<lparr>generic_tasks := q, frames := Running i work # frames z\<rparr>"
      using pull q by (auto simp: pull_and_execute_def execute_eq_Inr)
    then show ?thesis using z ok rest_stored by (simp add: calls_ok_def closures_ok_def)
  qed
qed

lemma closure_step_calls:
  assumes ok: "closures_ok stored rest s" and m: "m < num_nodes s" and f: "frames (nodes s ! m) = Running i acts # fs"
    and step: "closure_step m i acts fs s = Inr s'"
  shows "closures_ok stored rest s'"
proof -
  let ?x = "nodes s ! m"
  have "m < length (nodes s)" using m by (simp add: num_nodes_def)
  with ok have x: "calls_ok stored rest ?x" by (rule calls_okD)
  then have acts: "rest acts" using f by (simp add: calls_ok_def)
  note fr = calls_ok_frames [OF x f]
  have "\<exists>y. nodes s' = (nodes s)[m := y] \<and> calls_ok stored rest y"
  proof (cases acts)
    case Nil
    then show ?thesis using step fr [of fs] by (intro exI [of _ "?x\<lparr>frames := fs\<rparr>"]) (auto simp: closure_step_def)
  next
    case (Cons a as)
    show ?thesis
    proof (cases a)
      case (New work)
      let ?gs = "Creating work # Running i as # fs"
      show ?thesis using step Cons New fr [of ?gs] rest_new acts
        by (intro exI [of _ "?x\<lparr>frames := ?gs\<rparr>"]) (auto simp: closure_step_def)
    next
      case Stop
      let ?gs = "if stop_flag ?x then Running i as # fs else Stopping 0 # Running i as # fs"
      have "calls_ok stored rest (?x\<lparr>stop_flag := True, frames := ?gs\<rparr>)"
        using calls_ok_stop [OF x] rest_stop acts f Cons Stop by (simp add: calls_ok_def)
      then show ?thesis using step Cons Stop
        by (intro exI [of _ "?x\<lparr>stop_flag := True, frames := ?gs\<rparr>"]) (auto simp: closure_step_def Let_def)
    next
      case (Touch h)
      let ?gs = "Running i (snd (h (client s)) @ as) # fs"
      show ?thesis using step Cons Touch fr [of ?gs] rest_touch acts
        by (intro exI [of _ "?x\<lparr>frames := ?gs\<rparr>"]) (auto simp: closure_step_def split_beta)
    qed
  qed
  then obtain y where y: "nodes s' = nodes (set_node m y s)" "calls_ok stored rest y" by auto
  have "tasks s' j = Some work \<Longrightarrow> tasks s j = Some work" for j work
    using step by (auto simp: closure_step_def Let_def split: list.splits act.splits prod.splits if_splits)
  then have "tasks s' j = Some work \<Longrightarrow> stored work" for j work using ok unfolding closures_ok_def by blast
  then show ?thesis by (rule closures_nodes [OF closures_set_node [OF ok y(2)] y(1)])
qed

lemma frame_step_calls:
  assumes ok: "closures_ok stored rest s" and inv: "sched_inv s" and m: "m < num_nodes s"
    and f: "frames (nodes s ! m) = f # fs" and step: "frame_step fresh m s = Inr s'"
  shows "closures_ok stored rest s'"
proof -
  let ?x = "nodes s ! m"
  have len: "m < length (nodes s)" using m by (simp add: num_nodes_def)
  have x: "calls_ok stored rest ?x" using ok len by (rule calls_okD)
  note set = closures_set_node [OF ok] and D = frame_step_def f Let_def
  note keep = set [OF calls_ok_frames [OF x f], of _ m]
  have i: "i < num_nodes s" "i < length (nodes s)" if "f = Delegating i \<or> f = Waking i \<or> f = Pulsing i" for i
    using node_okD(4) [OF sched_invD(4) [OF inv m]] f that by (force simp: num_nodes_def)+
  have other: "closures_ok stored rest (set_node m (((nodes s)[i := y] ! m)\<lparr>frames := gs\<rparr>) (set_node i y s))"
    if "i < num_nodes s" "calls_ok stored rest y" "frames y = frames (nodes s ! i)" "loop y = loop (nodes s ! i)"
      "stop_flag (nodes s ! i) \<longrightarrow> stop_flag y" "\<forall>g \<in> set gs. g \<in> set (f # fs) \<or> call_ok stored rest (\<exists>i. f = Stopping i) g" for i y gs
  proof (rule closures_two [OF ok m that(1-5)])
    show "calls_ok stored rest (z\<lparr>frames := gs\<rparr>)"
      if "frames z = frames ?x" "calls_ok stored rest z" for z
    proof -
      have z: "call_ok stored rest (stop_flag z) g" if "g \<in> set (f # fs)" for g
        using \<open>calls_ok stored rest z\<close> \<open>frames z = frames ?x\<close> f that by (auto simp: calls_ok_def)
      have "(\<exists>i. f = Stopping i) \<longrightarrow> stop_flag z" using z [of f] by auto
      then have "call_ok stored rest (stop_flag z) g" if "g \<in> set gs" for g
        using \<open>\<forall>g \<in> set gs. _\<close> that z [of g] call_ok_mono by blast
      then show ?thesis using \<open>calls_ok stored rest z\<close> by (simp add: calls_ok_def)
    qed
  qed
  have y: "calls_ok stored rest (nodes s ! i)" if "i < num_nodes s" for i
    using calls_okD [OF ok] that by (simp add: num_nodes_def)
  show ?thesis
  proof (cases f)
    case (Creating work)
    then have "stored work" using x f by (simp add: calls_ok_def)
    moreover have "s' = set_node m (?x\<lparr>frames := Pushing fresh # fs\<rparr>) s\<lparr>tasks := (tasks s)(fresh \<mapsto> work), created := created s + 1\<rparr>"
      using step Creating by (simp add: D new_task_step_def)
    ultimately show ?thesis using keep [of "Pushing fresh # fs"] by (auto simp: closures_ok_def)
  next
    case (Pushing i)
    then obtain b q where "s' = set_node m (?x\<lparr>generic_tasks := q,
      frames := (if b then Delegating ((m + 1) mod num_nodes s) else Full i) # fs\<rparr>) s"
      using step by (auto simp: D new_task_step_def bind_res_eq_Inr)
    then show ?thesis using x f by (auto intro!: set simp: calls_ok_def)
  next
    case (Full i)
    let ?y = "?x\<lparr>frames := Pushing i # fs\<rparr>"
    have y: "calls_ok stored rest ?y" using x f by (simp add: calls_ok_def)
    from Full obtain x' where "pull_and_execute ?y ?y s = Inr x'" "s' = set_node m x' s"
      using step by (auto simp: D new_task_step_def bind_res_eq_Inr)
    then show ?thesis using pull_calls [OF _ ok y y] by (auto intro: set)
  next
    case (Delegating i)
    then show ?thesis
      using step i(2) [of i] y [OF i(1)] other [OF i(1), of i "(nodes s ! i)\<lparr>available := False\<rparr>" "Waking i # fs"]
        keep [of fs] keep [of "Delegating ((i + 1) mod num_nodes s) # fs"]
      by (auto simp: D new_task_step_def split: if_splits)
  next
    case (Waking i)
    then show ?thesis
      using step i(2) [of i] y [OF i(1)] other [OF i(1), of i "(nodes s ! i)\<lparr>steal_from := m\<rparr>" "Pulsing i # fs"]
      by (auto simp: D wakeup_step_def)
  next
    case (Pulsing i)
    then show ?thesis
      using step i(2) [of i] y [OF i(1)] other [OF i(1), of i "(nodes s ! i)\<lparr>wakeup := send_pulse (wakeup (nodes s ! i))\<rparr>" fs]
      by (auto simp: D wakeup_step_def)
  next
    case (Running i acts)
    then show ?thesis using step closure_step_calls [OF ok m] f by (simp add: frame_step_def)
  next
    case (Stopping i)
    then show ?thesis
      using step m keep [of fs] calls_ok_stop [OF y, of i]
        other [of i "(nodes s ! i)\<lparr>stop_flag := True\<rparr>" "Pulsing i # Stopping (i + 1) # fs"]
      by (auto simp: D stop_step_def split: if_splits)
  qed
qed

lemma node_calls: "closures_ok stored rest s \<Longrightarrow> m < num_nodes s \<Longrightarrow> calls_ok stored rest (nodes s ! m)"
  by (rule calls_okD) (simp_all add: num_nodes_def)

lemma steal_calls:
  assumes ok: "closures_ok stored rest s" and m: "m < num_nodes s"
    and step: "steal_and_execute m v acquired yes no s = Inr s'" and pcs: "\<not> may_exit yes" "\<not> may_exit no"
  shows "closures_ok stored rest s'"
  using step
proof (cases rule: steal_cases)
  case refused
  show ?thesis unfolding refused(2)
    by (rule closures_set_node [OF ok], rule calls_ok_loop [OF node_calls [OF ok m]]) (use pcs in simp)
next
  case (raised y)
  show ?thesis unfolding raised(4)
    by (rule closures_two [OF ok m raised(1)]) (use node_calls [OF ok raised(1)] raised(3) pcs in \<open>simp_all add: calls_ok_loop\<close>)
qed

lemma probe_calls:
  assumes ok: "closures_ok stored rest s" and m: "m < num_nodes s" and step: "probe_step m v h yes no s = Inr s'"
    and pcs: "\<not> may_exit yes" "may_exit no \<longrightarrow> stop_flag (nodes s ! m)"
  shows "closures_ok stored rest s'"
  using step
proof (cases rule: probe_cases)
  case none
  show ?thesis unfolding none(3)
    by (rule closures_set_node [OF ok], rule calls_ok_loop [OF node_calls [OF ok m]]) (use pcs in simp)
next
  case (some i work y)
  have "rest work" using some(3) ok rest_stored by (auto simp: closures_ok_def)
  then show ?thesis unfolding some(5)
    by (intro closures_two [OF ok m some(1), where g = "\<lambda>z. z\<lparr>loop := yes, frames := Running i work # frames z\<rparr>"])
      (use node_calls [OF ok some(1)] some(4) pcs in \<open>simp_all add: calls_ok_def\<close>)
qed

lemma restore_calls:
  assumes ok: "closures_ok stored rest s" and m: "m < num_nodes s" and step: "restore_step m v h pc s = Inr s'"
    and pc: "may_exit pc \<longrightarrow> stop_flag (nodes s ! m)"
  shows "closures_ok stored rest s'"
  using step
proof (rule restore_cases)
  fix y
  assume v: "v < num_nodes s" and y: "y = (nodes s ! v)\<lparr>generic_tasks := undo_steal h (generic_tasks (nodes s ! v)), raised_by := None\<rparr>"
    and s': "s' = set_node m (((nodes s)[v := y] ! m)\<lparr>loop := pc\<rparr>) (set_node v y s)"
  show ?thesis unfolding s'
    by (rule closures_two [OF ok m v, where g = "\<lambda>z. z\<lparr>loop := pc\<rparr>"]) (use node_calls [OF ok v] y pc in \<open>auto intro: calls_ok_loop\<close>)
qed

lemma own_pull_calls:
  assumes ok: "closures_ok stored rest s" and m: "m < num_nodes s"
    and step: "bind_res (pull_and_execute ((nodes s ! m)\<lparr>loop := Offer v\<rparr>) (nodes s ! m) s) (\<lambda>x. Inr (set_node m x s)) = Inr s'"
  shows "closures_ok stored rest s'"
proof -
  from step obtain x' where x': "pull_and_execute ((nodes s ! m)\<lparr>loop := Offer v\<rparr>) (nodes s ! m) s = Inr x'" "s' = set_node m x' s"
    unfolding bind_set_node by (elim exE conjE) (rule that)
  have x: "calls_ok stored rest (nodes s ! m)" using ok m by (rule node_calls)
  then have "calls_ok stored rest ((nodes s ! m)\<lparr>loop := Offer v\<rparr>)" by (intro calls_ok_loop) simp_all
  then show ?thesis unfolding x'(2) using pull_calls [OF x'(1) ok] x by (intro closures_set_node [OF ok]) simp
qed

lemma loop_step_calls:
  assumes ok: "closures_ok stored rest s" and inv: "sched_inv s" and m: "m < num_nodes s" and step: "loop_step acquired m s = Inr s'"
  shows "closures_ok stored rest s'"
proof -
  let ?x = "nodes s ! m"
  have x: "calls_ok stored rest ?x" using ok m by (rule node_calls)
  have after: "\<not> may_exit pc" if "after_steal pc" for pc using that by (cases pc) auto
  note set = closures_set_node [OF ok] and D = loop_step_def Let_def and loop = node_okD(5) [OF sched_invD(4) [OF inv m]]
  have keep: "closures_ok stored rest (set_node m (?x\<lparr>loop := pc\<rparr>) s)"
    "closures_ok stored rest (set_node m (?x\<lparr>available := b, loop := pc\<rparr>) s)"
    "closures_ok stored rest (set_node m (?x\<lparr>wakeup := w, loop := pc\<rparr>) s)" if "may_exit pc \<longrightarrow> stop_flag ?x" for pc b w
    by (rule set, rule calls_ok_loop; simp add: x that)+
  show ?thesis
  proof (cases "loop ?x")
    case (Deplete v)
    then show ?thesis using step own_pull_calls [OF ok m, of v] by (simp add: D)
  next
    case (Drain v)
    then show ?thesis using step own_pull_calls [OF ok m, of v] by (simp add: D)
  next
    case (Steal v e)
    then show ?thesis using step steal_calls [OF ok m, of v] by (simp add: D)
  next
    case (Retry v w)
    then show ?thesis using step steal_calls [OF ok m, of w] by (simp add: D)
  next
    case (Probing v h yes no)
    then show ?thesis using step probe_calls [OF ok m, of v] after loop x by (simp add: D calls_ok_def)
  next
    case (Restoring v h pc)
    then show ?thesis using step restore_calls [OF ok m, of v] x by (simp add: D calls_ok_def)
  next
    case (Check v e)
    then show ?thesis using step keep(1) [of "if stop_flag ?x then Exit else Pick v e"] by (simp add: D)
  qed (use step ok in \<open>auto simp: D keep res_Inr_iff split: option.splits if_splits\<close>)
qed

lemma sched_step_calls:
  assumes inv: "sched_inv s" and ok: "closures_ok stored rest s" and step: "sched_step s s'"
  shows "closures_ok stored rest s'"
  using step
proof cases
  case (frame m fresh)
  obtain f fs where "frames (nodes s ! m) = f # fs" using frame(2) by (cases "frames (nodes s ! m)") auto
  then show ?thesis using frame_step_calls [OF ok inv frame(1)] frame(4) by blast
next
  case (loop m acquired)
  then show ?thesis using loop_step_calls [OF ok inv] by blast
next
  case (wake m w)
  then show ?thesis using closures_set_node [OF ok] calls_okD [OF ok, of m] by (simp add: num_nodes_def)
qed

lemma start_calls:
  assumes n: "0 < n" and run: "run_scheduler root (new_scheduler n es c) = Inr s" and root: "stored root"
  shows "closures_ok stored rest s"
proof -
  let ?xs = "replicate n (new_node es) :: 'c node list"
  have "\<forall>x \<in> set ?xs. \<not> attached x" by (auto simp: new_node_def)
  from attach_all_ok [OF this, of n 0] obtain ys where ys: "attach_all n 0 ?xs = Inr ys" "length ys = n"
    "\<forall>j < n. ys ! j = (new_node es)\<lparr>attached := True, steal_from := next_node n j\<rparr>" by auto
  let ?x = "(ys ! 0)\<lparr>frames := [Creating root]\<rparr>" and ?s = "(new_scheduler n es c)\<lparr>nodes := ys\<rparr>"
  have s: "s = set_node 0 ?x ?s"
    using run ys(1,2) n by (simp add: run_scheduler_def new_scheduler_def num_nodes_def set_node_def)
  have y: "frames y = [] \<and> loop y = Begin" if "y \<in> set ys" for y
    using that ys(2,3) by (auto simp: in_set_conv_nth new_node_def)
  then have "closures_ok stored rest ?s" by (simp add: closures_ok_def calls_ok_def new_scheduler_def)
  then show ?thesis unfolding s
    by (rule closures_set_node) (use y [OF nth_mem, of 0] n ys(2) root in \<open>simp add: calls_ok_def\<close>)
qed

lemma sched_run_calls:
  assumes "sched_run n root c s" "0 < n" "created s + 2 ^ 8 < 2 ^ 32" "stored root"
  shows "closures_ok stored rest s"
  using assms
proof (induction rule: sched_run.induct)
  case (init es s)
  then show ?case using start_calls by blast
next
  case (step s s')
  then have few: "created s + 2 ^ 8 < 2 ^ 32" using sched_step_created [OF step.hyps(2)] by simp
  have "sched_inv s" using sched_run_inv [OF step.hyps(1) step.prems(1) few] by blast
  moreover have "closures_ok stored rest s" using step.IH step.prems(1,3) few by blast
  ultimately show ?case using step.hyps(2) by (rule sched_step_calls)
qed

end

text \<open>Any closures at all: what is left is the flags.\<close>

interpretation any: closure_kinds "\<lambda>_. True" "\<lambda>_. True"
  by unfold_locales simp_all

abbreviation stoppers_ok :: "'c scheduler \<Rightarrow> bool" where
  "stoppers_ok s \<equiv> closures_ok (\<lambda>_. True) (\<lambda>_. True) s"

end
