(* ===== verification/Scheduler_Refine.thy ===== *)
theory Scheduler_Refine
  imports Scheduler_Closures
begin

text \<open>
  What the scheduler is for, without nodes, queues and pulses: a bag of closures, of which any may
  take its next step at any time. Every step of the scheduler, under every interleaving, is a
  step of the bag or leaves it as it is.
\<close>

subsection \<open>The bag of closures\<close>

record 'c bag =
  closures :: "'c act list multiset" \<comment> \<open>what is left to do of each unfinished task\<close>
  env :: 'c
  made :: nat
  finished :: nat
  stopped :: bool

definition start_bag :: "'c act list \<Rightarrow> 'c \<Rightarrow> 'c bag" where
  "start_bag root c = \<lparr>closures = {#root#}, env = c, made = 1, finished = 0, stopped = False\<rparr>"

inductive bag_step :: "'c bag \<Rightarrow> 'c bag \<Rightarrow> bool" where
  spawn: "closures b = add_mset (New work # acts) B \<Longrightarrow>
    bag_step b (b\<lparr>closures := add_mset work (add_mset acts B), made := made b + 1\<rparr>)"
| touch: "closures b = add_mset (Touch f # acts) B \<Longrightarrow> f (env b) = (c, cont) \<Longrightarrow>
    bag_step b (b\<lparr>closures := add_mset (cont @ acts) B, env := c\<rparr>)"
| stop: "closures b = add_mset (Stop # acts) B \<Longrightarrow>
    bag_step b (b\<lparr>closures := add_mset acts B, stopped := True\<rparr>)"
| finish: "closures b = add_mset [] B \<Longrightarrow> bag_step b (b\<lparr>closures := B, finished := finished b + 1\<rparr>)"

inductive bag_run :: "'c act list \<Rightarrow> 'c \<Rightarrow> 'c bag \<Rightarrow> bool" for root c where
  init: "bag_run root c (start_bag root c)"
| step: "bag_run root c b \<Longrightarrow> bag_step b b' \<Longrightarrow> bag_run root c b'"

lemma bag_run_count: "bag_run root c b \<Longrightarrow> made b = finished b + size (closures b)"
proof (induction rule: bag_run.induct)
  case init
  then show ?case by (simp add: start_bag_def)
next
  case (step b b')
  from step.hyps(2) step.IH show ?case by cases simp_all
qed

subsection \<open>The bag of a state\<close>

fun frame_loads :: "(task_id \<Rightarrow> 'c act list) \<Rightarrow> 'c frame list \<Rightarrow> 'c act list multiset" where
  "frame_loads T [] = {#}"
| "frame_loads T (Creating work # fs) = add_mset work (frame_loads T fs)"
| "frame_loads T (Pushing i # fs) = add_mset (T i) (frame_loads T fs)"
| "frame_loads T (Full i # fs) = add_mset (T i) (frame_loads T fs)"
| "frame_loads T (Running i acts # fs) = add_mset acts (frame_loads T fs)"
| "frame_loads T (f # fs) = frame_loads T fs"

definition node_loads :: "(task_id \<Rightarrow> 'c act list) \<Rightarrow> 'c node \<Rightarrow> 'c act list multiset" where
  "node_loads T x = image_mset T (mset (node_queue x)) + frame_loads T (frames x)"

definition task_of :: "'c scheduler \<Rightarrow> task_id \<Rightarrow> 'c act list" where
  "task_of s i = the (tasks s i)"

definition loads :: "'c scheduler \<Rightarrow> 'c act list multiset" where
  "loads s = sum_list (map (node_loads (task_of s)) (nodes s))"

fun creating :: "'c frame list \<Rightarrow> nat" where
  "creating [] = 0"
| "creating (Creating work # fs) = Suc (creating fs)"
| "creating (f # fs) = creating fs"

definition to_make :: "'c scheduler \<Rightarrow> nat" where
  "to_make s = sum_list (map (\<lambda>x. creating (frames x)) (nodes s))"

definition bag_of :: "'c scheduler \<Rightarrow> 'c bag" where
  "bag_of s = \<lparr>closures = loads s, env = client s, made = created s + to_make s, finished = executed s,
     stopped = (\<exists>x \<in> set (nodes s). stop_flag x)\<rparr>"

lemma frame_loads_cong: "(\<And>i. i \<in># frame_ids fs \<Longrightarrow> T i = T' i) \<Longrightarrow> frame_loads T fs = frame_loads T' fs"
  by (induction T fs rule: frame_loads.induct) auto

lemma node_loads_cong: "(\<And>i. i \<in># node_ids x \<Longrightarrow> T i = T' i) \<Longrightarrow> node_loads T x = node_loads T' x"
  using frame_loads_cong [of "frames x" T T'] by (auto simp: node_loads_def node_ids_def intro!: image_mset_cong)

lemma loads_cong:
  assumes "nodes s = xs" "\<And>x i. x \<in> set xs \<Longrightarrow> i \<in># node_ids x \<Longrightarrow> task_of s i = T i"
  shows "loads s = sum_list (map (node_loads T) xs)"
  using assms by (auto simp: loads_def intro!: arg_cong [of _ _ sum_list] node_loads_cong)

text \<open>Replacing one node.\<close>

lemma loads_set_node: "m < length (nodes s) \<Longrightarrow>
    loads (set_node m x s) + node_loads (task_of s) (nodes s ! m) = loads s + node_loads (task_of s) x"
  using sum_list_update_mset [of m "nodes s" "node_loads (task_of s)" x] by (simp add: loads_def task_of_def [abs_def])

lemma to_make_set_node: "m < length (nodes s) \<Longrightarrow>
    to_make (set_node m x s) + creating (frames (nodes s ! m)) = to_make s + creating (frames x)"
proof -
  have "m < length xs \<Longrightarrow> sum_list (map f (xs[m := x])) + f (xs ! m) = sum_list (map f xs) + (f x :: nat)" for f and xs :: "'a node list"
    by (induction xs arbitrary: m) (auto split: nat.split)
  then show "m < length (nodes s) \<Longrightarrow> ?thesis" by (simp add: to_make_def)
qed

lemma stop_flag_set_node: "m < length (nodes s) \<Longrightarrow> stop_flag x = stop_flag (nodes s ! m) \<Longrightarrow>
    (\<exists>y \<in> set (nodes (set_node m x s)). stop_flag y) \<longleftrightarrow> (\<exists>y \<in> set (nodes s). stop_flag y)"
proof -
  assume m: "m < length (nodes s)" and same: "stop_flag x = stop_flag (nodes s ! m)"
  have "map stop_flag ((nodes s)[m := x]) = map stop_flag (nodes s)"
    using m same by (simp add: map_update list_update_same_conv)
  then have "set (map stop_flag ((nodes s)[m := x])) = set (map stop_flag (nodes s))" by simp
  then have "True \<in> stop_flag ` set ((nodes s)[m := x]) \<longleftrightarrow> True \<in> stop_flag ` set (nodes s)" by simp
  then show ?thesis unfolding image_iff by simp
qed

text \<open>A node is replaced by one with the same tasks and flag.\<close>

lemma bag_of_set_node:
  assumes "m < num_nodes s" "node_loads (task_of s) x = node_loads (task_of s) (nodes s ! m)"
    "creating (frames x) = creating (frames (nodes s ! m))" "stop_flag x = stop_flag (nodes s ! m)"
  shows "bag_of (set_node m x s) = bag_of s"
proof -
  have m: "m < length (nodes s)" using assms(1) by (simp add: num_nodes_def)
  have "client (set_node m x s) = client s" by (simp add: set_node_def)
  then show ?thesis
    using loads_set_node [OF m, of x] to_make_set_node [OF m, of x] stop_flag_set_node [OF m assms(4)] assms(2,3)
    by (simp add: bag_of_def)
qed

subsection \<open>Every step is one of the bag, or none\<close>

text \<open>A task id that a node has is that of one stored task.\<close>

lemma other_id:
  assumes inv: "sched_inv s" and m: "m < num_nodes s" and f: "frames (nodes s ! m) = Running i acts # fs"
    and s': "nodes s' = (nodes s)[m := (nodes s ! m)\<lparr>frames := fs\<rparr>]"
    and x: "x \<in> set (nodes s')" "j \<in># node_ids x"
  shows "j \<noteq> i"
proof
  let ?x = "(nodes s ! m)\<lparr>frames := fs\<rparr>"
  have len: "m < length (nodes s)" using m by (simp add: num_nodes_def)
  have "sum_list (map node_ids (nodes s')) + node_ids (nodes s ! m) = sum_list (map node_ids (nodes s)) + node_ids ?x"
    unfolding s' by (rule sum_node_ids [OF len])
  moreover have "node_ids (nodes s ! m) = add_mset i (node_ids ?x)" using f by (simp add: node_ids_def node_queue_def)
  ultimately have "add_mset i (sum_list (map node_ids (nodes s'))) = sum_list (map node_ids (nodes s))" by simp
  then have "add_mset i (sum_list (map node_ids (nodes s'))) = mset_set (dom (tasks s))"
    using sched_invD(3) [OF inv] by simp
  then have "count (add_mset i (sum_list (map node_ids (nodes s')))) i \<le> 1" by (simp add: count_mset_set')
  then have "count (sum_list (map node_ids (nodes s'))) i = 0" by simp
  then have "i \<notin># sum_list (map node_ids (nodes s'))" by (rule not_in_iff [THEN iffD2])
  moreover assume "j = i"
  then have "i \<in># sum_list (map node_ids (nodes s'))"
    using x node_ids_sum by (metis in_set_conv_nth)
  ultimately show False by blast
qed

lemma sum_list_update_split:
  assumes "m < length xs"
  obtains R where "\<And>x. sum_list (map f (xs[m := x])) = f x + (R :: 'b :: comm_monoid_add)" "sum_list (map f xs) = f (xs ! m) + R"
proof -
  have "\<exists>R. \<forall>x. sum_list (map f (xs[m := x])) = f x + R" using assms
  proof (induction xs arbitrary: m)
    case (Cons y ys)
    show ?case
    proof (cases m)
      case 0
      then show ?thesis by (intro exI [of _ "sum_list (map f ys)"]) simp
    next
      case (Suc j)
      then obtain R where "\<forall>x. sum_list (map f (ys[j := x])) = f x + R" using Cons.IH [of j] Cons.prems by auto
      then show ?thesis using Suc by (intro exI [of _ "f y + R"]) (simp add: add.left_commute)
    qed
  qed simp
  then obtain R where R: "\<And>x. sum_list (map f (xs[m := x])) = f x + R" by blast
  moreover have "sum_list (map f xs) = f (xs ! m) + R" using R [of "xs ! m"] by simp
  ultimately show ?thesis by (rule that)
qed

lemma task_of_set_node [simp]: "task_of (set_node m x s) = task_of s"
  by (simp add: task_of_def [abs_def])

lemma loads_split:
  assumes "m < num_nodes s"
  obtains R where "\<And>x. loads (set_node m x s) = node_loads (task_of s) x + R" "loads s = node_loads (task_of s) (nodes s ! m) + R"
proof -
  have "m < length (nodes s)" using assms by (simp add: num_nodes_def)
  then obtain R where "\<And>x. sum_list (map (node_loads (task_of s)) ((nodes s)[m := x])) = node_loads (task_of s) x + R"
    "sum_list (map (node_loads (task_of s)) (nodes s)) = node_loads (task_of s) (nodes s ! m) + R"
    by (rule sum_list_update_split [where f = "node_loads (task_of s)"]) (rule that)
  then show ?thesis using that [of R] by (simp add: loads_def)
qed

text \<open>A thief \<open>m\<close> and its victim \<open>v\<close>.\<close>

lemma bag_of_pair:
  assumes m: "m < num_nodes s" and v: "v < num_nodes s"
    and loads: "node_loads (task_of s) x + node_loads (task_of s) y =
      node_loads (task_of s) ((nodes s)[v := y] ! m) + node_loads (task_of s) (nodes s ! v)"
    and y: "frames y = frames (nodes s ! v)" "stop_flag y = stop_flag (nodes s ! v)"
    and x: "creating (frames x) = creating (frames (nodes s ! m))" "stop_flag x = stop_flag (nodes s ! m)"
  shows "bag_of (set_node m x (set_node v y s)) = bag_of s"
proof -
  let ?s = "set_node v y s"
  have len: "m < length (nodes ?s)" "v < length (nodes s)" using m v by (simp_all add: num_nodes_def)
  have same: "creating (frames (nodes ?s ! m)) = creating (frames (nodes s ! m))" "stop_flag (nodes ?s ! m) = stop_flag (nodes s ! m)"
    using y len by (cases "v = m"; simp)+
  have "loads ?s + node_loads (task_of s) (nodes s ! v) = loads s + node_loads (task_of s) y"
    by (rule loads_set_node [OF len(2)])
  moreover have "loads (set_node m x ?s) + node_loads (task_of s) (nodes ?s ! m) = loads ?s + node_loads (task_of s) x"
    using loads_set_node [OF len(1), of x] by simp
  ultimately have "loads (set_node m x ?s) = loads s"
    by (rule mset_pair) (use loads in simp)
  moreover have "to_make (set_node m x ?s) = to_make s"
    using to_make_set_node [OF len(2), of y] to_make_set_node [OF len(1), of x] same(1) y(1) x(1) by simp
  moreover have "(\<exists>z \<in> set (nodes (set_node m x ?s)). stop_flag z) \<longleftrightarrow> (\<exists>z \<in> set (nodes s). stop_flag z)"
    using stop_flag_set_node [OF len(1), of x] stop_flag_set_node [OF len(2), of y] same(2) y(2) x(2) by simp
  moreover have "client (set_node m x ?s) = client s" by (simp add: set_node_def)
  ultimately show ?thesis by (simp add: bag_of_def)
qed

lemma pull_loads:
  assumes pull: "pull_and_execute y z s = Inr x'" and ok: "probed_ok queue_bits (raised z) (generic_tasks z)"
    and y: "generic_tasks y = generic_tasks z" "raised_by y = raised_by z" "frames y = frames z" "stop_flag y = stop_flag z"
  shows "node_loads (task_of s) x' = node_loads (task_of s) z \<and> creating (frames x') = creating (frames z) \<and> stop_flag x' = stop_flag z"
proof (cases rule: wq.pullE [OF ok, case_names none some])
  case none
  then have "x' = y\<lparr>generic_tasks := generic_tasks z\<rparr>" using pull by (simp add: pull_and_execute_def)
  then show ?thesis using y by (simp add: node_loads_def node_queue_def)
next
  case (some i q)
  then obtain work where "tasks s i = Some work" "x' = z\<lparr>generic_tasks := q, frames := Running i work # frames z\<rparr>"
    using pull by (auto simp: pull_and_execute_def execute_eq_Inr)
  then show ?thesis using some(3) by (simp add: node_loads_def node_queue_def task_of_def)
qed

text \<open>The steps of a steal.\<close>

lemma steal_bag:
  assumes inv: "sched_inv s" and m: "m < num_nodes s" and few: "created s + 2 ^ 8 < 2 ^ 32"
    and step: "steal_and_execute m v acquired yes no s = Inr s'"
  shows "bag_of s' = bag_of s"
  using step
proof (cases rule: steal_cases)
  case refused
  then show ?thesis using bag_of_set_node [OF m] by (simp add: node_loads_def node_queue_def)
next
  case (raised y)
  have oky: "node_ok (num_nodes s) (created s) (nodes s ! v)" using sched_invD(4) [OF inv raised(1)] .
  then have ok: "probed_ok queue_bits False (generic_tasks (nodes s ! v))" using node_okD(1) [OF oky] raised(2) by auto
  have len: "m < length (nodes s)" "v < length (nodes s)" using m raised(1) by (simp_all add: num_nodes_def)
  have "node_queue y = node_queue (nodes s ! v)"
    using wq.raise_law [OF ok size_wrap [OF few oky]] raised(2,3) by (simp add: node_queue_def)
  then show ?thesis unfolding raised(4)
    by (intro bag_of_pair [OF m raised(1)]) (use raised(3) len in \<open>simp_all add: node_loads_def node_queue_def nth_list_update\<close>)
qed

lemma probe_bag:
  assumes inv: "sched_inv s" and m: "m < num_nodes s" and few: "created s + 2 ^ 8 < 2 ^ 32"
    and pc: "loop (nodes s ! m) = Probing v h yes no" and step: "probe_step m v h yes no s = Inr s'"
  shows "bag_of s' = bag_of s"
  using step
proof (cases rule: probe_cases)
  case none
  then show ?thesis using bag_of_set_node [OF m] by (simp add: node_loads_def node_queue_def)
next
  case (some i work y)
  have "holding (loop (nodes s ! m)) = Some (v, h)" using pc by simp
  note v = holding_queue [OF inv m this]
  have h: "head (generic_tasks (nodes s ! v)) - 1 = h" using v(3) by simp
  have len: "m < length (nodes s)" "v < length (nodes s)" using m v(1) by (simp_all add: num_nodes_def)
  have q: "probed_contents queue_bits True (generic_tasks (nodes s ! v)) = i # probed_contents queue_bits False (generic_tasks (nodes s ! v))"
    by (rule wq.probeE [OF v(4) size_wrap [OF few sched_invD(4) [OF inv v(1)]], unfolded h]) (use some(2) in simp_all)
  show ?thesis unfolding some(5)
    by (rule bag_of_pair [OF m v(1)]) (use q v(2) len some(3,4) in \<open>simp_all add: node_loads_def node_queue_def task_of_def nth_list_update\<close>)
qed

lemma restore_bag:
  assumes inv: "sched_inv s" and m: "m < num_nodes s"
    and pc: "loop (nodes s ! m) = Restoring v h pc'" and step: "restore_step m v h pc' s = Inr s'"
  shows "bag_of s' = bag_of s"
  using step
proof (rule restore_cases)
  fix y
  assume y: "y = (nodes s ! v)\<lparr>generic_tasks := undo_steal h (generic_tasks (nodes s ! v)), raised_by := None\<rparr>"
    and s': "s' = set_node m (((nodes s)[v := y] ! m)\<lparr>loop := pc'\<rparr>) (set_node v y s)"
  have "holding (loop (nodes s ! m)) = Some (v, h)" using pc by simp
  note v = holding_queue [OF inv m this]
  have len: "m < length (nodes s)" "v < length (nodes s)" using m v(1) by (simp_all add: num_nodes_def)
  have "node_queue y = node_queue (nodes s ! v)" using wq.undo_law [OF v(4)] v(2,3) y by (simp add: node_queue_def)
  then show ?thesis unfolding s'
    by (intro bag_of_pair [OF m v(1)]) (use y len in \<open>simp_all add: node_loads_def node_queue_def nth_list_update\<close>)
qed

lemma loop_step_bag:
  assumes inv: "sched_inv s" and m: "m < num_nodes s" and few: "created s + 2 ^ 8 < 2 ^ 32"
    and step: "loop_step acquired m s = Inr s'"
  shows "bag_of s' = bag_of s"
proof -
  let ?x = "nodes s ! m"
  have ok: "probed_ok queue_bits (raised ?x) (generic_tasks ?x)" using node_okD(1) [OF sched_invD(4) [OF inv m]] .
  have len: "m < length (nodes s)" using m by (simp add: num_nodes_def)
  have pull: "bag_of s' = bag_of s"
    if "bind_res (pull_and_execute (?x\<lparr>loop := pc\<rparr>) ?x s) (\<lambda>x. Inr (set_node m x s)) = Inr s'" for pc
  proof -
    from that obtain x' where x': "pull_and_execute (?x\<lparr>loop := pc\<rparr>) ?x s = Inr x'" "s' = set_node m x' s"
      unfolding bind_set_node by (elim exE conjE) (rule that)
    show ?thesis unfolding x'(2) using pull_loads [OF x'(1) ok] by (intro bag_of_set_node [OF m]) simp_all
  qed
  note set = bag_of_set_node [OF m, unfolded node_loads_def node_queue_def]
  have keep: "bag_of (set_node m (?x\<lparr>loop := pc\<rparr>) s) = bag_of s" "bag_of (set_node m (?x\<lparr>available := b, loop := pc\<rparr>) s) = bag_of s"
    "bag_of (set_node m (?x\<lparr>wakeup := w, loop := pc\<rparr>) s) = bag_of s" for pc b w by (rule set; simp)+
  show ?thesis
  proof (cases "loop ?x")
    case (Deplete v)
    then show ?thesis using step by (intro pull [of "Offer v"]) (simp add: loop_step_def Let_def)
  next
    case (Drain v)
    then show ?thesis using step by (intro pull [of "Offer v"]) (simp add: loop_step_def Let_def)
  next
    case (Steal v e)
    then have "steal_and_execute m v acquired (Stole v) (if e + 1 = num_nodes s then Sleep else Check v (e + 1)) s = Inr s'"
      using step by (simp add: loop_step_def Let_def)
    then show ?thesis by (rule steal_bag [OF inv m few])
  next
    case (Retry v w)
    then have "steal_and_execute m w acquired (Drain w) (Drain v) s = Inr s'" using step by (simp add: loop_step_def Let_def)
    then show ?thesis by (rule steal_bag [OF inv m few])
  next
    case (Probing v h yes no)
    then have "probe_step m v h yes no s = Inr s'" using step by (simp add: loop_step_def Let_def)
    then show ?thesis by (rule probe_bag [OF inv m few Probing])
  next
    case (Restoring v h pc)
    then have "restore_step m v h pc s = Inr s'" using step by (simp add: loop_step_def Let_def)
    then show ?thesis by (rule restore_bag [OF inv m Restoring])
  qed (use step in \<open>auto simp: loop_step_def Let_def keep res_Inr_iff split: option.splits if_splits\<close>)
qed

text \<open>Calls in progress.\<close>

lemma creating_bag:
  assumes inv: "sched_inv s" and m: "m < num_nodes s" and f: "frames (nodes s ! m) = Creating work # fs"
    and fresh: "tasks s fresh = None"
  shows "bag_of (set_node m ((nodes s ! m)\<lparr>frames := Pushing fresh # fs\<rparr>) s
      \<lparr>tasks := (tasks s)(fresh \<mapsto> work), created := created s + 1\<rparr>) = bag_of s"
proof -
  let ?x = "nodes s ! m" and ?x' = "(nodes s ! m)\<lparr>frames := Pushing fresh # fs\<rparr>"
  let ?s' = "set_node m ?x' s\<lparr>tasks := (tasks s)(fresh \<mapsto> work), created := created s + 1\<rparr>"
  let ?T = "task_of ?s'"
  have len: "m < length (nodes s)" using m by (simp add: num_nodes_def)
  have old: "?T i = task_of s i" if x: "x \<in> set (nodes s)" and i: "i \<in># node_ids x" for x i
  proof -
    from x obtain j where j: "j < length (nodes s)" "x = nodes s ! j" by (auto simp: in_set_conv_nth)
    then have "i \<in># sum_list (map node_ids (nodes s))" using i node_ids_sum by blast
    then have "i \<in> dom (tasks s)" using sched_invD(1,3) [OF inv] by simp
    then show ?thesis using fresh by (auto simp: task_of_def)
  qed
  obtain R where R: "\<And>x. sum_list (map (node_loads ?T) ((nodes s)[m := x])) = node_loads ?T x + R"
    "sum_list (map (node_loads ?T) (nodes s)) = node_loads ?T ?x + R"
    by (rule sum_list_update_split [OF len, of "node_loads ?T"]) (rule that)
  have "node_loads ?T ?x' = node_loads ?T ?x" using f by (simp add: node_loads_def node_queue_def task_of_def)
  then have "loads ?s' = sum_list (map (node_loads ?T) (nodes s))" using R by (simp add: loads_def)
  also have "\<dots> = loads s" using loads_cong [of s "nodes s" ?T] old by simp
  finally have "loads ?s' = loads s" .
  moreover have "Suc (to_make ?s') = to_make s"
    using to_make_set_node [OF len, of ?x'] f by (simp add: to_make_def)
  moreover have "(\<exists>y \<in> set (nodes ?s'). stop_flag y) \<longleftrightarrow> (\<exists>y \<in> set (nodes s). stop_flag y)"
    using stop_flag_set_node [OF len, of ?x'] by simp
  moreover have "client ?s' = client s" by (simp add: set_node_def)
  ultimately show ?thesis by (simp add: bag_of_def)
qed

text \<open>Replacing the calls of a node by others with the same tasks, after a change of another node.\<close>

lemma bag_of_frames:
  assumes m: "m < num_nodes s" and f: "frames (nodes s ! m) = f # fs"
    and gs: "frame_loads (task_of s) gs = frame_loads (task_of s) (f # fs)" "creating gs = creating (f # fs)"
  shows "bag_of (set_node m ((nodes s ! m)\<lparr>frames := gs\<rparr>) s) = bag_of s"
  by (rule bag_of_set_node [OF m]) (use f gs in \<open>simp_all add: node_loads_def node_queue_def\<close>)

lemma bag_of_two:
  assumes m: "m < num_nodes s" and i: "i < num_nodes s" and f: "frames (nodes s ! m) = f # fs"
    and y: "frames y = frames (nodes s ! i)" "bag_of (set_node i y s) = bag_of s"
    and gs: "frame_loads (task_of s) gs = frame_loads (task_of s) (f # fs)" "creating gs = creating (f # fs)"
  shows "bag_of (set_node m ((nodes (set_node i y s) ! m)\<lparr>frames := gs\<rparr>) (set_node i y s)) = bag_of s"
proof -
  have "frames (nodes (set_node i y s) ! m) = f # fs" using f y(1) m i by (cases "i = m") (simp_all add: num_nodes_def)
  then show ?thesis using bag_of_frames [of m "set_node i y s" f fs gs] m gs y(2) by simp
qed

lemma new_task_bag:
  assumes inv: "sched_inv s" and m: "m < num_nodes s" and f: "frames (nodes s ! m) = f # fs"
    and fresh: "tasks s fresh = None" and few: "created s + 2 ^ 8 < 2 ^ 32"
    and call: "f = Creating work \<or> f = Pushing i \<or> f = Full i \<or> f = Delegating j"
    and step: "new_task_step fresh m f fs s = Inr s'"
  shows "bag_of s' = bag_of s"
proof -
  let ?x = "nodes s ! m"
  have x: "node_ok (num_nodes s) (created s) ?x" using sched_invD(4) [OF inv m] .
  note ok = node_okD(1) [OF x] and same = bag_of_frames [OF m f] and D = new_task_step_def Let_def
  from call consider (creating) "f = Creating work" | (pushing) "f = Pushing i" | (full) "f = Full i" | (delegating) "f = Delegating j"
    by blast
  then show ?thesis
  proof cases
    case creating
    then show ?thesis using creating_bag [OF inv m f [unfolded creating] fresh] step by (simp add: D)
  next
    case pushing
    show ?thesis
    proof (cases rule: wq.pushE [OF ok size_wrap [OF few x], of i, case_names refused pushed])
      case refused
      then show ?thesis using same [of "Full i # fs"] step pushing by (auto simp: D)
    next
      case (pushed q)
      have "bag_of (set_node m (?x\<lparr>generic_tasks := q, frames := Delegating ((m + 1) mod num_nodes s) # fs\<rparr>) s) = bag_of s"
        by (rule bag_of_set_node [OF m]) (use f pushing pushed(3) in \<open>simp_all add: node_loads_def node_queue_def\<close>)
      then show ?thesis using step pushing pushed(1) by (auto simp: D)
    qed
  next
    case full
    let ?y = "?x\<lparr>frames := Pushing i # fs\<rparr>"
    obtain x' where x': "pull_and_execute ?y ?y s = Inr x'" "s' = set_node m x' s"
      using step full by (auto simp: D res_Inr_iff)
    then show ?thesis
      using pull_loads [OF x'(1)] ok f full by (auto intro!: bag_of_set_node [OF m] simp: node_loads_def node_queue_def)
  next
    case delegating
    have j: "j < num_nodes s" "j < length (nodes s)" using node_okD(4) [OF x] f delegating by (force simp: num_nodes_def)+
    have "bag_of (set_node j ((nodes s ! j)\<lparr>available := False\<rparr>) s) = bag_of s"
      by (rule bag_of_set_node [OF j(1)]) (simp_all add: node_loads_def node_queue_def)
    from bag_of_two [OF m j(1) f _ this, where gs = "Waking j # fs"]
    have wake: "j \<noteq> m \<Longrightarrow> bag_of (set_node m (?x\<lparr>frames := Waking j # fs\<rparr>) (set_node j ((nodes s ! j)\<lparr>available := False\<rparr>) s)) = bag_of s"
      using delegating by simp
    show ?thesis
      using step delegating j(2) same [of fs] same [of "Delegating ((j + 1) mod num_nodes s) # fs"] wake
      by (auto simp: D split: if_splits)
  qed
qed

lemma wakeup_bag:
  assumes inv: "sched_inv s" and m: "m < num_nodes s" and f: "frames (nodes s ! m) = f # fs"
    and call: "f = Waking i \<or> f = Pulsing i" and step: "wakeup_step m f fs s = Inr s'"
  shows "bag_of s' = bag_of s"
proof -
  have i: "i < num_nodes s" "i < length (nodes s)"
    using node_okD(4) [OF sched_invD(4) [OF inv m]] f call by (force simp: num_nodes_def)+
  have one: "bag_of (set_node i ((nodes s ! i)\<lparr>steal_from := m\<rparr>) s) = bag_of s"
    "bag_of (set_node i ((nodes s ! i)\<lparr>wakeup := w\<rparr>) s) = bag_of s" for w
    by (rule bag_of_set_node [OF i(1)]; simp add: node_loads_def node_queue_def)+
  from call show ?thesis
  proof
    assume "f = Waking i"
    then show ?thesis
      using step i(2) bag_of_two [OF m i(1) f _ one(1), where gs = "Pulsing i # fs"] by (auto simp: wakeup_step_def Let_def)
  next
    assume "f = Pulsing i"
    then show ?thesis
      using step i(2) bag_of_two [OF m i(1) f _ one(2), where gs = fs] by (auto simp: wakeup_step_def Let_def)
  qed
qed

lemma stop_bag:
  assumes m: "m < num_nodes s" and f: "frames (nodes s ! m) = Stopping i # fs"
    and own: "stop_flag (nodes s ! m)" and step: "stop_step m i fs s = Inr s'"
  shows "bag_of s' = bag_of s"
proof (cases "i < num_nodes s")
  case True
  have len: "m < length (nodes s)" "i < length (nodes s)" using m True by (simp_all add: num_nodes_def)
  let ?y = "(nodes s ! i)\<lparr>stop_flag := True\<rparr>"
  have "nodes s ! m \<in> set (nodes s)" "(nodes s)[i := ?y] ! m \<in> set ((nodes s)[i := ?y])"
    by (rule nth_mem; use len in simp)+
  moreover have "stop_flag ((nodes s)[i := ?y] ! m)" using len own by (simp add: nth_list_update)
  ultimately have "(\<exists>x \<in> set (nodes (set_node i ?y s)). stop_flag x) \<longleftrightarrow> (\<exists>x \<in> set (nodes s). stop_flag x)"
    using own by auto
  moreover have "loads (set_node i ?y s) = loads s" "to_make (set_node i ?y s) = to_make s"
    using loads_set_node [OF len(2), of ?y] to_make_set_node [OF len(2), of ?y] by (simp_all add: node_loads_def node_queue_def)
  moreover have "client (set_node i ?y s) = client s" by (simp add: set_node_def)
  ultimately have "bag_of (set_node i ?y s) = bag_of s" by (simp add: bag_of_def)
  then show ?thesis
    using step True len(2) bag_of_two [OF m True f _ _, of ?y "Pulsing i # Stopping (i + 1) # fs"]
    by (auto simp: stop_step_def Let_def)
next
  case False
  then show ?thesis using step bag_of_frames [OF m f, of fs] by (simp add: stop_step_def)
qed

text \<open>A closure makes its next move.\<close>

lemma running_loads:
  assumes m: "m < num_nodes s" and f: "frames (nodes s ! m) = Running i acts # fs"
  obtains B where "loads s = add_mset acts B"
    "\<And>gs G. frame_loads (task_of s) gs = G + frame_loads (task_of s) fs \<Longrightarrow>
      loads (set_node m ((nodes s ! m)\<lparr>frames := gs\<rparr>) s) = G + B"
    "\<And>gs G. frame_loads (task_of s) gs = G + frame_loads (task_of s) fs \<Longrightarrow>
      loads (set_node m ((nodes s ! m)\<lparr>stop_flag := True, frames := gs\<rparr>) s) = G + B"
proof -
  obtain R where R: "\<And>x. loads (set_node m x s) = node_loads (task_of s) x + R"
    "loads s = node_loads (task_of s) (nodes s ! m) + R"
    using m by (rule loads_split) (rule that)
  let ?B = "image_mset (task_of s) (mset (node_queue (nodes s ! m))) + frame_loads (task_of s) fs + R"
  show ?thesis
    by (rule that [of ?B]) (use R f in \<open>simp_all add: node_loads_def node_queue_def ac_simps\<close>)
qed

lemma stopped_set_node:
  "m < num_nodes s \<Longrightarrow> stop_flag x \<Longrightarrow> \<exists>y \<in> set (nodes (set_node m x s)). stop_flag y"
  by (intro bexI [of _ x]) (simp_all add: num_nodes_def set_update_memI)

lemma closure_bag:
  assumes inv: "sched_inv s" and m: "m < num_nodes s" and f: "frames (nodes s ! m) = Running i acts # fs"
    and step: "closure_step m i acts fs s = Inr s'"
  shows "bag_step (bag_of s) (bag_of s')"
proof -
  let ?x = "nodes s ! m"
  have len: "m < length (nodes s)" using m by (simp add: num_nodes_def)
  obtain B where B: "loads s = add_mset acts B"
    "\<And>gs G. frame_loads (task_of s) gs = G + frame_loads (task_of s) fs \<Longrightarrow>
      loads (set_node m (?x\<lparr>frames := gs\<rparr>) s) = G + B"
    "\<And>gs G. frame_loads (task_of s) gs = G + frame_loads (task_of s) fs \<Longrightarrow>
      loads (set_node m (?x\<lparr>stop_flag := True, frames := gs\<rparr>) s) = G + B"
    by (rule running_loads [OF m f]) (rule that)
  have b: "closures (bag_of s) = add_mset acts B" using B(1) by (simp add: bag_of_def)
  have client: "client (set_node m x s) = client s" for x by (simp add: set_node_def)
  note flag = stop_flag_set_node [OF len] and to_make = to_make_set_node [OF len]
  show ?thesis
  proof (cases acts)
    case Nil
    let ?s = "set_node m (?x\<lparr>frames := fs\<rparr>) s"
    have s': "s' = ?s\<lparr>tasks := (tasks s)(i := None), executed := executed s + 1\<rparr>"
      using step Nil by (simp add: closure_step_def)
    have "loads s' = sum_list (map (node_loads (task_of s)) (nodes s'))"
    proof (rule loads_cong [OF refl])
      fix x j
      assume "x \<in> set (nodes s')" "j \<in># node_ids x"
      then have "j \<noteq> i" by (intro other_id [OF inv m f, of s' x j]) (simp_all add: s')
      then show "task_of s' j = task_of s j" by (simp add: s' task_of_def)
    qed
    also have "\<dots> = loads ?s" by (simp add: loads_def s')
    finally have "loads s' = B" using B(2) [of fs "{#}"] by simp
    moreover have "to_make s' = to_make s" using to_make [of "?x\<lparr>frames := fs\<rparr>"] f by (simp add: s' to_make_def)
    ultimately have "bag_of s' = (bag_of s)\<lparr>closures := B, finished := finished (bag_of s) + 1\<rparr>"
      using flag [of "?x\<lparr>frames := fs\<rparr>"] client by (simp add: s' bag_of_def)
    then show ?thesis using bag_step.finish [of "bag_of s" B] b Nil by simp
  next
    case (Cons a rest)
    show ?thesis
    proof (cases a)
      case (New work)
      let ?gs = "Creating work # Running i rest # fs"
      have s': "s' = set_node m (?x\<lparr>frames := ?gs\<rparr>) s" using step Cons New by (simp add: closure_step_def)
      have "loads s' = add_mset work (add_mset rest B)" using B(2) [of ?gs "{#work, rest#}"] by (simp add: s')
      moreover have "to_make s' = Suc (to_make s)" using to_make [of "?x\<lparr>frames := ?gs\<rparr>"] f by (simp add: s')
      ultimately have "bag_of s' = (bag_of s)\<lparr>closures := add_mset work (add_mset rest B), made := made (bag_of s) + 1\<rparr>"
        using flag [of "?x\<lparr>frames := ?gs\<rparr>"] client by (simp add: s' bag_of_def)
      then show ?thesis using bag_step.spawn [of "bag_of s" work rest B] b Cons New by simp
    next
      case Stop
      let ?gs = "if stop_flag ?x then Running i rest # fs else Stopping 0 # Running i rest # fs"
      let ?y = "?x\<lparr>stop_flag := True, frames := ?gs\<rparr>"
      have s': "s' = set_node m ?y s" using step Cons Stop by (simp add: closure_step_def Let_def)
      have "loads s' = add_mset rest B" unfolding s' using B(3) [of ?gs "{#rest#}"] by simp
      moreover have "creating (frames ?y) = creating (frames ?x)" using f by simp
      then have "to_make s' = to_make s" using to_make [of ?y] unfolding s' by linarith
      ultimately have "bag_of s' = (bag_of s)\<lparr>closures := add_mset rest B, stopped := True\<rparr>"
        using stopped_set_node [OF m, of ?y] client unfolding s' by (simp add: bag_of_def)
      then show ?thesis using bag_step.stop [of "bag_of s" rest B] b Cons Stop by simp
    next
      case (Touch h)
      obtain c cont where h: "h (client s) = (c, cont)" by (cases "h (client s)") simp
      let ?gs = "Running i (cont @ rest) # fs"
      let ?s = "set_node m (?x\<lparr>frames := ?gs\<rparr>) s"
      have s': "s' = ?s\<lparr>client := c\<rparr>" using step Cons Touch h by (simp add: closure_step_def)
      have "loads s' = loads ?s" by (simp add: s' loads_def task_of_def [abs_def])
      then have "loads s' = add_mset (cont @ rest) B" using B(2) [of ?gs "{#cont @ rest#}"] by simp
      moreover have "to_make s' = to_make s" using to_make [of "?x\<lparr>frames := ?gs\<rparr>"] f by (simp add: s' to_make_def)
      ultimately have "bag_of s' = (bag_of s)\<lparr>closures := add_mset (cont @ rest) B, env := c\<rparr>"
        using flag [of "?x\<lparr>frames := ?gs\<rparr>"] by (simp add: s' bag_of_def)
      moreover have "h (env (bag_of s)) = (c, cont)" using h by (simp add: bag_of_def)
      ultimately show ?thesis using bag_step.touch [of "bag_of s" h rest B c cont] b Cons Touch by simp
    qed
  qed
qed

subsection \<open>Runs\<close>

lemma sched_step_bag:
  assumes inv: "sched_inv s" and ok: "stoppers_ok s" and few: "created s + 2 ^ 8 < 2 ^ 32" and step: "sched_step s s'"
  shows "bag_of s' = bag_of s \<or> bag_step (bag_of s) (bag_of s')"
  using step
proof cases
  case (frame m fresh)
  obtain f fs where f: "frames (nodes s ! m) = f # fs" using frame(2) by (cases "frames (nodes s ! m)") auto
  have own: "stop_flag (nodes s ! m)" if "f = Stopping i" for i
    using calls_okD [OF ok, of m] frame(1) f that by (simp add: calls_ok_def num_nodes_def)
  show ?thesis
    using frame(4) f new_task_bag [OF inv frame(1) f frame(3) few] wakeup_bag [OF inv frame(1) f]
      stop_bag [OF frame(1)] closure_bag [OF inv frame(1)] own
    by (cases f) (auto simp: frame_step_def)
next
  case (loop m acquired)
  then show ?thesis using loop_step_bag [OF inv loop(1) few] by blast
next
  case (wake m w)
  have "bag_of s' = bag_of s"
    unfolding wake(1) by (rule bag_of_set_node [OF wake(2)]) (simp_all add: node_loads_def node_queue_def)
  then show ?thesis ..
qed

lemma start_bag_of:
  fixes root :: "'c act list"
  assumes n: "0 < n" and es: "length es = capacity queue_bits" and run: "run_scheduler root (new_scheduler n es c) = Inr s"
  shows "bag_of s = start_bag root c"
proof -
  let ?xs = "replicate n (new_node es) :: 'c node list"
  have "\<forall>x \<in> set ?xs. \<not> attached x" by (auto simp: new_node_def)
  from attach_all_ok [OF this, of n 0] obtain ys where ys: "attach_all n 0 ?xs = Inr ys" "length ys = n"
    "\<forall>j < n. ys ! j = (new_node es)\<lparr>attached := True, steal_from := next_node n j\<rparr>" by auto
  let ?x = "(ys ! 0)\<lparr>frames := [Creating root]\<rparr>"
  let ?s = "(new_scheduler n es c)\<lparr>nodes := ys\<rparr>"
  have s: "s = set_node 0 ?x ?s"
    using run ys(1,2) n by (simp add: run_scheduler_def new_scheduler_def num_nodes_def set_node_def)
  have "wsq_ok queue_bits (new_queue es)" "contents queue_bits (new_queue es) = []"
    using wsq_ok_new [of queue_bits es] es by (simp_all add: queue_bits_def)
  then have y: "node_loads T y = {#}" "creating (frames y) = 0" "\<not> stop_flag y" "frames y = []" if "y \<in> set ys" for T y
    using that ys(2,3) by (auto simp: in_set_conv_nth node_loads_def node_queue_def probed_contents_def new_node_def)
  have len: "0 < length (nodes ?s)" "ys ! 0 \<in> set ys" using n ys(2) by simp_all
  have "loads ?s = {#}" using y(1) by (auto simp: loads_def intro: sum_list_all_empty)
  moreover have "node_loads T ?x = {#root#}" for T
    using y(1,4) [OF len(2)] by (simp add: node_loads_def node_queue_def)
  ultimately have "loads s = {#root#}"
    using loads_set_node [OF len(1), of ?x] y(1) [OF len(2)] by (simp add: s)
  moreover have "to_make ?s = 0" using y(2) by (simp add: to_make_def)
  then have "to_make s = 1" using to_make_set_node [OF len(1), of ?x] y(2) [OF len(2)] by (simp add: s)
  moreover have "\<not> (\<exists>z \<in> set (nodes s). stop_flag z)"
    using stop_flag_set_node [OF len(1), of ?x] y(3) by (simp add: s)
  ultimately show ?thesis by (simp add: s bag_of_def start_bag_def set_node_def new_scheduler_def)
qed

lemma sched_run_bag:
  assumes "sched_run n root c s" "0 < n" "created s + 2 ^ 8 < 2 ^ 32"
  shows "bag_run root c (bag_of s)"
  using assms
proof (induction rule: sched_run.induct)
  case (init es s)
  then show ?case using start_bag_of [OF init(3,1,2)] bag_run.init by simp
next
  case (step s s')
  then have few: "created s + 2 ^ 8 < 2 ^ 32" using sched_step_created [OF step.hyps(2)] by simp
  have "sched_inv s" using sched_run_inv [OF step.hyps(1) step.prems(1) few] by blast
  moreover have "stoppers_ok s" by (rule any.sched_run_calls [OF step.hyps(1) step.prems(1) few]) simp
  ultimately have "bag_of s' = bag_of s \<or> bag_step (bag_of s) (bag_of s')"
    by (rule sched_step_bag) (fact few, fact step.hyps(2))
  moreover have "bag_run root c (bag_of s)" by (rule step.IH [OF step.prems(1) few])
  ultimately show ?case by (auto intro: bag_run.step)
qed

lemma scheduler_bag:
  assumes "sched_run n root c s" "0 < n" "created s + 2 ^ 8 < 2 ^ 32"
  shows "bag_run root c (bag_of s)" "sched_step s s' \<Longrightarrow> bag_of s' = bag_of s \<or> bag_step (bag_of s) (bag_of s')"
  using sched_run_bag [OF assms] sched_step_bag [OF conjunct1 [OF sched_run_inv [OF assms]] any.sched_run_calls [OF assms] assms(3)]
  by simp_all



end
