(* ===== verification/Sandbox.thy ===== *)
theory Sandbox
  imports Scheduler_Refine
begin

text \<open>
  The program of \<open>proto/sandbox.cpp\<close>: three levels of tasks, each of which makes 40 tasks of the next, and
  64000 leaf tasks that count down \<open>tasks_left\<close>; the leaf that counts it to zero stops the scheduler.
  The fan-out and the number of rounds of the leaves are parameters here; the program has 40 and 1000 times 1000.
\<close>

subsection \<open>The program\<close>

text \<open>\<open>example\<close> is a plain \<open>int\<close> that all threads add to, which the language leaves undefined, as it does
  its overflow; here each \<open>+=\<close> is atomic and wraps around.\<close>

record sandbox =
  tasks_left :: "32 word"
  example :: "32 word"

text \<open>\<open>fetch_sub\<close> returns the old value.\<close>

definition task_done :: "sandbox \<Rightarrow> sandbox \<times> bool" where
  "task_done c = (let tlm = tasks_left c in (c\<lparr>tasks_left := tlm - 1\<rparr>, tlm = 1))"

definition add_example :: "sandbox \<Rightarrow> sandbox \<times> sandbox act list" where
  "add_example c = (c\<lparr>example := example c + tasks_left c\<rparr>, [])"

definition end_leaf :: "sandbox \<Rightarrow> sandbox \<times> sandbox act list" where
  "end_leaf c = (let (c, last) = task_done c in (c, if last then [Stop] else []))"

definition leaf_task :: "nat \<Rightarrow> sandbox act list" where
  "leaf_task rounds = replicate rounds (Touch add_example) @ [Touch end_leaf]"

definition subchild_task :: "nat \<Rightarrow> nat \<Rightarrow> sandbox act list" where
  "subchild_task fan rounds = replicate fan (New (leaf_task rounds))"

definition child_task :: "nat \<Rightarrow> nat \<Rightarrow> sandbox act list" where
  "child_task fan rounds = replicate fan (New (subchild_task fan rounds))"

definition root_task :: "nat \<Rightarrow> nat \<Rightarrow> sandbox act list" where
  "root_task fan rounds = replicate fan (New (child_task fan rounds))"

text \<open>\<open>tasks_left\<close> when \<open>run\<close> is called: 64000 for the fan-out of 40.\<close>

definition sandbox_start :: "nat \<Rightarrow> sandbox" where
  "sandbox_start fan = \<lparr>tasks_left = of_nat (fan ^ 3), example = 0\<rparr>"

lemma sandbox_start_40: "sandbox_start 40 = \<lparr>tasks_left = 64000, example = 0\<rparr>"
  by (simp add: sandbox_start_def)

text \<open>A run of \<open>main\<close>: a scheduler of four nodes.\<close>

definition sandbox_run :: "nat \<Rightarrow> nat \<Rightarrow> sandbox scheduler \<Rightarrow> bool" where
  "sandbox_run fan rounds s \<longleftrightarrow> sched_run 4 (root_task fan rounds) (sandbox_start fan) s"

definition sandbox_main :: "sandbox scheduler \<Rightarrow> bool" where
  "sandbox_main s \<longleftrightarrow> sandbox_run 40 (1000 * 1000) s"

subsection \<open>What is left of a task\<close>

datatype part = Root_part nat | Child_part nat | Subchild_part nat | Leaf_part nat | Stop_part

fun acts_of :: "nat \<Rightarrow> nat \<Rightarrow> part \<Rightarrow> sandbox act list" where
  "acts_of fan rounds (Root_part k) = replicate k (New (child_task fan rounds))"
| "acts_of fan rounds (Child_part k) = replicate k (New (subchild_task fan rounds))"
| "acts_of fan rounds (Subchild_part k) = replicate k (New (leaf_task rounds))"
| "acts_of fan rounds (Leaf_part k) = replicate k (Touch add_example) @ [Touch end_leaf]"
| "acts_of fan rounds Stop_part = [Stop]"

text \<open>How often it, and the tasks it makes, will still count down, and how many tasks those are.\<close>

fun counts :: "nat \<Rightarrow> part \<Rightarrow> nat" where
  "counts fan (Root_part k) = k * fan * fan"
| "counts fan (Child_part k) = k * fan"
| "counts fan (Subchild_part k) = k"
| "counts fan (Leaf_part k) = 1"
| "counts fan Stop_part = 0"

fun makes :: "nat \<Rightarrow> part \<Rightarrow> nat" where
  "makes fan (Root_part k) = k * (1 + fan + fan * fan)"
| "makes fan (Child_part k) = k * (1 + fan)"
| "makes fan (Subchild_part k) = k"
| "makes fan _ = 0"

definition all_tasks :: "nat \<Rightarrow> nat" where
  "all_tasks fan = 1 + fan + fan ^ 2 + fan ^ 3"

definition total :: "(part \<Rightarrow> nat) \<Rightarrow> part multiset \<Rightarrow> nat" where
  "total g ps = sum_mset (image_mset g ps)"

lemma total_simps [simp]: "total g {#} = 0" "total g (add_mset p ps) = g p + total g ps"
  by (simp_all add: total_def)

definition sandbox_inv :: "nat \<Rightarrow> nat \<Rightarrow> sandbox bag \<Rightarrow> bool" where
  "sandbox_inv fan rounds b \<longleftrightarrow> (\<exists>ps. closures b = image_mset (acts_of fan rounds) ps \<and>
     made b + total (makes fan) ps = all_tasks fan \<and>
     tasks_left (env b) = of_nat (total (counts fan) ps) \<and>
     total (counts fan) ps \<le> fan ^ 3 \<and>
     (stopped b \<or> Stop_part \<in># ps \<longrightarrow> total (counts fan) ps = 0) \<and>
     (stopped b \<longrightarrow> Stop_part \<notin># ps) \<and> count ps Stop_part \<le> 1)"

lemma sandbox_inv_start: "sandbox_inv fan rounds (start_bag (root_task fan rounds) (sandbox_start fan))"
  by (auto simp: sandbox_inv_def start_bag_def root_task_def sandbox_start_def all_tasks_def power2_eq_square power3_eq_cube
      algebra_simps intro!: exI [of _ "{#Root_part fan#}"])

text \<open>The next move of a part.\<close>

lemma replicate_eq_Cons: "replicate k a = b # bs \<longleftrightarrow> (\<exists>j. k = Suc j \<and> a = b \<and> bs = replicate j a)"
  by (cases k) auto


lemma acts_of_New:
  assumes "acts_of fan rounds p = New work # as"
  obtains q r where "work = acts_of fan rounds q" "as = acts_of fan rounds r" "r \<noteq> Stop_part" "q \<noteq> Stop_part" "p \<noteq> Stop_part"
    "counts fan p = counts fan q + counts fan r" "makes fan p = Suc (makes fan q + makes fan r)"
proof (cases p)
  case (Root_part k)
  then obtain j where "k = Suc j" "work = child_task fan rounds" "as = replicate j (New (child_task fan rounds))"
    using assms by (auto simp: replicate_eq_Cons)
  then show ?thesis by (intro that [of "Child_part fan" "Root_part j"]) (simp_all add: Root_part child_task_def algebra_simps)
next
  case (Child_part k)
  then obtain j where "k = Suc j" "work = subchild_task fan rounds" "as = replicate j (New (subchild_task fan rounds))"
    using assms by (auto simp: replicate_eq_Cons)
  then show ?thesis by (intro that [of "Subchild_part fan" "Child_part j"]) (simp_all add: Child_part subchild_task_def)
next
  case (Subchild_part k)
  then obtain j where "k = Suc j" "work = leaf_task rounds" "as = replicate j (New (leaf_task rounds))"
    using assms by (auto simp: replicate_eq_Cons)
  then show ?thesis by (intro that [of "Leaf_part rounds" "Subchild_part j"]) (simp_all add: Subchild_part leaf_task_def)
next
  case (Leaf_part k)
  then show ?thesis using assms by (cases k) simp_all
next
  case Stop_part
  then show ?thesis using assms by simp
qed

lemma acts_of_Touch:
  assumes "acts_of fan rounds p = Touch f # as"
  shows "(\<exists>k. p = Leaf_part (Suc k) \<and> f = add_example \<and> as = acts_of fan rounds (Leaf_part k)) \<or>
    p = Leaf_part 0 \<and> f = end_leaf \<and> as = []"
proof (cases p)
  case (Leaf_part k)
  then show ?thesis using assms by (cases k) auto
qed (use assms in \<open>auto simp: replicate_eq_Cons\<close>)

lemma acts_of_Stop: "acts_of fan rounds p = Stop # as \<Longrightarrow> p = Stop_part \<and> as = []"
proof (cases p)
  case (Leaf_part k)
  then show "acts_of fan rounds p = Stop # as \<Longrightarrow> ?thesis" by (cases k) auto
qed (auto simp: replicate_eq_Cons)

lemma acts_of_Nil: "acts_of fan rounds p = [] \<Longrightarrow> counts fan p = 0 \<and> makes fan p = 0 \<and> p \<noteq> Stop_part"
  by (cases p) auto

lemma of_nat_zero_word: "n < 2 ^ 32 \<Longrightarrow> of_nat n = (0 :: 32 word) \<longleftrightarrow> n = 0"
  by (auto simp: of_nat_eq_0_iff word_of_nat_eq_0_iff dest: nat_dvd_not_less)

lemma sandbox_inv_step:
  assumes inv: "sandbox_inv fan rounds b" and step: "bag_step b b'" and small: "fan ^ 3 < 2 ^ 32"
  shows "sandbox_inv fan rounds b'"
proof -
  let ?sum = "\<lambda>g ps. total (g fan) ps :: nat"
  from inv obtain ps where ps: "closures b = image_mset (acts_of fan rounds) ps" "made b + ?sum makes ps = all_tasks fan"
    "tasks_left (env b) = of_nat (?sum counts ps)" "?sum counts ps \<le> fan ^ 3"
    "stopped b \<or> Stop_part \<in># ps \<longrightarrow> ?sum counts ps = 0"
    "stopped b \<longrightarrow> Stop_part \<notin># ps" "count ps Stop_part \<le> 1"
    by (auto simp: sandbox_inv_def)
  have split: "\<exists>p qs. ps = add_mset p qs \<and> acts_of fan rounds p = acts \<and> B = image_mset (acts_of fan rounds) qs"
    if "closures b = add_mset acts B" for acts B
    using msed_map_invR [of "acts_of fan rounds" ps acts B] ps(1) that by auto
  from step show ?thesis
  proof cases
    case (spawn work as B)
    obtain p qs where p: "ps = add_mset p qs" "acts_of fan rounds p = New work # as" "B = image_mset (acts_of fan rounds) qs"
      using split [OF spawn(2)] by blast
    obtain q r where q: "work = acts_of fan rounds q" "as = acts_of fan rounds r" "r \<noteq> Stop_part" "q \<noteq> Stop_part"
      "p \<noteq> Stop_part" "counts fan p = counts fan q + counts fan r" "makes fan p = Suc (makes fan q + makes fan r)"
      using p(2) by (rule acts_of_New)
    show ?thesis
      using ps p q spawn(1) by (auto simp: sandbox_inv_def intro!: exI [of _ "add_mset q (add_mset r qs)"])
  next
    case (touch f as B c cont)
    obtain p qs where p: "ps = add_mset p qs" "acts_of fan rounds p = Touch f # as" "B = image_mset (acts_of fan rounds) qs"
      using split [OF touch(2)] by blast
    from acts_of_Touch [OF p(2)] show ?thesis
    proof
      assume "\<exists>k. p = Leaf_part (Suc k) \<and> f = add_example \<and> as = acts_of fan rounds (Leaf_part k)"
      then obtain k where k: "p = Leaf_part (Suc k)" "f = add_example" "as = acts_of fan rounds (Leaf_part k)" by blast
      then have "c = (env b)\<lparr>example := example (env b) + tasks_left (env b)\<rparr>" "cont = []"
        using touch(3) by (simp_all add: add_example_def)
      then show ?thesis using ps p k touch(1) by (auto simp: sandbox_inv_def intro!: exI [of _ "add_mset (Leaf_part k) qs"])
    next
      assume leaf: "p = Leaf_part 0 \<and> f = end_leaf \<and> as = []"
      have left: "tasks_left (env b) = 1 + of_nat (?sum counts qs)" using ps(3) p(1) leaf by simp
      have less: "?sum counts qs < 2 ^ 32" using ps(4) p(1) leaf small by simp
      have "1 + of_nat (?sum counts qs) = (1 :: 32 word) \<longleftrightarrow> of_nat (?sum counts qs) = (0 :: 32 word)" by simp
      also have "\<dots> \<longleftrightarrow> ?sum counts qs = 0" using less by (rule of_nat_zero_word)
      finally have c: "c = (env b)\<lparr>tasks_left := of_nat (?sum counts qs)\<rparr>" "cont = (if ?sum counts qs = 0 then [Stop] else [])"
        using touch(3) left leaf by (simp_all add: end_leaf_def task_done_def Let_def)
      have "\<not> stopped b" "Stop_part \<notin># qs" using ps(5) p(1) leaf by auto
      then show ?thesis
      proof (cases "?sum counts qs = 0")
        case True
        have "count qs Stop_part = 0" using \<open>Stop_part \<notin># qs\<close> by (simp add: not_in_iff)
        then show ?thesis using ps p c leaf touch(1) True
          by (intro sandbox_inv_def [THEN iffD2] exI [of _ "add_mset Stop_part qs"]) simp
      next
        case False
        then show ?thesis using ps p c leaf touch(1) \<open>\<not> stopped b\<close> \<open>Stop_part \<notin># qs\<close>
          by (intro sandbox_inv_def [THEN iffD2] exI [of _ "add_mset (Subchild_part 0) qs"]) simp
      qed
    qed
  next
    case (stop as B)
    obtain p qs where p: "ps = add_mset p qs" "acts_of fan rounds p = Stop # as" "B = image_mset (acts_of fan rounds) qs"
      using split [OF stop(2)] by blast
    then have "p = Stop_part" "as = []" using acts_of_Stop by blast+
    moreover from this have "Stop_part \<notin># qs" using ps(7) p(1) by (simp add: not_in_iff)
    ultimately show ?thesis using ps p stop(1) by (auto simp: sandbox_inv_def intro!: exI [of _ "add_mset (Subchild_part 0) qs"])
  next
    case (finish B)
    obtain p qs where p: "ps = add_mset p qs" "acts_of fan rounds p = []" "B = image_mset (acts_of fan rounds) qs"
      using split [OF finish(2)] by blast
    then show ?thesis using ps finish(1) acts_of_Nil [OF p(2)] by (auto simp: sandbox_inv_def intro!: exI [of _ qs])
  qed
qed

lemma sandbox_bag:
  assumes "bag_run (root_task fan rounds) (sandbox_start fan) b" "fan ^ 3 < 2 ^ 32"
  shows "sandbox_inv fan rounds b"
  using assms
proof (induction rule: bag_run.induct)
  case init
  show ?case by (rule sandbox_inv_start)
next
  case (step b b')
  then show ?case using sandbox_inv_step by blast
qed

lemma sandbox_invD:
  assumes "sandbox_inv fan rounds b"
  shows "made b \<le> all_tasks fan"
  using assms by (auto simp: sandbox_inv_def)

text \<open>The run makes no more tasks than there are.\<close>

lemma sandbox_few:
  assumes "sandbox_run fan rounds s" "all_tasks fan + 2 ^ 8 < 2 ^ 32"
  shows "created s \<le> all_tasks fan"
  using assms(1) unfolding sandbox_run_def
proof (induction rule: sched_run.induct)
  case (init es s)
  obtain s' where "run_scheduler (root_task fan rounds) (new_scheduler 4 es (sandbox_start fan)) = Inr s'" "created s' = 0"
    by (rule run_start [OF _ init(1), of 4 "root_task fan rounds" "sandbox_start fan"]) (simp, rule that)
  then show ?case using init(2) by simp
next
  case (step s s')
  then have few: "created s + 2 ^ 8 < 2 ^ 32" using assms(2) by simp
  have cube: "fan ^ 3 < 2 ^ 32" using assms(2) by (simp add: all_tasks_def)
  have run: "bag_run (root_task fan rounds) (sandbox_start fan) (bag_of s)"
    by (rule scheduler_bag(1) [OF step.hyps(1) _ few]) simp
  have "bag_of s' = bag_of s \<or> bag_step (bag_of s) (bag_of s')"
    by (rule scheduler_bag(2) [OF step.hyps(1) _ few step.hyps(2)]) simp
  then have "bag_run (root_task fan rounds) (sandbox_start fan) (bag_of s')"
    using run bag_run.step [OF run] by (elim disjE) simp_all
  then have "made (bag_of s') \<le> all_tasks fan" by (rule sandbox_bag [OF _ cube, THEN sandbox_invD])
  then show ?case by (simp add: bag_of_def)
qed

text \<open>Its closures.\<close>

definition sandbox_stored :: "nat \<Rightarrow> nat \<Rightarrow> sandbox act list \<Rightarrow> bool" where
  "sandbox_stored fan rounds work \<longleftrightarrow>
     work = root_task fan rounds \<or> work = child_task fan rounds \<or> work = subchild_task fan rounds \<or> work = leaf_task rounds"

definition sandbox_rest :: "nat \<Rightarrow> nat \<Rightarrow> sandbox act list \<Rightarrow> bool" where
  "sandbox_rest fan rounds acts \<longleftrightarrow> (\<exists>p. acts = acts_of fan rounds p)"

lemma sandbox_restI: "sandbox_rest fan rounds (acts_of fan rounds p)"
  by (auto simp: sandbox_rest_def)

lemma sandbox_rest_Nil: "sandbox_rest fan rounds []"
  using sandbox_restI [of fan rounds "Root_part 0"] by simp

interpretation sandbox: closure_kinds "sandbox_stored fan rounds" "sandbox_rest fan rounds" for fan rounds
proof
  fix work as f c
  show "sandbox_stored fan rounds work \<Longrightarrow> sandbox_rest fan rounds work"
    using sandbox_restI [of fan rounds "Root_part fan"] sandbox_restI [of fan rounds "Child_part fan"]
      sandbox_restI [of fan rounds "Subchild_part fan"] sandbox_restI [of fan rounds "Leaf_part rounds"]
    by (auto simp: sandbox_stored_def root_task_def child_task_def subchild_task_def leaf_task_def)
  show "sandbox_stored fan rounds work \<and> sandbox_rest fan rounds as" if "sandbox_rest fan rounds (New work # as)"
  proof -
    from that obtain p where p: "acts_of fan rounds p = New work # as" by (auto simp: sandbox_rest_def)
    have "sandbox_rest fan rounds as" using p by (rule acts_of_New) (simp add: sandbox_restI)
    moreover have "sandbox_stored fan rounds work"
      using p by (cases p) (auto simp: replicate_eq_Cons sandbox_stored_def append_eq_Cons_conv)
    ultimately show ?thesis by blast
  qed
  show "sandbox_rest fan rounds as" if "sandbox_rest fan rounds (Stop # as)"
    using that acts_of_Stop [of fan rounds _ as] sandbox_rest_Nil by (auto simp: sandbox_rest_def [of _ _ "Stop # as"])
  show "sandbox_rest fan rounds (snd (f c) @ as)" if "sandbox_rest fan rounds (Touch f # as)"
  proof -
    from that obtain p where p: "acts_of fan rounds p = Touch f # as" by (auto simp: sandbox_rest_def)
    from acts_of_Touch [OF p] show ?thesis
      using sandbox_restI [of fan rounds Stop_part] sandbox_rest_Nil sandbox_restI [of fan rounds "Leaf_part _"]
      by (auto simp: add_example_def end_leaf_def task_done_def Let_def)
  qed
qed

subsection \<open>What a stopped run has done\<close>

lemma sandbox_inv_stopped:
  assumes inv: "sandbox_inv fan rounds b" and stopped: "stopped b" and fan: "0 < fan"
  shows "tasks_left (env b) = 0" "made b = all_tasks fan" "a \<in># closures b \<Longrightarrow> a = []"
proof -
  from inv stopped obtain ps where ps: "closures b = image_mset (acts_of fan rounds) ps"
    "made b + total (makes fan) ps = all_tasks fan" "tasks_left (env b) = of_nat (total (counts fan) ps)"
    "total (counts fan) ps = 0" "Stop_part \<notin># ps"
    by (auto simp: sandbox_inv_def)
  have none: "acts_of fan rounds p = [] \<and> makes fan p = 0" if "p \<in># ps" for p
  proof -
    have "counts fan p = 0" using ps(4) that by (simp add: total_def)
    moreover have "p \<noteq> Stop_part" using ps(5) that by auto
    ultimately show ?thesis using fan by (cases p) auto
  qed
  then have "total (makes fan) ps = 0" by (simp add: total_def)
  then show "tasks_left (env b) = 0" "made b = all_tasks fan" using ps by simp_all
  show "a = []" if "a \<in># closures b" using that ps(1) none by auto
qed

lemma sandbox_stored_work: "sandbox_stored fan rounds work \<Longrightarrow> 0 < fan \<Longrightarrow> work \<noteq> []"
  by (auto simp: sandbox_stored_def root_task_def child_task_def subchild_task_def leaf_task_def)

lemma node_loads_sum: "x \<in> set xs \<Longrightarrow> a \<in># node_loads T x \<Longrightarrow> a \<in># sum_list (map (node_loads T) xs)"
  by (induction xs) auto

lemma running_load: "Running i acts \<in> set fs \<Longrightarrow> acts \<in># frame_loads T fs"
  by (induction T fs rule: frame_loads.induct) auto

lemma creating_load: "creating fs \<noteq> 0 \<Longrightarrow> \<exists>work. Creating work \<in> set fs \<and> work \<in># frame_loads T fs"
  by (induction fs rule: creating.induct) auto

lemma sandbox_stopped:
  assumes run: "sandbox_run fan rounds s" and fan: "0 < fan" and few: "all_tasks fan + 2 ^ 8 < 2 ^ 32"
    and stop: "\<exists>x \<in> set (nodes s). stop_flag x"
  shows "tasks_left (client s) = 0 \<and> created s = all_tasks fan \<and>
    (\<forall>x \<in> set (nodes s). node_queue x = [] \<and> (\<forall>i acts. Running i acts \<in> set (frames x) \<longrightarrow> acts = []))"
proof -
  have sched: "sched_run 4 (root_task fan rounds) (sandbox_start fan) s" using run by (simp add: sandbox_run_def)
  have c: "created s + 2 ^ 8 < 2 ^ 32" using sandbox_few [OF run few] few by simp
  have inv: "sched_inv s" using sched_run_inv [OF sched _ c] by simp
  have "sandbox_inv fan rounds (bag_of s)"
    by (rule sandbox_bag [OF scheduler_bag(1) [OF sched _ c]]) (use few in \<open>simp_all add: all_tasks_def\<close>)
  moreover have "stopped (bag_of s)" using stop by (simp add: bag_of_def)
  ultimately have b: "tasks_left (client s) = 0" "created s + to_make s = all_tasks fan" "a \<in># loads s \<Longrightarrow> a = []" for a
    using sandbox_inv_stopped [OF _ _ fan] by (force simp: bag_of_def)+
  have kinds: "closures_ok (sandbox_stored fan rounds) (sandbox_rest fan rounds) s"
    by (rule sandbox.sched_run_calls [OF sched _ c]) (simp_all add: sandbox_stored_def)
  have node: "node_queue x = [] \<and> (\<forall>i acts. Running i acts \<in> set (frames x) \<longrightarrow> acts = []) \<and> creating (frames x) = 0"
    if x: "x \<in> set (nodes s)" for x
  proof (intro conjI allI impI)
    have load: "a = []" if "a \<in># node_loads (task_of s) x" for a
      using node_loads_sum [OF x that] b(3) by (simp add: loads_def)
    show "acts = []" if "Running i acts \<in> set (frames x)" for i acts
      using running_load [OF that] by (intro load) (simp add: node_loads_def)
    show "node_queue x = []"
    proof (rule ccontr)
      assume "node_queue x \<noteq> []"
      then obtain i q where i: "node_queue x = i # q" by (cases "node_queue x") auto
      then have none: "task_of s i = []" by (intro load) (simp add: node_loads_def)
      have "i \<in># node_ids x" using i by (simp add: node_ids_def)
      moreover obtain m where "m < num_nodes s" "x = nodes s ! m" using x by (auto simp: in_set_conv_nth num_nodes_def)
      ultimately obtain work where work: "tasks s i = Some work" by (blast elim: node_id_task [OF inv])
      then have "sandbox_stored fan rounds work" using kinds unfolding closures_ok_def by blast
      then have "work \<noteq> []" using fan by (rule sandbox_stored_work)
      then show False using none work by (simp add: task_of_def)
    qed
    show "creating (frames x) = 0"
    proof (rule ccontr)
      assume "creating (frames x) \<noteq> 0"
      then obtain work where work: "Creating work \<in> set (frames x)" "work \<in># frame_loads (task_of s) (frames x)"
        using creating_load by blast
      then have "work = []" by (intro load) (simp add: node_loads_def)
      moreover have "sandbox_stored fan rounds work" using kinds x work(1) by (force simp: closures_ok_def calls_ok_def)
      ultimately show False using sandbox_stored_work [OF _ fan] by blast
    qed
  qed
  then have "to_make s = 0" by (simp add: to_make_def)
  then show ?thesis using b(1,2) node by simp
qed

text \<open>An executable run with a fan-out of one: node 0 executes all four tasks, and every node leaves its loop.\<close>

definition sandbox_schedule :: "choice list" where
  "sandbox_schedule =
     [Frame 0 1, Frame 0 9, Frame 0 9, Loop 0 True, Loop 0 True,
      Frame 0 9, Frame 0 2, Frame 0 9, Frame 0 9, Frame 0 9, Loop 0 True,
      Frame 0 9, Frame 0 3, Frame 0 9, Frame 0 9, Frame 0 9, Loop 0 True,
      Frame 0 9, Frame 0 4, Frame 0 9, Frame 0 9, Frame 0 9, Loop 0 True,
      Frame 0 9, Frame 0 9, Frame 0 9, Frame 0 9, Frame 0 9, Frame 0 9, Frame 0 9, Frame 0 9, Frame 0 9, Frame 0 9, Frame 0 9, Frame 0 9, Frame 0 9,
      Loop 0 True, Loop 0 True, Loop 0 True,
      Loop 1 True, Loop 1 True, Loop 1 True, Loop 1 True,
      Loop 2 True, Loop 2 True, Loop 2 True, Loop 2 True,
      Loop 3 True, Loop 3 True, Loop 3 True, Loop 3 True]"

lemma replicate_four: "replicate 4 x = [x, x, x, x]"
  by (simp add: eval_nat_numeral)

lemma sandbox_schedule_run:
  "\<exists>s. run_schedule 4 (root_task 1 1) (sandbox_start 1) sandbox_schedule = Some s \<and> map loop (nodes s) = [Exit, Exit, Exit, Exit] \<and>
     created s = 4"
  by (simp add: sched_eval sandbox_schedule_def replicate_four root_task_def child_task_def subchild_task_def leaf_task_def
      sandbox_start_def add_example_def end_leaf_def task_done_def)

lemma sandbox_stopping:
  obtains s where "run_schedule 4 (root_task 1 1) (sandbox_start 1) sandbox_schedule = Some s" "sandbox_run 1 1 s"
    "\<forall>m < 4. loop (nodes s ! m) = Exit"
proof -
  obtain s where s: "run_schedule 4 (root_task 1 1) (sandbox_start 1) sandbox_schedule = Some s"
    "map loop (nodes s) = [Exit, Exit, Exit, Exit]"
    using sandbox_schedule_run by (elim exE conjE) (rule that)
  have run: "sandbox_run 1 1 s" unfolding sandbox_run_def using s(1) by (rule run_schedule_run)
  have len: "length (nodes s) = 4" using arg_cong [OF s(2), of length] by simp
  have exit: "\<forall>m < 4. loop (nodes s ! m) = Exit"
  proof (intro allI impI)
    fix m :: nat
    assume m: "m < 4"
    then have "map loop (nodes s) ! m = Exit" unfolding s(2) by (auto simp: less_Suc_eq numeral_eq_Suc)
    then show "loop (nodes s ! m) = Exit" using m len by simp
  qed
  show ?thesis by (rule that [OF s(1) run exit])
qed

lemma sandbox_exit:
  assumes run: "sandbox_run fan rounds s" and few: "all_tasks fan + 2 ^ 8 < 2 ^ 32" and exit: "m < 4" "loop (nodes s ! m) = Exit"
  shows "\<exists>x \<in> set (nodes s). stop_flag x"
proof -
  have sched: "sched_run 4 (root_task fan rounds) (sandbox_start fan) s" using run by (simp add: sandbox_run_def)
  have c: "created s + 2 ^ 8 < 2 ^ 32" using sandbox_few [OF run few] few by simp
  have "length (nodes s) = 4" using sched_run_inv [OF sched _ c] by (simp add: num_nodes_def)
  then have m: "nodes s ! m \<in> set (nodes s)" using exit(1) by simp
  moreover have "stoppers_ok s" by (rule any.sched_run_calls [OF sched _ c]) simp_all
  ultimately show ?thesis using exit(2) by (intro bexI [OF _ m]) (simp add: closures_ok_def calls_ok_def)
qed

subsection \<open>Properties\<close>





end
