(* ===== verification/Array_Delegate.thy ===== *)
theory Array_Delegate
  imports Prelude
begin

text \<open>
  The closure type of the scheduler's tasks, \<open>arraydelegate<R (A...)>\<close> of
  \<open>proto/arraydelegate.hpp\<close>: an object pointer, a pointer to a stub that knows the type behind
  it, a pointer to a stub that destroys the stored functor, and 24 bytes of inline storage.

  Types are numbers; a functor is its type and its value. The storage holds no functor or one.
  Placement new starts the lifetime of a functor, running the destructor of its type on its address
  ends it, and running the destructor of a type on an address where no object of that type lives
  is undefined, unless the destructor is trivial and so does nothing; calling through a pointer to
  no object is undefined too (\<open>Dead_object\<close>). The ghost fields \<open>born\<close> and \<open>died\<close> list the
  functors constructed and destroyed so far. Functors too large for the storage are refused by a
  \<open>static_assert\<close> and do not reach the program. What the callee does is a parameter.

  The move constructor, the constructors and the assignments from a pointer to a method, the
  \<open>from\<close> functions that go through them, and \<open>swap\<close> assign one delegate to another; the class has
  no assignment operator that accepts one (the user-declared move constructor deletes the implicit
  one), so no program that instantiates them compiles, and they are left out.
\<close>

subsection \<open>State\<close>

type_synonym addr = "64 word"
type_synonym 'f functor_obj = "nat \<times> 'f"

text \<open>The instances of the stub templates: for a functor type, for a function, for a method of a
  class.\<close>

datatype stub = Functor_stub nat | Function_stub nat | Method_stub nat

datatype deleter = Default_deleter_stub | Deleter_stub nat

record 'f delegate =
  object_ptr :: addr
  stub_ptr :: "stub option"
  deleter_fn :: deleter
  store_obj :: "'f functor_obj option"
  born :: "'f functor_obj list"
  died :: "'f functor_obj list"

text \<open>\<open>store_\<close> follows three pointers.\<close>

definition store_addr :: "addr \<Rightarrow> addr" where
  "store_addr this = this + 24"

subsection \<open>Operations\<close>

text \<open>The private constructor; \<open>arraydelegate()\<close> leaves \<open>object_ptr_\<close> uninitialised.\<close>

definition make_delegate :: "addr \<Rightarrow> stub option \<Rightarrow> 'f delegate" where
  "make_delegate o' m = \<lparr>object_ptr = o', stub_ptr = m, deleter_fn = Default_deleter_stub, store_obj = None, born = [], died = []\<rparr>"

definition empty_delegate :: "addr \<Rightarrow> 'f delegate" where
  "empty_delegate junk = make_delegate junk None"

definition from_object :: "addr \<Rightarrow> 'f delegate" where
  "from_object o' = make_delegate o' None"

definition from_function :: "nat \<Rightarrow> 'f delegate" where
  "from_function g = make_delegate 0 (Some (Function_stub g))"

definition from_method :: "nat \<Rightarrow> addr \<Rightarrow> 'f delegate" where
  "from_method m o' = make_delegate o' (Some (Method_stub m))"

text \<open>Placement new of the functor \<open>f\<close> and the three assignments after it.\<close>

definition emplace_functor :: "addr \<Rightarrow> 'f functor_obj \<Rightarrow> 'f delegate \<Rightarrow> 'f delegate" where
  "emplace_functor this f d =
     d\<lparr>store_obj := Some f, born := born d @ [f],
       object_ptr := store_addr this, stub_ptr := Some (Functor_stub (fst f)), deleter_fn := Deleter_stub (fst f)\<rparr>"

definition from_functor :: "addr \<Rightarrow> addr \<Rightarrow> 'f functor_obj \<Rightarrow> 'f delegate" where
  "from_functor junk this f = emplace_functor this f (empty_delegate junk)"

text \<open>\<open>deleter_(p)\<close> on the delegate at \<open>this\<close>.\<close>

definition run_deleter :: "(nat \<Rightarrow> bool) \<Rightarrow> addr \<Rightarrow> addr \<Rightarrow> 'f delegate \<Rightarrow> 'f delegate res" where
  "run_deleter trivial this p d =
     (case deleter_fn d of
        Default_deleter_stub \<Rightarrow> Inr d
      | Deleter_stub t \<Rightarrow>
          (case store_obj d of
             Some f \<Rightarrow>
               if p = store_addr this \<and> fst f = t then Inr (d\<lparr>store_obj := None, died := died d @ [f]\<rparr>)
               else require (trivial t) Dead_object (Inr d)
           | None \<Rightarrow> require (trivial t) Dead_object (Inr d)))"

definition assign_functor :: "(nat \<Rightarrow> bool) \<Rightarrow> addr \<Rightarrow> 'f functor_obj \<Rightarrow> 'f delegate \<Rightarrow> 'f delegate res" where
  "assign_functor trivial this f d =
     bind_res (run_deleter trivial this (store_addr this) d) (\<lambda>d. Inr (emplace_functor this f d))"

definition destroy_delegate :: "(nat \<Rightarrow> bool) \<Rightarrow> addr \<Rightarrow> 'f delegate \<Rightarrow> 'f delegate res" where
  "destroy_delegate trivial this d = run_deleter trivial this this d"

definition reset_delegate :: "'f delegate \<Rightarrow> 'f delegate" where
  "reset_delegate d = d\<lparr>stub_ptr := None\<rparr>"

definition reset_stub :: "'f delegate \<Rightarrow> 'f delegate" where
  "reset_stub d = d\<lparr>stub_ptr := None\<rparr>"

definition is_null :: "'f delegate \<Rightarrow> bool" where
  "is_null d \<longleftrightarrow> stub_ptr d = None"

definition to_bool :: "'f delegate \<Rightarrow> bool" where
  "to_bool d \<longleftrightarrow> stub_ptr d \<noteq> None"

text \<open>The callees: they take the arguments and the rest of the memory, and a functor may change
  itself.\<close>

record ('f, 'a, 'r, 'h) callees =
  functor_body :: "nat \<Rightarrow> 'f \<Rightarrow> 'a \<Rightarrow> 'h \<Rightarrow> 'r \<times> 'f \<times> 'h"
  function_body :: "nat \<Rightarrow> 'a \<Rightarrow> 'h \<Rightarrow> 'r \<times> 'h"
  method_body :: "nat \<Rightarrow> addr \<Rightarrow> 'a \<Rightarrow> 'h \<Rightarrow> 'r \<times> 'h"

definition functor_stub ::
  "('f, 'a, 'r, 'h) callees \<Rightarrow> addr \<Rightarrow> nat \<Rightarrow> addr \<Rightarrow> 'a \<Rightarrow> 'f delegate \<Rightarrow> 'h \<Rightarrow> ('r \<times> 'f delegate \<times> 'h) res" where
  "functor_stub C this t p a d h =
     (case store_obj d of
        None \<Rightarrow> Inl Dead_object
      | Some f \<Rightarrow>
          require (p = store_addr this \<and> fst f = t) Dead_object (
          let (r, v, h) = functor_body C t (snd f) a h in Inr (r, d\<lparr>store_obj := Some (t, v)\<rparr>, h)))"

definition function_stub ::
  "('f, 'a, 'r, 'h) callees \<Rightarrow> nat \<Rightarrow> 'a \<Rightarrow> 'f delegate \<Rightarrow> 'h \<Rightarrow> ('r \<times> 'f delegate \<times> 'h) res" where
  [simp]: "function_stub C g a d h = (let (r, h) = function_body C g a h in Inr (r, d, h))"

definition method_stub ::
  "('f, 'a, 'r, 'h) callees \<Rightarrow> nat \<Rightarrow> addr \<Rightarrow> 'a \<Rightarrow> 'f delegate \<Rightarrow> 'h \<Rightarrow> ('r \<times> 'f delegate \<times> 'h) res" where
  [simp]: "method_stub C m p a d h = (let (r, h) = method_body C m p a h in Inr (r, d, h))"

definition invoke ::
  "('f, 'a, 'r, 'h) callees \<Rightarrow> addr \<Rightarrow> 'a \<Rightarrow> 'f delegate \<Rightarrow> 'h \<Rightarrow> ('r \<times> 'f delegate \<times> 'h) res" where
  "invoke C this a d h =
     (case stub_ptr d of
        None \<Rightarrow> Inl Dead_object
      | Some (Functor_stub t) \<Rightarrow> functor_stub C this t (object_ptr d) a d h
      | Some (Function_stub g) \<Rightarrow> function_stub C g a d h
      | Some (Method_stub m) \<Rightarrow> method_stub C m (object_ptr d) a d h)"

subsection \<open>Comparison and hashing\<close>

text \<open>\<open>at\<close> gives the addresses of the stubs; the null pointer is 0.\<close>

definition stub_addr :: "(stub \<Rightarrow> addr) \<Rightarrow> stub option \<Rightarrow> addr" where
  "stub_addr at m = (case m of None \<Rightarrow> 0 | Some s \<Rightarrow> at s)"

datatype key = Key (key_object: addr) (key_stub: addr)

definition delegate_key :: "(stub \<Rightarrow> addr) \<Rightarrow> 'f delegate \<Rightarrow> key" where
  "delegate_key at d = Key (object_ptr d) (stub_addr at (stub_ptr d))"

definition delegate_equal :: "(stub \<Rightarrow> addr) \<Rightarrow> 'f delegate \<Rightarrow> 'f delegate \<Rightarrow> bool" where
  "delegate_equal at d e \<longleftrightarrow>
     object_ptr d = object_ptr e \<and> stub_addr at (stub_ptr d) = stub_addr at (stub_ptr e)"

definition delegate_less :: "(stub \<Rightarrow> addr) \<Rightarrow> 'f delegate \<Rightarrow> 'f delegate \<Rightarrow> bool" where
  "delegate_less at d e \<longleftrightarrow>
     object_ptr d < object_ptr e \<or>
     object_ptr d = object_ptr e \<and> stub_addr at (stub_ptr d) < stub_addr at (stub_ptr e)"

definition delegate_hash :: "(addr \<Rightarrow> 64 word) \<Rightarrow> (addr \<Rightarrow> 64 word) \<Rightarrow> (stub \<Rightarrow> addr) \<Rightarrow> 'f delegate \<Rightarrow> 64 word" where
  "delegate_hash hash_ptr hash_stub at d =
     (let seed = hash_ptr (object_ptr d) in
      hash_stub (stub_addr at (stub_ptr d)) + 0x9e3779b9 + push_bit 6 seed + drop_bit 2 seed)"

instantiation key :: linorder
begin

definition less_key :: "key \<Rightarrow> key \<Rightarrow> bool" where
  "less_key a b \<longleftrightarrow> key_object a < key_object b \<or> key_object a = key_object b \<and> key_stub a < key_stub b"

definition less_eq_key :: "key \<Rightarrow> key \<Rightarrow> bool" where
  "less_eq_key a b \<longleftrightarrow> a < b \<or> a = b" for a b :: key

instance
proof
  fix a b c :: key
  show "a < b \<longleftrightarrow> a \<le> b \<and> \<not> b \<le> a" by (cases a; cases b) (auto simp: less_key_def less_eq_key_def)
  show "a \<le> a" by (simp add: less_eq_key_def)
  show "a \<le> b \<Longrightarrow> b \<le> c \<Longrightarrow> a \<le> c" by (cases a; cases b; cases c) (auto simp: less_key_def less_eq_key_def)
  show "a \<le> b \<Longrightarrow> b \<le> a \<Longrightarrow> a = b" by (cases a; cases b) (auto simp: less_key_def less_eq_key_def)
  show "a \<le> b \<or> b \<le> a" by (cases a; cases b) (auto simp: less_key_def less_eq_key_def)
qed

end

lemma delegate_less_key: "delegate_less at d e \<longleftrightarrow> delegate_key at d < delegate_key at e"
  by (simp add: delegate_less_def delegate_key_def less_key_def)

lemma delegate_equal_key: "delegate_equal at d e \<longleftrightarrow> delegate_key at d = delegate_key at e"
  by (simp add: delegate_equal_def delegate_key_def)

lemma delegate_hash_equal:
  "delegate_equal at d e \<Longrightarrow> delegate_hash hash_ptr hash_stub at d = delegate_hash hash_ptr hash_stub at e"
  by (simp add: delegate_equal_def delegate_hash_def)

subsection \<open>The life of a delegate\<close>

text \<open>The delegates that a program can make at the address \<open>this\<close>.\<close>

inductive delegate_run :: "('f, 'a, 'r, 'h) callees \<Rightarrow> (nat \<Rightarrow> bool) \<Rightarrow> addr \<Rightarrow> 'f delegate \<Rightarrow> bool"
  for C trivial this where
  run_empty: "delegate_run C trivial this (empty_delegate junk)"
| run_object: "delegate_run C trivial this (from_object o')"
| run_function: "delegate_run C trivial this (from_function g)"
| run_method: "delegate_run C trivial this (from_method m o')"
| run_functor: "delegate_run C trivial this (from_functor junk this f)"
| run_assign: "delegate_run C trivial this d \<Longrightarrow> assign_functor trivial this f d = Inr d' \<Longrightarrow> delegate_run C trivial this d'"
| run_reset: "delegate_run C trivial this d \<Longrightarrow> delegate_run C trivial this (reset_delegate d)"
| run_reset_stub: "delegate_run C trivial this d \<Longrightarrow> delegate_run C trivial this (reset_stub d)"
| run_call: "delegate_run C trivial this d \<Longrightarrow> invoke C this a d h = Inr (r, d', h') \<Longrightarrow> delegate_run C trivial this d'"

definition held_functors :: "'f delegate \<Rightarrow> 'f functor_obj list" where
  "held_functors d = (case store_obj d of None \<Rightarrow> [] | Some f \<Rightarrow> [f])"

definition stub_ok :: "addr \<Rightarrow> 'f delegate \<Rightarrow> bool" where
  "stub_ok this d \<longleftrightarrow> (\<forall>t. stub_ptr d = Some (Functor_stub t) \<longrightarrow>
     object_ptr d = store_addr this \<and> (\<exists>v. store_obj d = Some (t, v)))"

definition deleter_ok :: "'f delegate \<Rightarrow> bool" where
  "deleter_ok d \<longleftrightarrow>
     deleter_fn d = (case store_obj d of None \<Rightarrow> Default_deleter_stub | Some f \<Rightarrow> Deleter_stub (fst f))"

definition lifetimes_ok :: "'f delegate \<Rightarrow> bool" where
  "lifetimes_ok d \<longleftrightarrow> map fst (born d) = map fst (died d @ held_functors d)"

definition delegate_ok :: "addr \<Rightarrow> 'f delegate \<Rightarrow> bool" where
  "delegate_ok this d \<longleftrightarrow> stub_ok this d \<and> deleter_ok d \<and> lifetimes_ok d"

lemmas delegate_ok_defs = delegate_ok_def stub_ok_def deleter_ok_def lifetimes_ok_def held_functors_def

lemma make_delegate_ok: "(\<forall>t. m \<noteq> Some (Functor_stub t)) \<Longrightarrow> delegate_ok this (make_delegate o' m)"
  by (simp add: delegate_ok_defs make_delegate_def)

lemma emplace_functor_ok: "delegate_ok this d \<Longrightarrow> store_obj d = None \<Longrightarrow> delegate_ok this (emplace_functor this f d)"
  by (cases f) (simp add: delegate_ok_defs emplace_functor_def)

text \<open>Run on the storage, the deleter destroys what is stored.\<close>

lemma run_deleter_store:
  assumes "deleter_ok d"
  shows "run_deleter trivial this (store_addr this) d =
    Inr (case store_obj d of None \<Rightarrow> d | Some f \<Rightarrow> d\<lparr>store_obj := None, died := died d @ [f]\<rparr>)"
  using assms by (auto simp: deleter_ok_def run_deleter_def split: option.splits)

text \<open>Run on the delegate itself, it destroys nothing.\<close>

lemma store_addr_neq [simp]: "this \<noteq> store_addr this"
  by (simp add: store_addr_def)

lemma run_deleter_self:
  assumes "deleter_ok d"
  shows "run_deleter trivial this this d =
    (case store_obj d of None \<Rightarrow> Inr d | Some f \<Rightarrow> require (trivial (fst f)) Dead_object (Inr d))"
  using assms by (auto simp: deleter_ok_def run_deleter_def split: option.splits)

lemma assign_functor_eq:
  assumes "delegate_ok this d"
  shows "assign_functor trivial this f d =
    Inr (emplace_functor this f (d\<lparr>store_obj := None, died := died d @ held_functors d\<rparr>))"
  using assms
  by (auto simp: assign_functor_def run_deleter_store delegate_ok_def held_functors_def emplace_functor_def split: option.split)

lemma assign_functor_ok:
  assumes "delegate_ok this d" "assign_functor trivial this f d = Inr d'"
  shows "delegate_ok this d'"
  using assms by (cases f) (auto simp: assign_functor_eq delegate_ok_defs emplace_functor_def split: option.splits)

lemma invoke_functor:
  assumes "delegate_ok this d" "stub_ptr d = Some (Functor_stub t)"
  obtains v where "store_obj d = Some (t, v)"
    "invoke C this a d h = (let (r, v, h) = functor_body C t v a h in Inr (r, d\<lparr>store_obj := Some (t, v)\<rparr>, h))"
  using assms by (auto simp: delegate_ok_def stub_ok_def invoke_def functor_stub_def)

lemma invoke_ok:
  assumes ok: "delegate_ok this d" and call: "invoke C this a d h = Inr (r, d', h')"
  shows "delegate_ok this d'"
proof (cases "\<exists>t. stub_ptr d = Some (Functor_stub t)")
  case True
  then obtain t where t: "stub_ptr d = Some (Functor_stub t)" by blast
  obtain v where "store_obj d = Some (t, v)"
    "invoke C this a d h = (let (r, v, h) = functor_body C t v a h in Inr (r, d\<lparr>store_obj := Some (t, v)\<rparr>, h))"
    by (rule invoke_functor [OF ok t, of C a h]) (rule that)
  then show ?thesis using call ok t by (auto simp: delegate_ok_defs split: prod.splits)
next
  case False
  then have "d' = d" using call by (auto simp: invoke_def split: option.splits stub.splits prod.splits)
  then show ?thesis using ok by simp
qed

lemma invoke_total:
  assumes "delegate_ok this d"
  shows "(\<exists>x. invoke C this a d h = Inr x) \<longleftrightarrow> to_bool d"
  using assms
  by (auto simp: invoke_def functor_stub_def to_bool_def delegate_ok_def stub_ok_def split: option.split stub.split prod.split)

lemma delegate_run_ok:
  assumes "delegate_run C trivial this d"
  shows "delegate_ok this d"
  using assms
proof (induction rule: delegate_run.induct)
  case (run_functor junk f)
  show ?case unfolding from_functor_def
    by (intro emplace_functor_ok) (simp_all add: empty_delegate_def make_delegate_ok, simp add: make_delegate_def)
next
  case (run_assign d f d')
  show ?case using run_assign.IH run_assign.hyps(2) by (rule assign_functor_ok)
next
  case (run_call d a h r d' h')
  show ?case using run_call.IH run_call.hyps(2) by (rule invoke_ok)
qed (auto simp: empty_delegate_def from_object_def from_function_def from_method_def make_delegate_def
    reset_delegate_def reset_stub_def delegate_ok_defs)

subsection \<open>Properties\<close>


definition counter_callees :: "(nat, nat, nat, unit) callees" where
  "counter_callees = \<lparr>functor_body = \<lambda>t v a h. (v + a, v + 1, h), function_body = \<lambda>g a h. (a, h),
     method_body = \<lambda>m p a h. (unat p, h)\<rparr>"


text \<open>C40. A functor assigned to a delegate is the one that it calls, with what it has made of itself in
  earlier calls; the functor stored before is destroyed, once and before the new one is
  constructed; and a delegate that is reset refuses calls but keeps its functor until the next
  assignment destroys it.\<close>

theorem assigned_functor_called:
  assumes run: "delegate_run C trivial this d" and assign: "assign_functor trivial this (t, v) d = Inr e"
    and body: "functor_body C t v a h = (r, v', h')"
  shows "died e = died d @ held_functors d \<and> born e = born d @ [(t, v)] \<and>
    invoke C this a e h = Inr (r, e\<lparr>store_obj := Some (t, v')\<rparr>, h') \<and>
    invoke C this b (e\<lparr>store_obj := Some (t, v')\<rparr>) h' =
      (let (r, v, h) = functor_body C t v' b h' in Inr (r, e\<lparr>store_obj := Some (t, v)\<rparr>, h)) \<and>
    invoke C this a (reset_delegate e) h = Inl Dead_object \<and> held_functors (reset_delegate e) = [(t, v)] \<and>
    (\<exists>e'. assign_functor trivial this f (reset_delegate e) = Inr e' \<and> died e' = died e @ [(t, v)])"
proof -
  have ok: "delegate_ok this d" using run by (rule delegate_run_ok)
  then have e: "e = emplace_functor this (t, v) (d\<lparr>store_obj := None, died := died d @ held_functors d\<rparr>)"
    using assign by (simp add: assign_functor_eq)
  have "delegate_ok this (reset_delegate e)"
    using delegate_run_ok [OF delegate_run.run_reset [OF delegate_run.run_assign [OF run assign]]] .
  from assign_functor_eq [OF this, of trivial f]
  have "\<exists>e'. assign_functor trivial this f (reset_delegate e) = Inr e' \<and> died e' = died e @ [(t, v)]"
    by (simp add: e emplace_functor_def reset_delegate_def held_functors_def)
  then show ?thesis using body
    by (simp add: e emplace_functor_def invoke_def functor_stub_def reset_delegate_def held_functors_def Let_def split: prod.split)
qed

theorem assigned_functor_called_witness:
  "\<exists>e. assign_functor (\<lambda>t. t = 0) 4096 (3, 7) (from_method 9 64) = Inr e \<and>
     invoke counter_callees 4096 10 e () = Inr (17, e\<lparr>store_obj := Some (3, 8)\<rparr>, ()) \<and>
     (\<exists>e'. assign_functor (\<lambda>t. t = 0) 4096 (2, 0) (reset_delegate e) = Inr e' \<and> died e' = died e @ [(3, 7)])"
proof -
  let ?e = "emplace_functor 4096 (3, 7) (from_method 9 64)"
  have a: "assign_functor (\<lambda>t. t = 0) 4096 (3, 7) (from_method 9 64) = Inr ?e"
    by (simp add: assign_functor_def run_deleter_def from_method_def make_delegate_def)
  have b: "functor_body counter_callees 3 7 10 () = (17, 8, ())" by (simp add: counter_callees_def)
  show ?thesis
    using a assigned_functor_called [OF delegate_run.run_method a b, of 0 "(2, 0)"] by blast
qed

text \<open>The destructor calls \<open>deleter_(this)\<close> where the assignment calls \<open>deleter_(store_)\<close>: it never
  destroys the stored functor, and if the functor's destructor is not trivial it runs that
  destructor on the bytes of the delegate itself, which is undefined. With the storage's address it would have
  destroyed the functor.\<close>

theorem destructor_misses_store:
  assumes run: "delegate_run C trivial this d"
  shows "destroy_delegate trivial this d =
      (if \<forall>f \<in> set (held_functors d). trivial (fst f) then Inr d else Inl Dead_object) \<and>
    run_deleter trivial this (store_addr this) d = Inr (d\<lparr>store_obj := None, died := died d @ held_functors d\<rparr>)"
proof -
  have "deleter_ok d" using delegate_run_ok [OF run] by (simp add: delegate_ok_def)
  then show ?thesis
    by (auto simp: destroy_delegate_def run_deleter_self run_deleter_store held_functors_def require_def split: option.split)
qed

theorem destructor_misses_store_witness:
  "destroy_delegate (\<lambda>t. t = 0) 4096 (from_functor 0 4096 (2, 5 :: nat)) = Inl Dead_object \<and>
   destroy_delegate (\<lambda>t. t = 0) 4096 (from_functor 0 4096 (0, 5 :: nat)) = Inr (from_functor 0 4096 (0, 5 :: nat))"
proof -
  have run: "delegate_run counter_callees (\<lambda>t. t = 0) 4096 (from_functor 0 4096 f)" for f by (rule delegate_run.run_functor)
  have "held_functors (from_functor 0 4096 f) = [f]" for f :: "nat functor_obj"
    by (simp add: held_functors_def from_functor_def emplace_functor_def)
  then show ?thesis using destructor_misses_store [OF run, of "(2, 5)"] destructor_misses_store [OF run, of "(0, 5)"] by simp
qed

end
