(* ===== verification/Windows.thy ===== *)
theory Windows
  imports Prelude
begin

text \<open>
  The SDL wrapper of the demo: \<open>Application\<close> (\<open>core/application.hpp\<close>, \<open>core/application.cpp\<close>),
  which starts SDL and remembers the main thread, and \<open>Window\<close> (\<open>core/window.hpp\<close>,
  \<open>core/window.cpp\<close>), the owner of one SDL window. SDL is outside the repository: the result of
  \<open>SDL_Init\<close> and the handle \<open>SDL_CreateWindow\<close> returns are arguments, and the platform is the list
  of the windows that exist. \<open>toggle_fullscreen\<close> is declared and not defined anywhere.
\<close>

type_synonym handle = nat
type_synonym thread = nat

record platform =
  initialised :: bool
  main_thread :: "thread option" \<comment> \<open>\<open>g_main_thread_id\<close>\<close>
  windows :: "handle list"

record window =
  window_handle :: "handle option" \<comment> \<open>\<open>window_\<close>, \<open>None\<close> for the null pointer\<close>

definition start_application :: "int \<Rightarrow> thread \<Rightarrow> platform \<Rightarrow> platform res" where
  "start_application sdl_init this_thread p =
     require (sdl_init = 0) Check_failed (Inr (p\<lparr>initialised := True, main_thread := Some this_thread\<rparr>))"

definition on_main_thread :: "thread \<Rightarrow> platform \<Rightarrow> bool" where
  "on_main_thread this_thread p \<longleftrightarrow> main_thread p = Some this_thread"

definition quit_application :: "platform \<Rightarrow> platform" where
  "quit_application p = p\<lparr>initialised := False\<rparr>"

definition new_window :: "thread \<Rightarrow> platform \<Rightarrow> window res" where
  "new_window this_thread p = require (on_main_thread this_thread p) Check_failed (Inr \<lparr>window_handle = None\<rparr>)"

text \<open>\<open>r\<close> is what \<open>SDL_CreateWindow\<close> returns.\<close>

definition open_window :: "handle option \<Rightarrow> window \<Rightarrow> platform \<Rightarrow> bool \<times> window \<times> platform" where
  "open_window r w p =
     (let p = (case r of None \<Rightarrow> p | Some h \<Rightarrow> p\<lparr>windows := h # windows p\<rparr>); w = w\<lparr>window_handle := r\<rparr> in
      (window_handle w \<noteq> None, w, p))"

definition is_opened :: "window \<Rightarrow> bool" where
  "is_opened w \<longleftrightarrow> window_handle w = None"

definition destroy_window :: "window \<Rightarrow> platform \<Rightarrow> platform" where
  "destroy_window w p = (case window_handle w of None \<Rightarrow> p | Some h \<Rightarrow> p\<lparr>windows := remove1 h (windows p)\<rparr>)"

text \<open>One window, opened at most once, is gone when its owner is destroyed.\<close>

lemma open_destroy:
  assumes "open_window r w p = (ok, w', p')"
  shows "ok \<longleftrightarrow> r \<noteq> None" "windows (destroy_window w' p') = windows p"
  using assms by (auto simp: open_window_def destroy_window_def split: option.splits)

text \<open>\<open>is_opened\<close> tests for the null pointer: it says yes before \<open>open\<close>, or after it failed, and no
  afterwards.\<close>

lemma is_opened_inverted: "open_window r w p = (ok, w', p') \<Longrightarrow> is_opened w' \<longleftrightarrow> \<not> ok"
  by (auto simp: open_window_def is_opened_def)

text \<open>A second \<open>open\<close> overwrites the handle of the first window, which is then never destroyed.\<close>

lemma reopen_leaks:
  assumes "open_window (Some h) w p = (ok, w', p')" "open_window r w' p' = (ok', w'', p'')"
  shows "windows (destroy_window w'' p'') = h # windows p"
  using assms by (auto simp: open_window_def destroy_window_def split: option.splits)

end
