(* ===== verification/Spec2Isabelle.thy ===== *)
theory Spec2Isabelle
  imports Frame_Demo Work_Stealing_Refine Id_Vectors_Agree Unit_Tests Sandbox Array_Delegate Windows
begin

text \<open>
  A verification development for \<^emph>\<open>sparks\<close>, a small C++11 task-parallelism library.

  \<^bold>\<open>The program.\<close> It has two generations of the same idea. \<open>core/\<close> holds a lock-based \<^emph>\<open>executor\<close>:
  clients add tasks with dependencies and an optional thread affinity; worker threads take ready
  tasks from intrusive lists and run them. Tasks and dependency edges are stored in id vectors,
  containers that hand out an id for each object and recognise stale ids by a tag; a blocking
  counter lets \<open>close_and_wait\<close> wait for the workers. \<open>proto/\<close> holds a lock-free \<^emph>\<open>scheduler\<close>: one
  node per thread with a work-stealing queue of task ids, tasks in a lock-free id vector, closures
  in array delegates, and pulses that wake sleeping nodes. A thin SDL wrapper serves the demos.

  \<^bold>\<open>The theories\<close>, in the order they build on each other:

  \<^item> \<open>Prelude\<close>: results with error values, checked vector access, linked lists threaded through a
    next function.
  \<^item> \<open>Id_Layout\<close>: the bit layout of ids (\<open>core/id_vector_fwd.hpp\<close>).
  \<^item> \<open>Id_Map\<close>: the interface of an id vector as locales, with the lemmas its clients share.
  \<^item> \<open>Stable_Id_Vector\<close> (\<open>core/stable_id_vector.hpp\<close>): \<open>reserve\<close>, \<open>emplace\<close>, \<open>erase\<close>, \<open>operator[]\<close>,
    \<open>is_valid_id\<close>, the destructor. \<open>sv_repr\<close> relates a vector to its free list, \<open>sv_lookup\<close> is the
    finite map it stands for.
  \<^item> \<open>Packed_Id_Vector\<close> (\<open>core/id_vector_fwd.hpp\<close>, \<open>core/id_vector.hpp\<close>): the vector that moves its
    objects to keep them without gaps; \<open>Id_Vectors_Agree\<close> shows that the two hand out the same ids and
    find the same objects.
  \<^item> \<open>Executor\<close> (\<open>core/executor.hpp\<close>, \<open>core/executor.cpp\<close>): the state and each critical section;
    \<open>Executor_Inv\<close>: the data invariant and its preservation; \<open>Blocking_Counter\<close>
    (\<open>core/blocking_counter.hpp\<close>); \<open>Executor_Threads\<close>: workers and clients interleaved;
    \<open>Executor_Refine\<close>: the abstract graph of tasks that the pool refines; \<open>Executor_Props\<close> and
    \<open>Executor_Drain\<close>: what follows for every run.
  \<^item> \<open>Frame_Demo\<close> (\<open>core/test.cpp\<close>): a program that uses the executor: the tasks of a frame and the order
    in which they run.
  \<^item> \<open>Work_Stealing_Queue\<close> (\<open>proto/work_stealing_queue.hpp\<close>): the member functions as single steps,
    \<open>shared_pull\<close> also as the two or three in which others can see it, and the interface
    \<open>work_deque\<close> that the scheduler relies on; \<open>Work_Stealing_Steps\<close>: the same functions load by load
    and store by store, with an owner and any number of thieves; \<open>Work_Stealing_Refine\<close>: the deque
    that all these loads and stores implement.
  \<^item> \<open>Lockfree_Id_Vector\<close> (\<open>proto/id_vector.hpp\<close>): every atomic access of \<open>emplace\<close> and \<open>erase\<close> as a step
    of one of any number of threads; \<open>Lockfree_Progress\<close>: some call always gets ahead;
    \<open>Lockfree_Quiet\<close>: whole calls that do not overlap, as the interface \<open>id_map\<close>.
  \<^item> \<open>Unit_Tests\<close> (\<open>proto/id_vector_test.cpp\<close>, \<open>proto/work_stealing_queue_test.cpp\<close>): the
    single-threaded tests as programs over the two models, and the counts the id vector's test with
    many threads expects.
  \<^item> \<open>Signals\<close> (\<open>proto/signal.hpp\<close>, \<open>proto/unique_pulse.hpp\<close>, \<open>proto/unique_pulse.cpp\<close>).
  \<^item> \<open>Scheduler\<close> (\<open>proto/scheduler.hpp\<close>): nodes, the calls in progress on each, the node loop, and the
    invariant that says where every task is; \<open>Scheduler_Runs\<close>: what holds of whole runs;
    \<open>Scheduler_Closures\<close>: the interface \<open>closure_kinds\<close>, what a client promises of its closures;
    \<open>Scheduler_Refine\<close>: the bag of closures that the scheduler implements.
  \<^item> \<open>Sandbox\<close> (\<open>proto/sandbox.cpp\<close>): a program that uses the scheduler, and what it can rely on.
  \<^item> \<open>Array_Delegate\<close> (\<open>proto/arraydelegate.hpp\<close>): the type-erased closures and the lifetimes of the
    functors inside them.
  \<^item> \<open>Windows\<close> (\<open>core/application.*\<close>, \<open>core/window.*\<close>).

  \<^bold>\<open>How code becomes definitions.\<close> A class is a record of its data members, an operation a function
  from the state to a result; \<open>Inl\<close> of an \<open>error\<close> stands for a failed \<open>CHECK\<close> or \<open>DCHECK\<close>, an access out
  of bounds, or the use of storage without an object. Ids, indices and counters are words of the
  code's width. A component that threads share is a step relation or a function from an action to
  the next state; its granularity is the critical section where the code takes a mutex and the
  single atomic access where it does not. Atomics are sequentially consistent in the model. Ghost
  fields (histories, counters of events) never influence a step.

  \<^bold>\<open>What the lemmas show.\<close> Stable and packed vector: each operation on each branch, as an operation
  on the finite map; stale ids are rejected; free slots are reused first in, first out; every object
  is destroyed once. Executor: nothing aborts in any reachable state while clients keep the documented
  limits; a task starts once and after all its dependencies; ready work is found; the pool refines
  the abstract graph; one worker alone drains the queues, and the tasks of a demo frame run in the order of their dependencies. Queue and lock-free vector: under every
  interleaving nothing is lost, duplicated or accessed by two threads at once; the queue refines
  a deque whose operations are atomic, and the vector is lock-free and, between calls, a finite map;
  the single-threaded unit tests of both pass. Scheduler: every
  unfinished task is in exactly one queue or call, at most one per node is left when all nodes sleep
  or have stopped, and a node told to stop does not sleep on; it refines a bag of closures that take
  turns in any order, from which it follows that the sandbox stops only when all its tasks are done. Delegate: calls reach the functor assigned last.

  Where the code falls short of its purpose the development proves that instead: \<open>Signal\<close> never blocks
  (an inverted test), \<open>BlockingCounter::increment\<close> races, a dependency on a running task is ignored, the
  full stable vector hands out the invalid id, erasing the last object of the packed vector reads past
  the end, a queue through which \<open>2 ^ 32\<close> elements have passed refuses all pushes, the
  owner of a queue can miss a task while a thief fails to steal, so that the task is left behind, one
  node alone never returns, the destructor of a delegate misses its functor, and others named in the theories.

  \<^bold>\<open>Bounds.\<close> Tags have finitely many values, so what is said of stale ids holds for fewer than
  \<open>2 ^ INNER_BITS - 1\<close> erasures after an id was erased, and of the lock-free vector for fewer than
  \<open>2 ^ (w - INDEX_BITS)\<close> updates of its head, one for each call that takes effect; after that the code itself confuses ids. The executor
  has at most \<open>2 ^ 12 - 1\<close> tasks and \<open>2 ^ 14 - 1\<close> dependents at a time (\<open>client_ok\<close> says so of each
  call). The positions of a queue are 32-bit words compared without wrap-around, so the scheduler is
  considered up to \<open>2 ^ 32 - 2 ^ 8\<close> created tasks. Loops of the code that may not end
  are partial functions (\<open>next_victim\<close>, \<open>drain\<close>), and that they return is proved, or that they do not.

  \<^bold>\<open>Not modelled.\<close> Weaker memory orders than sequential consistency. The move constructor, \<open>swap\<close> and
  method-pointer assignments of \<open>arraydelegate\<close>, which do not compile when used.
  \<open>core/stable_id_vector_fwd.hpp\<close>, whose class cannot be instantiated and whose member functions repeat
  \<open>core/stable_id_vector.hpp\<close>. \<open>proto/scheduler.cpp\<close>, which is not built and names members that no longer
  exist. The unit tests with many threads, random programs that expect what is proved of every
  interleaving, the frameworks they run in, and the build files. \<open>proto/sparks.cpp\<close> is empty. \<open>core/arraydelegate.hpp\<close> and
  \<open>core/spin_lock.hpp\<close> are named by the build and are not in the tree.
\<close>

end
